(* ===== verification/Flood_Prelude.thy ===== *)
theory Flood_Prelude
  imports Main "HOL-Library.Word" "HOL-Library.Signed_Division" "HOL-Library.Multiset"
begin

unbundle bit_operations_syntax

section \<open>Shared vocabulary of the flood development\<close>

text \<open>
  The client is written in C. This theory fixes how C is read by the other theories:
  \<^item> a \<open>char\<close> or \<open>uint8_t\<close> is a \<open>byte\<close> (an 8-bit word), a character buffer is a
    list of bytes, and a C string is the list of the bytes before its terminating NUL;
  \<^item> a run of C code either yields a value (\<open>Inr\<close>) or does something the language
    or the platform does not define (\<open>Inl\<close> of an outcome of type \<open>ub\<close>): a read or
    write outside an object, the dereference of a null or invalid pointer, a read of an uninitialised object, a signed
    overflow, the use of a union through the wrong member, a division by zero, or a lock
    request on a mutex that is already held (which never returns in a single thread);
  \<^item> \<open>rbind\<close> sequences two runs.
  The platform is the one the Makefile targets: \<open>int\<close> has 32 bits, \<open>char\<close> is signed,
  memory is little endian. Allocation is taken to succeed.
\<close>

subsection \<open>Types\<close>

type_synonym byte = "8 word"
type_synonym bytes = "byte list"

datatype ub =
    OutOfBounds
  | NullDeref
  | UseAfterFree
  | UninitRead
  | SignedOverflow
  | TypeConfusion
  | DivByZero
  | Blocked
  | NoFuel

type_synonym 'a res = "ub + 'a"

named_theorems res_simps \<open>rewriting of runs\<close>
named_theorems wf_intros \<open>introduction rules for well-formedness\<close>

subsection \<open>Sequencing\<close>

definition rbind :: "'a res \<Rightarrow> ('a \<Rightarrow> 'b res) \<Rightarrow> 'b res" where
  "rbind m f = (case m of Inl e \<Rightarrow> Inl e | Inr x \<Rightarrow> f x)"

definition rmap :: "('a \<Rightarrow> 'b) \<Rightarrow> 'a res \<Rightarrow> 'b res" where
  "rmap f m = rbind m (\<lambda>x. Inr (f x))"

fun rfold :: "('a \<Rightarrow> 's \<Rightarrow> 's res) \<Rightarrow> 'a list \<Rightarrow> 's \<Rightarrow> 's res" where
  "rfold f [] s = Inr s"
| "rfold f (x # xs) s = rbind (f x s) (rfold f xs)"

subsection \<open>C integers\<close>

abbreviation INT_MAX :: int where "INT_MAX \<equiv> 2147483647"
abbreviation INT_MIN :: int where "INT_MIN \<equiv> - 2147483648"

definition check_int :: "int \<Rightarrow> int res" where
  "check_int x = (if INT_MIN \<le> x \<and> x \<le> INT_MAX then Inr x else Inl SignedOverflow)"

text \<open>\<open>to_int32\<close> is the conversion to \<open>int\<close> of a wider value (two's complement).\<close>

definition to_int32 :: "int \<Rightarrow> int" where
  "to_int32 x = sint (word_of_int x :: 32 word)"

subsection \<open>Characters and buffers\<close>

abbreviation chr_minus :: byte where "chr_minus \<equiv> 45"
abbreviation chr_0 :: byte where "chr_0 \<equiv> 48"
abbreviation chr_9 :: byte where "chr_9 \<equiv> 57"
abbreviation chr_colon :: byte where "chr_colon \<equiv> 58"
abbreviation chr_d :: byte where "chr_d \<equiv> 100"
abbreviation chr_e :: byte where "chr_e \<equiv> 101"
abbreviation chr_i :: byte where "chr_i \<equiv> 105"
abbreviation chr_l :: byte where "chr_l \<equiv> 108"

definition isdigit :: "byte \<Rightarrow> bool" where
  "isdigit c \<longleftrightarrow> chr_0 \<le> c \<and> c \<le> chr_9"

text \<open>A literal such as \<open>"info"\<close> of the source as bytes.\<close>

definition lit :: "string \<Rightarrow> bytes" where
  "lit s = map of_char s"

text \<open>What the \<open>str*\<close> functions see of a buffer: the bytes before the first NUL.\<close>

definition cstr :: "bytes \<Rightarrow> bytes" where
  "cstr bs = takeWhile (\<lambda>b. b \<noteq> 0) bs"

text \<open>Checked accesses to a buffer: \<open>rd buf i\<close> is \<open>buf[i]\<close>, \<open>rds buf i n\<close> reads
  \<open>n\<close> bytes from \<open>buf + i\<close>, \<open>wrs buf i bs\<close> copies \<open>bs\<close> to \<open>buf + i\<close>.\<close>

definition rd :: "'a list \<Rightarrow> int \<Rightarrow> 'a res" where
  "rd buf i = (if 0 \<le> i \<and> i < int (length buf) then Inr (buf ! nat i) else Inl OutOfBounds)"

definition rds :: "'a list \<Rightarrow> int \<Rightarrow> nat \<Rightarrow> 'a list res" where
  "rds buf i n =
     (if 0 \<le> i \<and> i + int n \<le> int (length buf) then Inr (take n (drop (nat i) buf))
      else Inl OutOfBounds)"

definition wrs :: "'a list \<Rightarrow> int \<Rightarrow> 'a list \<Rightarrow> 'a list res" where
  "wrs buf i bs =
     (if 0 \<le> i \<and> i + int (length bs) \<le> int (length buf)
      then Inr (take (nat i) buf @ bs @ drop (nat i + length bs) buf)
      else Inl OutOfBounds)"

subsection \<open>Laws of runs\<close>

lemma rbind_simps [simp]:
  "rbind (Inl e) f = Inl e"
  "rbind (Inr x) f = f x"
  by (simp_all add: rbind_def)

lemma rbind_cong [fundef_cong]:
  "m = m' \<Longrightarrow> (\<And>x. m' = Inr x \<Longrightarrow> f x = f' x) \<Longrightarrow> rbind m f = rbind m' f'"
  by (cases m') simp_all

lemma rbind_eq_Inr [res_simps]: "rbind m f = Inr y \<longleftrightarrow> (\<exists>x. m = Inr x \<and> f x = Inr y)"
  by (cases m) simp_all

lemma rbind_eq_Inl [res_simps]:
  "rbind m f = Inl e \<longleftrightarrow> m = Inl e \<or> (\<exists>x. m = Inr x \<and> f x = Inl e)"
  by (cases m) simp_all

lemma rbind_assoc: "rbind (rbind m f) g = rbind m (\<lambda>x. rbind (f x) g)"
  by (cases m) simp_all

lemma rmap_simps [simp]:
  "rmap f (Inl e) = Inl e"
  "rmap f (Inr x) = Inr (f x)"
  by (simp_all add: rmap_def)

lemma rfold_append: "rfold f (xs @ ys) s = rbind (rfold f xs s) (rfold f ys)"
proof (induction xs arbitrary: s)
  case Nil
  then show ?case by simp
next
  case (Cons x xs)
  then have "rfold f (xs @ ys) = (\<lambda>s. rbind (rfold f xs s) (rfold f ys))" by blast
  then show ?case by (simp add: rbind_assoc)
qed

text \<open>A fold whose every step succeeds and keeps a relation to a pure fold succeeds.\<close>

lemma rfold_refines:
  assumes step: "\<And>x s a. x \<in> set xs \<Longrightarrow> R s a \<Longrightarrow> \<exists>s'. f x s = Inr s' \<and> R s' (g x a)"
    and start: "R s a"
  shows "\<exists>s'. rfold f xs s = Inr s' \<and> R s' (fold g xs a)"
  using assms
proof (induction xs arbitrary: s a)
  case Nil
  then show ?case by simp
next
  case (Cons x xs)
  obtain s1 where s1: "f x s = Inr s1" "R s1 (g x a)"
    using Cons.prems(1)[of x s a] Cons.prems(2) by auto
  have "\<exists>s'. rfold f xs s1 = Inr s' \<and> R s' (fold g xs (g x a))"
    by (rule Cons.IH [OF _ s1(2)]) (simp add: Cons.prems(1))
  with s1 show ?case by simp
qed

lemma check_int_ok [simp]: "INT_MIN \<le> x \<Longrightarrow> x \<le> INT_MAX \<Longrightarrow> check_int x = Inr x"
  by (simp add: check_int_def)

lemma check_int_eq_Inr [res_simps]:
  "check_int x = Inr y \<longleftrightarrow> y = x \<and> INT_MIN \<le> x \<and> x \<le> INT_MAX"
  by (auto simp: check_int_def)

lemma check_int_eq_Inl [res_simps]:
  "check_int x = Inl e \<longleftrightarrow> e = SignedOverflow \<and> \<not> (INT_MIN \<le> x \<and> x \<le> INT_MAX)"
  by (auto simp: check_int_def)

lemma to_int32_id: "INT_MIN \<le> x \<Longrightarrow> x \<le> INT_MAX \<Longrightarrow> to_int32 x = x"
  unfolding to_int32_def sint_sbintrunc' by (rule signed_take_bit_int_eq_self) auto

lemma to_int32_range: "INT_MIN \<le> to_int32 x \<and> to_int32 x \<le> INT_MAX"
  using sint_greater_eq [of "word_of_int x :: 32 word"] sint_less [of "word_of_int x :: 32 word"]
  by (simp add: to_int32_def)

subsection \<open>Laws of buffers\<close>

lemma rd_ok [simp]: "i < length buf \<Longrightarrow> rd buf (int i) = Inr (buf ! i)"
  by (simp add: rd_def)

lemma rd_eq_Inr [res_simps]:
  "rd buf i = Inr x \<longleftrightarrow> 0 \<le> i \<and> i < int (length buf) \<and> x = buf ! nat i"
  by (auto simp: rd_def)

lemma rd_eq_Inl [res_simps]:
  "rd buf i = Inl e \<longleftrightarrow> e = OutOfBounds \<and> \<not> (0 \<le> i \<and> i < int (length buf))"
  by (auto simp: rd_def)

lemma length_wrs: "wrs buf i bs = Inr buf' \<Longrightarrow> length buf' = length buf"
  by (auto simp: wrs_def split: if_splits)

lemma wrs_at_end [simp]:
  "wrs (pre @ mid @ post) (int (length pre)) bs = Inr (pre @ bs @ post)"
  if "length bs = length mid"
  using that by (simp add: wrs_def)

lemma rds_mid [simp]:
  "rds (pre @ mid @ post) (int (length pre)) (length mid) = Inr mid"
  by (simp add: rds_def)

lemma cstr_no_nul [simp]: "0 \<notin> set (cstr bs)"
  by (auto simp: cstr_def dest: set_takeWhileD)

lemma cstr_id [simp]: "0 \<notin> set bs \<Longrightarrow> cstr bs = bs"
  unfolding cstr_def by (rule takeWhile_eq_all_conv [THEN iffD2]) auto

end
