(* ===== verification/Flood_List.thy ===== *)
theory Flood_List
  imports Flood_Prelude
begin

section \<open>The doubly linked list (src/util/list.c)\<close>

text \<open>
  \<open>list_t\<close> is the struct of \<open>includes/util/list.h\<close>; its nodes live in a heap from
  addresses to \<open>list_node\<close>s, allocated by \<open>create_node\<close> and released by
  \<open>list_truncate\<close>. An element (the \<open>elem_size\<close> bytes that \<open>memcpy\<close> moves) is one
  value of the type variable. The operations thread the pair of the heap and the struct and
  follow the \<open>next\<close> and \<open>prev\<close> pointers, so a null or dangling dereference is an outcome
  of the model. A mutex is a flag: asking for one that is held is \<open>Blocked\<close>.
  \<open>list_rep\<close> relates a heap and a struct to the sequence of addresses and the sequence of
  elements; each operation refines an operation on sequences.
\<close>

subsection \<open>Data\<close>

record 'a list_node =
  node_data :: 'a
  node_next :: "nat option"
  node_prev :: "nat option"

record 'a heap =
  cells :: "nat \<rightharpoonup> 'a list_node"
  brk :: nat

record list_t =
  l_head :: "nat option"
  l_tail :: "nat option"
  l_curr_node :: "nat option"
  l_elem_size :: int
  l_len :: int
  l_mutex :: bool

type_synonym 'a lst = "'a heap \<times> list_t"

subsection \<open>Memory and mutex primitives\<close>

definition empty_heap :: "'a heap" where
  "empty_heap = \<lparr>cells = Map.empty, brk = 0\<rparr>"

definition node_at :: "'a heap \<Rightarrow> nat option \<Rightarrow> 'a list_node res" where
  "node_at h p =
     (case p of None \<Rightarrow> Inl NullDeref
      | Some a \<Rightarrow> (case cells h a of None \<Rightarrow> Inl UseAfterFree | Some n \<Rightarrow> Inr n))"

definition node_upd :: "'a heap \<Rightarrow> nat option \<Rightarrow> ('a list_node \<Rightarrow> 'a list_node) \<Rightarrow> 'a heap res" where
  "node_upd h p f =
     rbind (node_at h p) (\<lambda>n. Inr (h\<lparr>cells := (cells h)(the p \<mapsto> f n)\<rparr>))"

definition mutex_lock :: "list_t \<Rightarrow> list_t res" where
  "mutex_lock l = (if l_mutex l then Inl Blocked else Inr (l\<lparr>l_mutex := True\<rparr>))"

definition mutex_unlock :: "list_t \<Rightarrow> list_t" where
  "mutex_unlock l = l\<lparr>l_mutex := False\<rparr>"

subsection \<open>Operations\<close>

definition list_new :: "int \<Rightarrow> list_t" where
  "list_new esize =
     \<lparr>l_head = None, l_tail = None, l_curr_node = None,
      l_elem_size = esize, l_len = 0, l_mutex = False\<rparr>"

definition list_len :: "list_t \<Rightarrow> int" where
  "list_len l = l_len l"

definition list_empty :: "list_t \<Rightarrow> bool" where
  "list_empty l \<longleftrightarrow> l_len l = 0"

definition create_node :: "'a heap \<Rightarrow> 'a \<Rightarrow> 'a heap \<times> nat" where
  "create_node h x =
     (let a = brk h;
          n = \<lparr>node_data = x, node_next = None, node_prev = None\<rparr>
      in (h\<lparr>cells := (cells h)(a \<mapsto> n), brk := Suc a\<rparr>, a))"

definition list_append :: "'a lst \<Rightarrow> 'a \<Rightarrow> 'a lst res" where
  "list_append st x =
     (let (h, l) = st in
      rbind (mutex_lock l) (\<lambda>l.
      let (h, a) = create_node h x in
      rbind
        (if l_len l = 0 then
           rbind (node_upd h (Some a) (\<lambda>n. n\<lparr>node_next := None, node_prev := None\<rparr>)) (\<lambda>h.
           Inr (h, l\<lparr>l_head := Some a, l_tail := Some a\<rparr>))
         else
           rbind (node_upd h (l_tail l) (\<lambda>n. n\<lparr>node_next := Some a\<rparr>)) (\<lambda>h.
           rbind (node_upd h (Some a) (\<lambda>n. n\<lparr>node_next := None, node_prev := l_tail l\<rparr>)) (\<lambda>h.
           Inr (h, l\<lparr>l_tail := Some a\<rparr>))))
        (\<lambda>(h, l). Inr (h, mutex_unlock (l\<lparr>l_len := l_len l + 1\<rparr>)))))"

definition list_prepend :: "'a lst \<Rightarrow> 'a \<Rightarrow> 'a lst res" where
  "list_prepend st x =
     (let (h, l) = st in
      rbind (mutex_lock l) (\<lambda>l.
      let (h, a) = create_node h x in
      rbind
        (if l_len l = 0 then
           rbind (node_upd h (Some a) (\<lambda>n. n\<lparr>node_next := None, node_prev := None\<rparr>)) (\<lambda>h.
           Inr (h, l\<lparr>l_head := Some a, l_tail := Some a\<rparr>))
         else
           rbind (node_upd h (l_head l) (\<lambda>n. n\<lparr>node_prev := Some a\<rparr>)) (\<lambda>h.
           rbind (node_upd h (Some a) (\<lambda>n. n\<lparr>node_next := l_head l, node_prev := None\<rparr>)) (\<lambda>h.
           Inr (h, l\<lparr>l_head := Some a\<rparr>))))
        (\<lambda>(h, l). Inr (h, mutex_unlock (l\<lparr>l_len := l_len l + 1\<rparr>)))))"

text \<open>The two traversal loops: \<open>n\<close> steps along \<open>next\<close> or along \<open>prev\<close>.\<close>

fun walk_next :: "'a heap \<Rightarrow> nat option \<Rightarrow> nat \<Rightarrow> nat option res" where
  "walk_next h p 0 = Inr p"
| "walk_next h p (Suc n) = rbind (node_at h p) (\<lambda>nd. walk_next h (node_next nd) n)"

fun walk_prev :: "'a heap \<Rightarrow> nat option \<Rightarrow> nat \<Rightarrow> nat option res" where
  "walk_prev h p 0 = Inr p"
| "walk_prev h p (Suc n) = rbind (node_at h p) (\<lambda>nd. walk_prev h (node_prev nd) n)"

text \<open>The search for the node at an index, from the nearer end.\<close>

definition locate :: "'a heap \<Rightarrow> list_t \<Rightarrow> int \<Rightarrow> nat option res" where
  "locate h l idx =
     (let mid = l_len l div 2 in
      if idx \<le> mid then walk_next h (l_head l) (nat idx)
      else walk_prev h (l_tail l) (nat (l_len l - idx - 1)))"

definition list_insert :: "'a lst \<Rightarrow> int \<Rightarrow> 'a \<Rightarrow> ('a lst \<times> bool) res" where
  "list_insert st idx x =
     (let (h, l) = st in
      if idx < 0 \<or> idx > l_len l then Inr (st, False)
      else if idx = l_len l then rmap (\<lambda>st. (st, True)) (list_append st x)
      else if idx = 0 then rmap (\<lambda>st. (st, True)) (list_prepend st x)
      else
        rbind (mutex_lock l) (\<lambda>l.
        let (h, a) = create_node h x in
        rbind (locate h l idx) (\<lambda>node.
        rbind (node_at h node) (\<lambda>nd.
        rbind (node_upd h (node_prev nd) (\<lambda>n. n\<lparr>node_next := Some a\<rparr>)) (\<lambda>h.
        rbind (node_upd h (Some a) (\<lambda>n. n\<lparr>node_prev := node_prev nd\<rparr>)) (\<lambda>h.
        rbind (node_upd h (Some a) (\<lambda>n. n\<lparr>node_next := node\<rparr>)) (\<lambda>h.
        rbind (node_upd h node (\<lambda>n. n\<lparr>node_prev := Some a\<rparr>)) (\<lambda>h.
        Inr ((h, mutex_unlock (l\<lparr>l_len := l_len l + 1\<rparr>)), True)))))))))"

text \<open>On an empty list \<open>list_truncate\<close> returns while it still holds the mutex.\<close>

definition list_truncate :: "'a lst \<Rightarrow> ('a lst \<times> bool) res" where
  "list_truncate st =
     (let (h, l) = st in
      rbind (mutex_lock l) (\<lambda>l.
      if l_len l < 1 then Inr ((h, l), False)
      else
        let del_node = l_tail l in
        rbind
          (if l_len l = 1 then Inr (h, l\<lparr>l_head := None, l_tail := None\<rparr>)
           else
             rbind (node_at h del_node) (\<lambda>d.
             rbind (node_upd h (node_prev d) (\<lambda>n. n\<lparr>node_next := None\<rparr>)) (\<lambda>h.
             Inr (h, l\<lparr>l_tail := node_prev d\<rparr>))))
          (\<lambda>(h, l).
             Inr ((case del_node of None \<Rightarrow> h | Some a \<Rightarrow> h\<lparr>cells := (cells h)(a := None)\<rparr>,
                   mutex_unlock (l\<lparr>l_len := l_len l - 1\<rparr>)), True))))"

text \<open>The result is \<open>None\<close> for \<open>false\<close> and \<open>Some\<close> of the copied element for \<open>true\<close>.\<close>

definition list_get :: "'a lst \<Rightarrow> int \<Rightarrow> ('a lst \<times> 'a option) res" where
  "list_get st idx =
     (let (h, l) = st in
      if idx < 0 \<or> idx \<ge> l_len l then Inr (st, None)
      else
        rbind (mutex_lock l) (\<lambda>l.
        rbind (locate h l idx) (\<lambda>node.
        rbind (node_at h node) (\<lambda>nd.
        Inr ((h, mutex_unlock l), Some (node_data nd))))))"

text \<open>\<open>list_each\<close> with a callback that has a state of its own; \<open>fuel\<close> bounds the number
  of nodes visited.\<close>

fun list_each_from ::
  "nat \<Rightarrow> 'a heap \<Rightarrow> nat option \<Rightarrow> (int \<Rightarrow> 'a \<Rightarrow> 's \<Rightarrow> int \<times> 's) \<Rightarrow> int \<Rightarrow> 's \<Rightarrow> 's res" where
  "list_each_from 0 h p fn i s = Inl NoFuel"
| "list_each_from (Suc fuel) h p fn i s =
     (if p = None then Inr s
      else rbind (node_at h p) (\<lambda>nd.
        let (r, s) = fn i (node_data nd) s in
        if r \<noteq> 0 then Inr s
        else list_each_from fuel h (node_next nd) fn (i + 1) s))"

definition list_each ::
  "nat \<Rightarrow> 'a lst \<Rightarrow> (int \<Rightarrow> 'a \<Rightarrow> 's \<Rightarrow> int \<times> 's) \<Rightarrow> 's \<Rightarrow> 's res" where
  "list_each fuel st fn s = (let (h, l) = st in list_each_from fuel h (l_head l) fn 0 s)"

definition list_iter_start :: "'a lst \<Rightarrow> 'a lst" where
  "list_iter_start st = (let (h, l) = st in (h, l\<lparr>l_curr_node := l_head l\<rparr>))"

definition list_iter_start_safe :: "'a lst \<Rightarrow> 'a lst res" where
  "list_iter_start_safe st =
     (let (h, l) = st in
      rbind (mutex_lock l) (\<lambda>l. Inr (h, l\<lparr>l_curr_node := l_head l\<rparr>)))"

definition list_iter_has_next :: "'a lst \<Rightarrow> bool" where
  "list_iter_has_next st \<longleftrightarrow> l_curr_node (snd st) \<noteq> None"

definition list_iter_next :: "'a lst \<Rightarrow> ('a lst \<times> 'a option) res" where
  "list_iter_next st =
     (let (h, l) = st in
      if l_curr_node l = None then Inr (st, None)
      else rbind (node_at h (l_curr_node l)) (\<lambda>nd.
        Inr ((h, l\<lparr>l_curr_node := node_next nd\<rparr>), Some (node_data nd))))"

definition list_iter_stop_safe :: "'a lst \<Rightarrow> 'a lst" where
  "list_iter_stop_safe st = (let (h, l) = st in (h, mutex_unlock l))"

text \<open>The loop \<open>while (list_iter_has_next(l)) list_iter_next(l, &x)\<close> that the callers run:
  the elements it hands out, in order.\<close>

fun iter_collect :: "nat \<Rightarrow> 'a lst \<Rightarrow> ('a lst \<times> 'a list) res" where
  "iter_collect 0 st = Inl NoFuel"
| "iter_collect (Suc fuel) st =
     (if \<not> list_iter_has_next st then Inr (st, [])
      else rbind (list_iter_next st) (\<lambda>(st, r).
        case r of None \<Rightarrow> Inl UninitRead
        | Some x \<Rightarrow> rmap (\<lambda>(st, xs). (st, x # xs)) (iter_collect fuel st)))"

subsection \<open>Representation\<close>

definition nth_opt :: "'b list \<Rightarrow> nat \<Rightarrow> 'b option" where
  "nth_opt as i = (if i < length as then Some (as ! i) else None)"

definition before_opt :: "'b list \<Rightarrow> nat \<Rightarrow> 'b option" where
  "before_opt as i = (if i = 0 then None else nth_opt as (i - 1))"

definition list_node_of :: "nat list \<Rightarrow> 'a list \<Rightarrow> nat \<Rightarrow> 'a list_node" where
  "list_node_of as xs i =
     \<lparr>node_data = xs ! i, node_next = nth_opt as (Suc i), node_prev = before_opt as i\<rparr>"

definition list_rep :: "'a heap \<Rightarrow> list_t \<Rightarrow> nat list \<Rightarrow> 'a list \<Rightarrow> bool" where
  "list_rep h l as xs \<longleftrightarrow>
     length as = length xs \<and> distinct as \<and>
     (\<forall>i < length as. cells h (as ! i) = Some (list_node_of as xs i)) \<and>
     l_head l = nth_opt as 0 \<and> l_tail l = before_opt as (length as) \<and>
     l_len l = int (length as) \<and> (\<forall>a. a \<ge> brk h \<longrightarrow> cells h a = None)"

definition list_ok :: "'a lst \<Rightarrow> 'a list \<Rightarrow> bool" where
  "list_ok st xs \<longleftrightarrow> \<not> l_mutex (snd st) \<and> (\<exists>as. list_rep (fst st) (snd st) as xs)"

text \<open>What \<open>list_each\<close> means on a sequence: the callback runs on each element with its
  index until it returns a value other than 0.\<close>

fun each_seq :: "(int \<Rightarrow> 'a \<Rightarrow> 's \<Rightarrow> int \<times> 's) \<Rightarrow> int \<Rightarrow> 'a list \<Rightarrow> 's \<Rightarrow> 's" where
  "each_seq fn i [] s = s"
| "each_seq fn i (x # xs) s =
     (let (r, s) = fn i x s in if r \<noteq> 0 then s else each_seq fn (i + 1) xs s)"

definition insert_at :: "nat \<Rightarrow> 'a \<Rightarrow> 'a list \<Rightarrow> 'a list" where
  "insert_at k x xs = take k xs @ x # drop k xs"

subsection \<open>Facts of the representation\<close>

lemma node_at_Some: "cells h a = Some n \<Longrightarrow> node_at h (Some a) = Inr n"
  by (simp add: node_at_def)

lemma node_upd_Some:
  "cells h a = Some n \<Longrightarrow> node_upd h (Some a) f = Inr (h\<lparr>cells := (cells h)(a \<mapsto> f n)\<rparr>)"
  by (simp add: node_upd_def node_at_Some)

lemma nth_opt_simps [simp]:
  "i < length as \<Longrightarrow> nth_opt as i = Some (as ! i)"
  "length as \<le> i \<Longrightarrow> nth_opt as i = None"
  by (simp_all add: nth_opt_def)

lemma before_opt_simps [simp]:
  "before_opt as 0 = None"
  "before_opt as (Suc i) = nth_opt as i"
  by (simp_all add: before_opt_def)

lemma list_rep_length: "list_rep h l as xs \<Longrightarrow> length as = length xs \<and> l_len l = int (length xs)"
  by (simp add: list_rep_def)

lemma list_rep_cell:
  "list_rep h l as xs \<Longrightarrow> i < length xs \<Longrightarrow> cells h (as ! i) = Some (list_node_of as xs i)"
  by (simp add: list_rep_def)

lemma list_rep_node_at:
  "list_rep h l as xs \<Longrightarrow> i < length xs \<Longrightarrow>
     node_at h (nth_opt as i) = Inr (list_node_of as xs i)"
  by (simp add: list_rep_cell list_rep_length node_at_Some)

lemma list_rep_fresh: "list_rep h l as xs \<Longrightarrow> brk h \<notin> set as"
  by (auto simp: list_rep_def in_set_conv_nth)

lemma list_rep_curr [simp]:
  "list_rep h (l\<lparr>l_curr_node := c\<rparr>) as xs = list_rep h l as xs"
  "list_rep h (l\<lparr>l_mutex := m\<rparr>) as xs = list_rep h l as xs"
  by (simp_all add: list_rep_def)

lemma list_rep_new: "list_rep empty_heap (list_new n) [] []"
  by (simp add: list_rep_def empty_heap_def list_new_def)

text \<open>Two descriptions of the same heap and struct describe the same sequence.\<close>

lemma list_rep_unique:
  assumes "list_rep h l as xs" and "list_rep h l bs ys"
  shows "as = bs \<and> xs = ys"
proof -
  have len: "length as = length bs" "length as = length xs" "length bs = length ys"
    using assms by (auto simp: list_rep_def)
  have "as ! i = bs ! i" if "i < length as" for i
    using that
  proof (induction i)
    case 0
    then show ?case using assms len by (simp add: list_rep_def)
  next
    case (Suc i)
    then have "as ! i = bs ! i" by simp
    with Suc.prems have "list_node_of as xs i = list_node_of bs ys i"
      using assms len by (metis Suc_lessD list_rep_cell option.inject)
    with Suc.prems len show ?case by (simp add: list_node_of_def)
  qed
  then have as: "as = bs" using len by (simp add: nth_equalityI)
  have "xs ! i = ys ! i" if "i < length xs" for i
  proof -
    have "list_node_of as xs i = list_node_of bs ys i"
      using assms len that as by (metis list_rep_cell option.inject)
    then show ?thesis by (simp add: list_node_of_def)
  qed
  with as len show ?thesis by (simp add: nth_equalityI)
qed

subsection \<open>Traversals\<close>

lemma walk_next_rep:
  "list_rep h l as xs \<Longrightarrow> i + n \<le> length xs \<Longrightarrow>
     walk_next h (nth_opt as i) n = Inr (nth_opt as (i + n))"
proof (induction n arbitrary: i)
  case 0
  then show ?case by simp
next
  case (Suc n)
  then have "walk_next h (nth_opt as (Suc i)) n = Inr (nth_opt as (Suc i + n))" by simp
  with Suc.prems show ?case
    by (simp add: list_rep_node_at list_node_of_def del: nth_opt_simps)
qed

lemma walk_prev_rep:
  "list_rep h l as xs \<Longrightarrow> n \<le> i \<Longrightarrow> i \<le> length xs \<Longrightarrow>
     walk_prev h (before_opt as i) n = Inr (before_opt as (i - n))"
proof (induction n arbitrary: i)
  case 0
  then show ?case by simp
next
  case (Suc n)
  then obtain j where j: "i = Suc j" by (cases i) auto
  with Suc.prems have "node_at h (before_opt as i) = Inr (list_node_of as xs j)"
    by (simp add: list_rep_node_at del: nth_opt_simps)
  moreover have "walk_prev h (before_opt as j) n = Inr (before_opt as (j - n))"
    using Suc.prems j by (intro Suc.IH) auto
  ultimately show ?case using j by (simp add: list_node_of_def)
qed

lemma locate_rep:
  assumes rep: "list_rep h l as xs" and i: "i < length xs"
  shows "locate h l (int i) = Inr (nth_opt as i)"
proof (cases "int i \<le> l_len l div 2")
  case True
  then show ?thesis
    using walk_next_rep [OF rep, of 0 i] rep i by (simp add: locate_def list_rep_def)
next
  case False
  have "l_tail l = before_opt as (length xs)" "nat (l_len l - int i - 1) = length xs - i - 1"
    using rep i by (auto simp: list_rep_def)
  moreover have "length xs - (length xs - i - 1) = Suc i" using i by simp
  ultimately show ?thesis
    using False walk_prev_rep [OF rep, of "length xs - i - 1" "length xs"] i
    by (simp add: locate_def Let_def)
qed

subsection \<open>Linking a new node in\<close>

lemma nth_insert:
  "k \<le> length as \<Longrightarrow>
     (take k as @ a # drop k as) ! i = (if i < k then as ! i else if i = k then a else as ! (i - 1))"
  by (auto simp: nth_append min_def nth_Cons')

lemma nth_opt_insert:
  "k \<le> length as \<Longrightarrow>
     nth_opt (take k as @ a # drop k as) i =
       (if i < k then nth_opt as i else if i = k then Some a else nth_opt as (i - 1))"
  by (auto simp: nth_opt_def nth_insert)

lemma before_opt_insert:
  "k \<le> length as \<Longrightarrow>
     before_opt (take k as @ a # drop k as) i =
       (if i \<le> k then before_opt as i else if i = Suc k then Some a else before_opt as (i - 1))"
  by (cases i) (auto simp: nth_opt_insert before_opt_def)

text \<open>The state of the heap after the four pointer updates of an insertion at \<open>k\<close>, whatever
  their order, represents the sequence with the element put in.\<close>

lemma list_rep_insert:
  assumes rep: "list_rep h l as xs" and k: "k \<le> length xs"
    and a: "a = brk h" "brk h' = Suc a" "\<And>b. a < b \<Longrightarrow> cells h' b = None"
    and new: "cells h' a = Some \<lparr>node_data = x, node_next = nth_opt as k, node_prev = before_opt as k\<rparr>"
    and old: "\<And>i. i < length xs \<Longrightarrow> cells h' (as ! i) =
       Some \<lparr>node_data = xs ! i,
             node_next = (if Suc i = k then Some a else nth_opt as (Suc i)),
             node_prev = (if i = k then Some a else before_opt as i)\<rparr>"
    and l': "l_head l' = (if k = 0 then Some a else l_head l)"
      "l_tail l' = (if k = length xs then Some a else l_tail l)" "l_len l' = l_len l + 1"
  shows "list_rep h' l' (take k as @ a # drop k as) (take k xs @ x # drop k xs)"
    (is "list_rep h' l' ?as ?xs")
proof -
  have len: "length as = length xs" using rep by (simp add: list_rep_def)
  have k': "k \<le> length as" using k len by simp
  have "distinct (take k as @ drop k as)" using rep by (simp add: list_rep_def)
  then have dist: "distinct ?as"
    using list_rep_fresh [OF rep] a(1) set_take_disj_set_drop_if_distinct [of as k k]
    by (auto dest: in_set_takeD in_set_dropD)
  have "cells h' (?as ! i) = Some (list_node_of ?as ?xs i)" if i: "i < length ?as" for i
  proof (cases "i < k \<or> i = k")
    case True
    then show ?thesis
      using old [of i] new k len
      by (auto simp: list_node_of_def nth_insert nth_opt_insert before_opt_insert k')
  next
    case False
    then obtain j where j: "i = Suc j" "k \<le> j" by (cases i) auto
    with i len have "j < length xs" by (auto simp: min_def split: if_splits)
    then show ?thesis
      using old [of j] j k len
      by (auto simp: list_node_of_def nth_insert nth_opt_insert before_opt_insert k'
          before_opt_def)
  qed
  moreover have "l_head l' = nth_opt ?as 0" "l_tail l' = before_opt ?as (length ?as)"
    using l'(1,2) rep k len
    by (auto simp: list_rep_def nth_opt_insert before_opt_insert k' min_def before_opt_def
        simp del: nth_opt_simps)
  moreover have "l_len l' = int (length ?as)" using l'(3) rep by (simp add: list_rep_def)
  ultimately show ?thesis
    unfolding list_rep_def using dist len a by (auto simp: Suc_le_eq)
qed

lemma cells_other:
  "list_rep h l as xs \<Longrightarrow> i < length xs \<Longrightarrow> j < length xs \<Longrightarrow> as ! i = as ! j \<longleftrightarrow> i = j"
  by (simp add: list_rep_def nth_eq_iff_index_eq)

lemma list_rep_below_brk: "list_rep h l as xs \<Longrightarrow> i < length xs \<Longrightarrow> as ! i < brk h"
  by (metis list_rep_cell list_rep_def not_le option.distinct(1))

lemma list_rep_not_brk: "list_rep h l as xs \<Longrightarrow> i < length xs \<Longrightarrow> as ! i \<noteq> brk h"
  using list_rep_below_brk [of h l as xs i] by simp

subsection \<open>Each operation on a represented list\<close>

lemma list_append_rep:
  assumes rep: "list_rep h l as xs" and m: "\<not> l_mutex l"
  shows "\<exists>h' l'. list_append (h, l) x = Inr (h', l') \<and> \<not> l_mutex l' \<and>
           list_rep h' l' (as @ [brk h]) (xs @ [x])"
proof (cases "xs = []")
  case True
  with rep m show ?thesis
    by (auto simp: list_append_def mutex_lock_def mutex_unlock_def create_node_def Let_def
        node_upd_def node_at_def list_rep_def list_node_of_def)
next
  case False
  define n where "n = length xs - 1"
  have n: "length xs = Suc n" "length as = Suc n"
    using False rep by (auto simp: n_def list_rep_def)
  have tl: "l_tail l = Some (as ! n)" "l_len l \<noteq> 0"
    using rep n by (auto simp: list_rep_def)
  have c: "cells h (as ! n) = Some (list_node_of as xs n)"
    using rep n by (simp add: list_rep_cell)
  let ?c = "(cells h)(as ! n \<mapsto> (list_node_of as xs n)\<lparr>node_next := Some (brk h)\<rparr>,
     brk h \<mapsto> \<lparr>node_data = x, node_next = None, node_prev = Some (as ! n)\<rparr>)"
  let ?h = "h\<lparr>cells := ?c, brk := Suc (brk h)\<rparr>"
  let ?l = "l\<lparr>l_tail := Some (brk h), l_len := l_len l + 1, l_mutex := False\<rparr>"
  have nb: "as ! n \<noteq> brk h" by (rule list_rep_not_brk [OF rep]) (simp add: n)
  have eq: "list_append (h, l) x = Inr (?h, ?l)"
    using m tl c nb
    by (simp add: list_append_def mutex_lock_def mutex_unlock_def create_node_def
        node_upd_def node_at_def Let_def fun_upd_twist)
  have "list_rep ?h ?l (take (length xs) as @ brk h # drop (length xs) as)
     (take (length xs) xs @ x # drop (length xs) xs)"
  proof (rule list_rep_insert [OF rep])
    fix i assume i: "i < length xs"
    with rep c nb show "cells ?h (as ! i) = Some \<lparr>node_data = xs ! i,
        node_next = (if Suc i = length xs then Some (brk h) else nth_opt as (Suc i)),
        node_prev = (if i = length xs then Some (brk h) else before_opt as i)\<rparr>"
      using cells_other [OF rep i, of n] list_rep_not_brk [OF rep i] list_rep_cell [OF rep i] n
      by (auto simp: list_node_of_def)
  qed (use rep n nb in \<open>auto simp: list_rep_def\<close>)
  then show ?thesis using eq n by auto
qed

lemma list_prepend_rep:
  assumes rep: "list_rep h l as xs" and m: "\<not> l_mutex l"
  shows "\<exists>h' l'. list_prepend (h, l) x = Inr (h', l') \<and> \<not> l_mutex l' \<and>
           list_rep h' l' (brk h # as) (x # xs)"
proof (cases "xs = []")
  case True
  with rep m show ?thesis
    by (auto simp: list_prepend_def mutex_lock_def mutex_unlock_def create_node_def Let_def
        node_upd_def node_at_def list_rep_def list_node_of_def)
next
  case False
  then have n: "0 < length xs" "length as = length xs" using rep by (auto simp: list_rep_def)
  have hd: "l_head l = Some (as ! 0)" "l_len l \<noteq> 0" using rep n by (auto simp: list_rep_def)
  have c: "cells h (as ! 0) = Some (list_node_of as xs 0)"
    using rep n by (simp add: list_rep_cell)
  have nb: "as ! 0 \<noteq> brk h" by (rule list_rep_not_brk [OF rep n(1)])
  let ?c = "(cells h)(as ! 0 \<mapsto> (list_node_of as xs 0)\<lparr>node_prev := Some (brk h)\<rparr>,
     brk h \<mapsto> \<lparr>node_data = x, node_next = Some (as ! 0), node_prev = None\<rparr>)"
  let ?h = "h\<lparr>cells := ?c, brk := Suc (brk h)\<rparr>"
  let ?l = "l\<lparr>l_head := Some (brk h), l_len := l_len l + 1, l_mutex := False\<rparr>"
  have eq: "list_prepend (h, l) x = Inr (?h, ?l)"
    using m hd c nb
    by (simp add: list_prepend_def mutex_lock_def mutex_unlock_def create_node_def
        node_upd_def node_at_def Let_def fun_upd_twist)
  have "list_rep ?h ?l (take 0 as @ brk h # drop 0 as) (take 0 xs @ x # drop 0 xs)"
  proof (rule list_rep_insert [OF rep])
    fix i assume i: "i < length xs"
    with rep c nb show "cells ?h (as ! i) = Some \<lparr>node_data = xs ! i,
        node_next = (if Suc i = 0 then Some (brk h) else nth_opt as (Suc i)),
        node_prev = (if i = 0 then Some (brk h) else before_opt as i)\<rparr>"
      using cells_other [OF rep i, of 0] list_rep_not_brk [OF rep i] list_rep_cell [OF rep i] n
      by (auto simp: list_node_of_def)
  qed (use rep n nb in \<open>auto simp: list_rep_def\<close>)
  then show ?thesis using eq by auto
qed

lemma create_node_rep:
  assumes rep: "list_rep h l as xs"
  shows "list_rep (fst (create_node h x)) l as xs"
  using list_rep_not_brk [OF rep] rep
  by (auto simp: create_node_def Let_def list_rep_def)

lemma list_insert_rep:
  assumes rep: "list_rep h l as xs" and m: "\<not> l_mutex l" and k: "0 < k" "k < length xs"
  shows "\<exists>h' l'. list_insert (h, l) (int k) x = Inr ((h', l'), True) \<and> \<not> l_mutex l' \<and>
           list_rep h' l' (take k as @ brk h # drop k as) (take k xs @ x # drop k xs)"
proof -
  define h1 where "h1 = fst (create_node h x)"
  define j where "j = k - 1"
  have kj: "k = Suc j" "j < length xs" "j \<noteq> k" using k by (auto simp: j_def)
  have len: "length as = length xs" "l_len l = int (length xs)" using rep by (auto simp: list_rep_def)
  have h1: "create_node h x = (h1, brk h)" "brk h1 = Suc (brk h)"
    "cells h1 = (cells h)(brk h \<mapsto> \<lparr>node_data = x, node_next = None, node_prev = None\<rparr>)"
    by (simp_all add: h1_def create_node_def Let_def)
  have "list_rep h1 (l\<lparr>l_mutex := True\<rparr>) as xs"
    using create_node_rep [OF rep, of x] by (simp add: h1_def)
  then have loc: "locate h1 (l\<lparr>l_mutex := True\<rparr>) (int k) = Inr (Some (as ! k))"
    using locate_rep k len by fastforce
  have c: "cells h (as ! k) = Some (list_node_of as xs k)"
    "cells h (as ! j) = Some (list_node_of as xs j)"
    using rep k kj by (auto simp: list_rep_cell)
  have nb: "as ! k \<noteq> brk h" "as ! j \<noteq> brk h" "as ! j \<noteq> as ! k"
    using list_rep_not_brk [OF rep] cells_other [OF rep, of j k] k kj by auto
  let ?c = "(cells h)(as ! j \<mapsto> (list_node_of as xs j)\<lparr>node_next := Some (brk h)\<rparr>,
     brk h \<mapsto> \<lparr>node_data = x, node_next = Some (as ! k), node_prev = Some (as ! j)\<rparr>,
     as ! k \<mapsto> (list_node_of as xs k)\<lparr>node_prev := Some (brk h)\<rparr>)"
  let ?h = "h\<lparr>cells := ?c, brk := Suc (brk h)\<rparr>"
  let ?l = "l\<lparr>l_len := l_len l + 1, l_mutex := False\<rparr>"
  have pk: "node_prev (list_node_of as xs k) = Some (as ! j)"
    using kj len k by (simp add: list_node_of_def)
  have h_eq: "h1\<lparr>cells := ?c\<rparr> = ?h" by (simp add: h1_def create_node_def Let_def)
  have ups: "node_at h1 (Some (as ! k)) = Inr (list_node_of as xs k)"
    using c nb h1 by (simp add: node_at_def)
  have eq: "list_insert (h, l) (int k) x = Inr ((?h, ?l), True)"
    using m k len loc c nb pk ups
    by (simp add: list_insert_def mutex_lock_def mutex_unlock_def h1 node_upd_def node_at_def
        fun_upd_twist h_eq [symmetric])
  have "list_rep ?h ?l (take k as @ brk h # drop k as) (take k xs @ x # drop k xs)"
  proof (rule list_rep_insert [OF rep])
    fix i assume i: "i < length xs"
    show "cells ?h (as ! i) = Some \<lparr>node_data = xs ! i,
        node_next = (if Suc i = k then Some (brk h) else nth_opt as (Suc i)),
        node_prev = (if i = k then Some (brk h) else before_opt as i)\<rparr>"
      using cells_other [OF rep i, of k] cells_other [OF rep i, of j] nb k kj
        list_rep_not_brk [OF rep i] list_rep_cell [OF rep i]
      by (auto simp: list_node_of_def)
  qed (use rep k kj nb len list_rep_below_brk [OF rep, of j] list_rep_below_brk [OF rep, of k]
      in \<open>auto simp: list_rep_def\<close>)
  then show ?thesis using eq by auto
qed

lemma list_truncate_rep:
  assumes rep: "list_rep h l as xs" and m: "\<not> l_mutex l" and ne: "xs \<noteq> []"
  shows "\<exists>h' l'. list_truncate (h, l) = Inr ((h', l'), True) \<and> \<not> l_mutex l' \<and>
           list_rep h' l' (butlast as) (butlast xs)"
proof (cases "length xs = 1")
  case True
  then obtain x a where "xs = [x]" "as = [a]"
    using rep by (auto simp: list_rep_def length_Suc_conv)
  with rep m show ?thesis
    by (auto simp: list_truncate_def mutex_lock_def mutex_unlock_def list_rep_def)
next
  case False
  define n where "n = length xs - 2"
  have n: "length xs = Suc (Suc n)" "length as = Suc (Suc n)"
    using False ne rep by (auto simp: n_def list_rep_def Suc_diff_Suc numeral_2_eq_2
        neq_Nil_conv length_Suc_conv Suc_lessI)
  have tl: "l_tail l = Some (as ! Suc n)" "l_len l = int n + 2"
    using rep n by (auto simp: list_rep_def)
  have c: "cells h (as ! Suc n) = Some (list_node_of as xs (Suc n))"
    "cells h (as ! n) = Some (list_node_of as xs n)"
    using rep n by (auto simp: list_rep_cell)
  have pv: "node_prev (list_node_of as xs (Suc n)) = Some (as ! n)"
    using n by (simp add: list_node_of_def)
  let ?h = "h\<lparr>cells := (cells h)(as ! n \<mapsto> (list_node_of as xs n)\<lparr>node_next := None\<rparr>,
     as ! Suc n := None)\<rparr>"
  let ?l = "l\<lparr>l_tail := Some (as ! n), l_len := l_len l - 1, l_mutex := False\<rparr>"
  have eq: "list_truncate (h, l) = Inr ((?h, ?l), True)"
    using m tl c pv
    by (simp add: list_truncate_def mutex_lock_def mutex_unlock_def node_upd_def node_at_def)
  have nth: "butlast as ! i = as ! i" "butlast xs ! i = xs ! i" if "i < Suc n" for i
    using that n by (auto simp: nth_butlast)
  have "cells ?h (butlast as ! i) = Some (list_node_of (butlast as) (butlast xs) i)"
    if i: "i < Suc n" for i
    using i n c cells_other [OF rep, of i n] cells_other [OF rep, of i "Suc n"]
      list_rep_cell [OF rep, of i]
    by (auto simp: nth list_node_of_def nth_opt_def before_opt_def)
  then have "list_rep ?h ?l (butlast as) (butlast xs)"
    using rep n tl unfolding list_rep_def
    by (auto simp: nth distinct_butlast nth_opt_def)
  then show ?thesis using eq by auto
qed

lemma list_get_rep:
  assumes rep: "list_rep h l as xs" and m: "\<not> l_mutex l" and i: "i < length xs"
  shows "list_get (h, l) (int i) = Inr ((h, l), Some (xs ! i))"
proof -
  have "list_rep h (l\<lparr>l_mutex := True\<rparr>) as xs" using rep by simp
  then have "locate h (l\<lparr>l_mutex := True\<rparr>) (int i) = Inr (nth_opt as i)"
    using i by (rule locate_rep)
  moreover have "l\<lparr>l_mutex := False\<rparr> = l" using m by simp
  ultimately show ?thesis
    using rep m i list_rep_node_at [OF rep i]
    by (simp add: list_get_def mutex_lock_def mutex_unlock_def list_rep_length list_node_of_def
        del: nth_opt_simps)
qed

lemma list_each_from_rep:
  "list_rep h l as xs \<Longrightarrow> i \<le> length xs \<Longrightarrow> length xs - i < fuel \<Longrightarrow>
     list_each_from fuel h (nth_opt as i) fn j s = Inr (each_seq fn j (drop i xs) s)"
proof (induction fuel arbitrary: i j s)
  case 0
  then show ?case by simp
next
  case (Suc fuel)
  show ?case
  proof (cases "i < length xs")
    case True
    obtain r s1 where fn: "fn j (xs ! i) s = (r, s1)" by fastforce
    have "list_each_from fuel h (nth_opt as (Suc i)) fn (j + 1) s1 =
        Inr (each_seq fn (j + 1) (drop (Suc i) xs) s1)"
      using Suc.prems True by (intro Suc.IH) auto
    moreover have "drop i xs = xs ! i # drop (Suc i) xs"
      using True by (simp add: Cons_nth_drop_Suc)
    ultimately show ?thesis
      using True Suc.prems(1) fn list_rep_cell [OF Suc.prems(1) True]
      by (simp add: list_rep_length node_at_Some list_node_of_def)
  next
    case False
    with Suc.prems show ?thesis by (simp add: list_rep_length)
  qed
qed

lemma iter_collect_rep:
  "list_rep h l as xs \<Longrightarrow> l_curr_node l = nth_opt as i \<Longrightarrow> i \<le> length xs \<Longrightarrow>
     length xs - i < fuel \<Longrightarrow>
     iter_collect fuel (h, l) = Inr ((h, l\<lparr>l_curr_node := None\<rparr>), drop i xs)"
proof (induction fuel arbitrary: i l)
  case 0
  then show ?case by simp
next
  case (Suc fuel)
  show ?case
  proof (cases "i < length xs")
    case True
    let ?l = "l\<lparr>l_curr_node := nth_opt as (Suc i)\<rparr>"
    have "iter_collect fuel (h, ?l) = Inr ((h, ?l\<lparr>l_curr_node := None\<rparr>), drop (Suc i) xs)"
      using Suc.prems True by (intro Suc.IH) auto
    moreover have "list_iter_next (h, l) = Inr ((h, ?l), Some (xs ! i))"
      using Suc.prems(1,2) True list_rep_cell [OF Suc.prems(1) True]
      by (simp add: list_iter_next_def list_rep_length node_at_Some list_node_of_def)
    ultimately show ?thesis
      using True Suc.prems by (simp add: list_iter_has_next_def list_rep_length Cons_nth_drop_Suc)
  next
    case False
    then have "l_curr_node l = None" using Suc.prems by (simp add: list_rep_length)
    then show ?thesis using False by (simp add: list_iter_has_next_def)
  qed
qed

subsection \<open>The interface of a sequence\<close>

text \<open>
  What the parser, the torrent loader and the client rely on: a sequence that grows at its end
  and is read by index or by iteration. \<open>ok\<close> relates a state to the sequence it holds.
\<close>

locale sequence_adt =
  fixes ok :: "'s \<Rightarrow> 'a list \<Rightarrow> bool"
    and empty :: 's
    and append :: "'s \<Rightarrow> 'a \<Rightarrow> 's res"
    and get :: "'s \<Rightarrow> int \<Rightarrow> ('s \<times> 'a option) res"
    and iterate :: "'s \<Rightarrow> ('s \<times> 'a list) res"
  assumes ok_empty: "ok empty []"
    and ok_append: "ok s xs \<Longrightarrow> \<exists>s'. append s x = Inr s' \<and> ok s' (xs @ [x])"
    and ok_get: "ok s xs \<Longrightarrow>
      get s i = Inr (s, if 0 \<le> i \<and> i < int (length xs) then Some (xs ! nat i) else None)"
    and ok_iterate: "ok s xs \<Longrightarrow> \<exists>s'. iterate s = Inr (s', xs) \<and> ok s' xs"
    and ok_unique: "ok s xs \<Longrightarrow> ok s ys \<Longrightarrow> xs = ys"
begin

lemma append_all:
  "ok s xs \<Longrightarrow> \<exists>s'. rfold (\<lambda>x s. append s x) ys s = Inr s' \<and> ok s' (xs @ ys)"
proof (induction ys arbitrary: s xs)
  case Nil
  then show ?case by simp
next
  case (Cons y ys)
  obtain s1 where s1: "append s y = Inr s1" "ok s1 (xs @ [y])"
    using ok_append [OF Cons.prems] by blast
  with Cons.IH [OF s1(2)] show ?case by simp
qed

lemma build_iterate:
  "\<exists>s s'. rfold (\<lambda>x s. append s x) ys empty = Inr s \<and> ok s ys \<and> iterate s = Inr (s', ys)"
  using append_all [OF ok_empty, of ys] ok_iterate by fastforce

lemma get_after_append:
  assumes "ok s xs" and "append s x = Inr s'"
  shows "get s' (int (length xs)) = Inr (s', Some x)"
proof -
  have "ok s' (xs @ [x])" using ok_append [OF assms(1), of x] assms(2) by auto
  from ok_get [OF this, of "int (length xs)"] show ?thesis by simp
qed

lemma ok_ex: "\<exists>s. ok s ys"
  using build_iterate by blast

end

definition list_iterate :: "'a lst \<Rightarrow> ('a lst \<times> 'a list) res" where
  "list_iterate st = iter_collect (Suc (nat (l_len (snd st)))) (list_iter_start st)"

lemma list_ok_unique: "list_ok st xs \<Longrightarrow> list_ok st ys \<Longrightarrow> xs = ys"
  by (auto simp: list_ok_def dest: list_rep_unique)

lemma list_ok_new: "list_ok (empty_heap, list_new n) []"
  using list_rep_new [of n] by (auto simp: list_ok_def list_new_def)

lemma list_ok_append: "list_ok st xs \<Longrightarrow> \<exists>st'. list_append st x = Inr st' \<and> list_ok st' (xs @ [x])"
  using list_append_rep [of "fst st" "snd st" _ xs x] by (cases st) (fastforce simp: list_ok_def)

lemma list_ok_get:
  assumes "list_ok st xs"
  shows "list_get st i =
     Inr (st, if 0 \<le> i \<and> i < int (length xs) then Some (xs ! nat i) else None)"
proof -
  obtain h l as where st: "st = (h, l)" "\<not> l_mutex l" "list_rep h l as xs"
    using assms by (cases st) (auto simp: list_ok_def)
  show ?thesis
  proof (cases "0 \<le> i \<and> i < int (length xs)")
    case True
    then have "nat i < length xs" by (simp add: nat_less_iff)
    with True show ?thesis using list_get_rep [OF st(3,2), of "nat i"] st(1) by simp
  next
    case False
    then show ?thesis using st list_rep_length [OF st(3)] by (auto simp: list_get_def)
  qed
qed

lemma list_ok_iterate: "list_ok st xs \<Longrightarrow> \<exists>st'. list_iterate st = Inr (st', xs) \<and> list_ok st' xs"
proof -
  assume "list_ok st xs"
  then obtain h l as where st: "st = (h, l)" "\<not> l_mutex l" "list_rep h l as xs"
    by (cases st) (auto simp: list_ok_def)
  let ?l = "l\<lparr>l_curr_node := l_head l\<rparr>"
  have "iter_collect (Suc (length xs)) (h, ?l) = Inr ((h, ?l\<lparr>l_curr_node := None\<rparr>), drop 0 xs)"
    by (rule iter_collect_rep [of _ _ as]) (use st(3) in \<open>auto simp: list_rep_def\<close>)
  then show ?thesis
    using st list_rep_length [OF st(3)]
    by (auto simp: list_iterate_def list_iter_start_def list_ok_def)
qed

interpretation clist: sequence_adt
  list_ok "(empty_heap, list_new n)" list_append list_get list_iterate
  by unfold_locales (fact list_ok_new list_ok_append list_ok_iterate list_ok_get list_ok_unique)+

subsection \<open>Properties\<close>

text \<open>C9: Every list that the operations build up represents a sequence, and inserting at an
  index between 0 and the length puts the element there (front, back and both traversal
  directions included) and returns true; any other index returns false and changes nothing.
  No dereference of a null or freed node happens, and the mutex is free again.\<close>

theorem list_insert_refines:
  assumes "list_ok st xs"
  shows "\<exists>st'. list_insert st idx x = Inr (st', 0 \<le> idx \<and> idx \<le> int (length xs)) \<and>
    list_ok st' (if 0 \<le> idx \<and> idx \<le> int (length xs) then insert_at (nat idx) x xs else xs)"
proof -
  obtain h l as where st: "st = (h, l)" "\<not> l_mutex l" "list_rep h l as xs"
    using assms by (cases st) (auto simp: list_ok_def)
  note len = list_rep_length [OF st(3)]
  consider "idx < 0 \<or> idx > int (length xs)" | "idx = int (length xs)" | "idx = 0" "xs \<noteq> []"
    | "0 < idx" "idx < int (length xs)" by (cases "xs = []") (force, linarith)
  then show ?thesis
  proof cases
    case 1
    then show ?thesis using assms st len by (auto simp: list_insert_def)
  next
    case 2
    obtain st' where "list_append st x = Inr st'" "list_ok st' (xs @ [x])"
      using list_ok_append [OF assms] by blast
    with 2 show ?thesis using st len by (auto simp: list_insert_def insert_at_def)
  next
    case 3
    obtain h' l' where "list_prepend (h, l) x = Inr (h', l')" "list_ok (h', l') (x # xs)"
      using list_prepend_rep [OF st(3,2), of x] by (auto simp: list_ok_def)
    with 3 show ?thesis using st len by (auto simp: list_insert_def insert_at_def)
  next
    case 4
    then show ?thesis
      using list_insert_rep [OF st(3,2), of "nat idx" x] st(1)
      by (fastforce simp: list_ok_def insert_at_def)
  qed
qed

theorem list_insert_refines_witness:
  "\<exists>st. list_ok st [1, 2, 3, 4 :: int] \<and>
     (\<exists>st'. list_insert st 3 9 = Inr (st', True) \<and> list_ok st' [1, 2, 3, 9, 4])"
proof -
  obtain st where "list_ok st [1, 2, 3, 4 :: int]" using clist.ok_ex by blast
  moreover from list_insert_refines [OF this, of 3 9]
  have "\<exists>st'. list_insert st 3 9 = Inr (st', True) \<and> list_ok st' [1, 2, 3, 9, 4]"
    by (simp add: insert_at_def numeral_3_eq_3)
  ultimately show ?thesis by blast
qed

text \<open>\<open>list_truncate\<close> on a list with elements drops the last one, frees its node and
  returns true with the mutex free; on an empty list it returns false and leaves the mutex
  locked, so that the next operation that needs the lock never gets it.\<close>

lemma list_truncate_behaviour:
  assumes "list_ok st xs"
  shows "if xs = [] then
           \<exists>st'. list_truncate st = Inr (st', False) \<and> l_mutex (snd st') \<and>
             list_append st' x = Inl Blocked \<and> list_iter_start_safe st' = Inl Blocked
         else \<exists>st'. list_truncate st = Inr (st', True) \<and> list_ok st' (butlast xs)"
proof -
  obtain h l as where st: "st = (h, l)" "\<not> l_mutex l" "list_rep h l as xs"
    using assms by (cases st) (auto simp: list_ok_def)
  show ?thesis
  proof (cases "xs = []")
    case True
    then show ?thesis
      using st list_rep_length [OF st(3)]
      by (auto simp: list_truncate_def mutex_lock_def list_append_def list_iter_start_safe_def)
  next
    case False
    then show ?thesis
      using list_truncate_rep [OF st(3,2)] st(1) by (fastforce simp: list_ok_def)
  qed
qed

lemma list_truncate_behaviour_witness:
  "(\<exists>st'. list_truncate (empty_heap, list_new 8) = Inr (st', False) \<and> l_mutex (snd st') \<and>
      list_append st' (5 :: int) = Inl Blocked) \<and>
   (\<exists>st st'. list_ok st [1, 2 :: int] \<and> list_truncate st = Inr (st', True) \<and> list_ok st' [1])"
proof -
  obtain st where "list_ok st [1, 2 :: int]" using clist.ok_ex by blast
  moreover from list_truncate_behaviour [OF this]
  have "\<exists>st'. list_truncate st = Inr (st', True) \<and> list_ok st' [1]" by simp
  moreover have "\<exists>st'. list_truncate (empty_heap, list_new 8) = Inr (st', False) \<and>
      l_mutex (snd st') \<and> list_append st' (5 :: int) = Inl Blocked"
    using list_truncate_behaviour [OF list_ok_new [of 8], of "5 :: int"] by auto
  ultimately show ?thesis by blast
qed

text \<open>Appending any sequence of elements to a new list and iterating over it (start,
  then next while there is a next) hands out exactly those elements in order, and indexing
  agrees with it: \<open>list_get\<close> returns the element at every index in range and false outside.\<close>

lemma list_append_iterate_roundtrip:
  "\<exists>st st'. rfold (\<lambda>x st. list_append st x) xs (empty_heap, list_new n) = Inr st \<and>
     list_len (snd st) = int (length xs) \<and> list_iterate st = Inr (st', xs) \<and>
     list_get st i = Inr (st, if 0 \<le> i \<and> i < int (length xs) then Some (xs ! nat i) else None)"
proof -
  obtain st st' where st: "rfold (\<lambda>x st. list_append st x) xs (empty_heap, list_new n) = Inr st"
    "list_ok st xs" "list_iterate st = Inr (st', xs)"
    using clist.build_iterate by blast
  then have "list_len (snd st) = int (length xs)"
    by (auto simp: list_ok_def list_len_def dest: list_rep_length)
  with st list_ok_get [OF st(2), of i] show ?thesis by blast
qed

text \<open>\<open>list_each\<close> ends on every list and runs the callback on the elements in order,
  with their indices, up to the first one for which it returns a value other than 0.\<close>

lemma list_each_correct:
  assumes "list_ok st xs" and "length xs < fuel"
  shows "list_each fuel st fn s = Inr (each_seq fn 0 xs s)"
proof -
  obtain h l as where st: "st = (h, l)" "list_rep h l as xs"
    using assms by (cases st) (auto simp: list_ok_def)
  then have "l_head l = nth_opt as 0" by (simp add: list_rep_def)
  then show ?thesis
    using list_each_from_rep [OF st(2), of 0 fuel fn 0 s] st(1) assms(2)
    by (simp add: list_each_def)
qed

lemma list_each_correct_witness:
  "\<exists>st. list_ok st [4, 0, 6 :: int] \<and>
     list_each 4 st (\<lambda>i x s. (if x = 0 then 1 else 0, (i, x) # s)) [] = Inr [(1, 0), (0, 4)]"
proof -
  obtain st where "list_ok st [4, 0, 6 :: int]" using clist.ok_ex by blast
  moreover from list_each_correct [OF this, of 4 "\<lambda>i x s. (if x = 0 then 1 else 0, (i, x) # s)" "[]"]
  have "list_each 4 st (\<lambda>i x s. (if x = 0 then 1 else 0, (i, x) # s)) [] = Inr [(1, 0), (0, 4)]"
    by simp
  ultimately show ?thesis by blast
qed

end
