(* ===== verification/Flood_Net.thy ===== *)
theory Flood_Net
  imports Flood_Prelude
begin

section \<open>Byte order, buffers and sockets (includes/util/net.h)\<close>

text \<open>
  The protocol code writes integers into byte buffers through pointer casts, after converting
  them with \<open>htons\<close>, \<open>htonl\<close> and the macro \<open>htonll\<close> of \<open>includes/util/net.h\<close>. Memory is
  little endian: \<open>store_le\<close> and \<open>load_le\<close> are the bytes of a word in memory, and the
  conversions of the C library reverse them. A local buffer is a list of optional bytes, where
  \<open>None\<close> is a byte that was never written, so that reading it is an outcome of its own.
  The locale \<open>net_codec\<close> states what the protocols rely on: a word written in network order
  takes a fixed number of bytes, most significant byte first, and reads back as itself. It is
  interpreted for the 16-, 32- and 64-bit conversions.
  A stream socket holds the bytes sent, the bytes still to be received, what \<open>recvfrom\<close> reports
  without an address length, the indeterminate bytes of short receives, and the lengths at
  which the network cuts the answers to the coming \<open>recv\<close> calls.
\<close>

subsection \<open>Words in memory\<close>

definition store_le :: "nat \<Rightarrow> 'a::len word \<Rightarrow> bytes" where
  "store_le n w = map (\<lambda>k. ucast (drop_bit (8 * k) w)) [0..<n]"

fun load_le :: "bytes \<Rightarrow> 'a::len word" where
  "load_le [] = 0"
| "load_le (b # bs) = ucast b OR push_bit 8 (load_le bs)"

definition htons :: "16 word \<Rightarrow> 16 word" where
  "htons x = load_le (rev (store_le 2 x))"

definition htonl :: "32 word \<Rightarrow> 32 word" where
  "htonl x = load_le (rev (store_le 4 x))"

definition ntohs :: "16 word \<Rightarrow> 16 word" where
  "ntohs x = load_le (rev (store_le 2 x))"

definition ntohl :: "32 word \<Rightarrow> 32 word" where
  "ntohl x = load_le (rev (store_le 4 x))"

definition htonll :: "64 word \<Rightarrow> 64 word" where
  "htonll x = (if 1 = htonl 1 then x
     else push_bit 32 (ucast (htonl (ucast (x AND 0xFFFFFFFF)))) OR ucast (htonl (ucast (drop_bit 32 x))))"

definition ntohll :: "64 word \<Rightarrow> 64 word" where
  "ntohll x = (if 1 = ntohl 1 then x
     else push_bit 32 (ucast (ntohl (ucast (x AND 0xFFFFFFFF)))) OR ucast (ntohl (ucast (drop_bit 32 x))))"

subsection \<open>Buffers with uninitialised bytes\<close>

type_synonym obuf = "byte option list"

definition fresh :: "nat \<Rightarrow> obuf" where
  "fresh n = replicate n None"

definition oput :: "obuf \<Rightarrow> int \<Rightarrow> bytes \<Rightarrow> obuf res" where
  "oput buf i bs = wrs buf i (map Some bs)"

definition oget :: "obuf \<Rightarrow> int \<Rightarrow> nat \<Rightarrow> bytes res" where
  "oget buf i n = rbind (rds buf i n) (\<lambda>bs.
     if None \<in> set bs then Inl UninitRead else Inr (map the bs))"

text \<open>\<open>memcpy(buffer + i, src, n)\<close> from an array of a caller.\<close>

definition copy_in :: "obuf \<Rightarrow> int \<Rightarrow> bytes \<Rightarrow> nat \<Rightarrow> obuf res" where
  "copy_in buf i src n = rbind (rds src 0 n) (oput buf i)"

text \<open>\<open>*((uintN_t*) (buffer + i)) = hton(x)\<close> and \<open>ntoh(*((uintN_t*) (buffer + i)))\<close>.\<close>

definition put16 :: "obuf \<Rightarrow> int \<Rightarrow> 16 word \<Rightarrow> obuf res" where
  "put16 buf i x = oput buf i (store_le 2 (htons x))"

definition put32 :: "obuf \<Rightarrow> int \<Rightarrow> 32 word \<Rightarrow> obuf res" where
  "put32 buf i x = oput buf i (store_le 4 (htonl x))"

definition put64 :: "obuf \<Rightarrow> int \<Rightarrow> 64 word \<Rightarrow> obuf res" where
  "put64 buf i x = oput buf i (store_le 8 (htonll x))"

definition get16 :: "obuf \<Rightarrow> int \<Rightarrow> 16 word res" where
  "get16 buf i = rmap (\<lambda>bs. ntohs (load_le bs)) (oget buf i 2)"

definition get32 :: "obuf \<Rightarrow> int \<Rightarrow> 32 word res" where
  "get32 buf i = rmap (\<lambda>bs. ntohl (load_le bs)) (oget buf i 4)"

definition get64 :: "obuf \<Rightarrow> int \<Rightarrow> 64 word res" where
  "get64 buf i = rmap (\<lambda>bs. ntohll (load_le bs)) (oget buf i 8)"

lemmas put_defs = put16_def put32_def put64_def
lemmas get_defs = get16_def get32_def get64_def

subsection \<open>Sockets\<close>

text \<open>\<open>recvfrom\<close> on a datagram socket: nothing (an error, -1), or the first \<open>len\<close> bytes of
  the next datagram; what does not fit is discarded.\<close>

definition recv_dgram :: "bytes option \<Rightarrow> nat \<Rightarrow> int \<times> bytes" where
  "recv_dgram d len = (case d of None \<Rightarrow> (- 1, [])
     | Some bs \<Rightarrow> (int (length (take len bs)), take len bs))"

record sock =
  tx :: bytes
  rx :: bytes
  cuts :: "nat list"
  rf_fault :: bool
  stale :: bytes

text \<open>\<open>send\<close> on a stream socket, taken to accept all bytes. \<open>recv\<close> returns what has arrived, at most
  \<open>len\<close> bytes, possibly fewer, and nothing at the end of the stream; a cut of 0 is a call that
  fails, with -1, as after the receive timeout. The second component is its result. \<open>recvfrom\<close>
  with an address but \<open>NULL\<close> for the length of the address is not covered by POSIX: when
  \<open>rf_fault\<close> is set it reports an error after it has taken the bytes (as Linux does), otherwise
  it is \<open>recv\<close>.\<close>

definition sock_send :: "bytes \<Rightarrow> sock \<Rightarrow> sock \<times> int" where
  "sock_send bs s = (s\<lparr>tx := tx s @ bs\<rparr>, int (length bs))"

definition sock_recv :: "nat \<Rightarrow> sock \<Rightarrow> bytes \<times> int \<times> sock" where
  "sock_recv len s = (case cuts s of
       [] \<Rightarrow> (take len (rx s), int (length (take len (rx s))), s\<lparr>rx := drop len (rx s)\<rparr>)
     | c # cs \<Rightarrow>
         if c = 0 then ([], - 1, s\<lparr>cuts := cs\<rparr>)
         else (take (min len c) (rx s), int (length (take (min len c) (rx s))),
               s\<lparr>rx := drop (min len c) (rx s), cuts := cs\<rparr>))"

definition recvfrom_result :: "sock \<Rightarrow> int \<Rightarrow> int" where
  "recvfrom_result s n = (if rf_fault s \<and> 0 \<le> n then - 1 else n)"

text \<open>\<open>recv\<close> into a local object or into memory from \<open>malloc\<close>. The bytes that did not arrive keep
  their indeterminate value: an arbitrary one, the next bytes of \<open>stale\<close>.\<close>

definition indet :: "nat \<Rightarrow> sock \<Rightarrow> bytes" where
  "indet n s = take n (stale s) @ replicate (n - length (stale s)) 0"

definition recv_field :: "nat \<Rightarrow> sock \<Rightarrow> bytes \<times> int \<times> sock" where
  "recv_field n s = (case sock_recv n s of (bs, r, s) \<Rightarrow>
     let missing = n - length bs in
     (bs @ indet missing s, r, s\<lparr>stale := drop missing (stale s)\<rparr>))"

lemma length_indet [simp]: "length (indet n s) = n"
  by (simp add: indet_def)

lemma sock_recv_le: "sock_recv n s = (bs, r, s') \<Longrightarrow> length bs \<le> n"
  by (auto simp: sock_recv_def split: list.splits if_splits)

lemma length_recv_field: "recv_field n s = (bs, r, s') \<Longrightarrow> length bs = n"
  using sock_recv_le [of n s] by (auto simp: recv_field_def Let_def split: prod.splits)

lemma sock_recv_ok:
  "cuts s = [] \<Longrightarrow> rx s = bs @ rest \<Longrightarrow> length bs = n \<Longrightarrow> sock_recv n s = (bs, int n, s\<lparr>rx := rest\<rparr>)"
  by (auto simp: sock_recv_def)

lemma recv_field_ok:
  "cuts s = [] \<Longrightarrow> rx s = bs @ rest \<Longrightarrow> length bs = n \<Longrightarrow> recv_field n s = (bs, int n, s\<lparr>rx := rest\<rparr>)"
  by (auto simp: recv_field_def sock_recv_ok indet_def)

text \<open>A short \<open>recv\<close> inserts indeterminate bytes into what is read.\<close>

lemma recv_field_short:
  assumes "cuts s = c # cs" "c \<le> n" "c \<le> length (rx s)"
  shows "\<exists>r. recv_field n s = (take c (rx s) @ indet (n - c) s, r,
    s\<lparr>rx := drop c (rx s), cuts := cs, stale := drop (n - c) (stale s)\<rparr>)"
  using assms by (auto simp: recv_field_def sock_recv_def indet_def Let_def min_def)

subsection \<open>Laws of stored words\<close>

lemma length_store_le [simp]: "length (store_le n w) = n"
  by (simp add: store_le_def)

lemma bit_load_le:
  "bit (load_le bs :: 'a::len word) i \<longleftrightarrow>
     i < LENGTH('a) \<and> i div 8 < length bs \<and> bit (bs ! (i div 8)) (i mod 8)"
proof (induction bs arbitrary: i)
  case Nil
  then show ?case by simp
next
  case (Cons b bs)
  show ?case
  proof (cases "i < 8")
    case True
    then show ?thesis by (auto simp: bit_simps)
  next
    case False
    then obtain j where "i = j + 8" by (metis le_add_diff_inverse2 not_less)
    moreover have "(j + 8) div 8 = Suc (j div 8)" by simp
    ultimately show ?thesis using Cons.IH [of j] bit_imp_le_length [of b "j + 8"]
      by (auto simp: bit_simps simp del: div_add_self2 div_add_self1)
  qed
qed

lemma nth_store_le: "k < n \<Longrightarrow> store_le n w ! k = ucast (drop_bit (8 * k) w)"
  by (simp add: store_le_def)

lemma load_store_le:
  assumes "LENGTH('a) \<le> 8 * n"
  shows "load_le (store_le n w) = (w :: 'a::len word)"
proof (rule bit_word_eqI)
  fix i assume i: "i < LENGTH('a)"
  then have "i div 8 < n" using assms by auto
  then show "bit (load_le (store_le n w) :: 'a word) i = bit w i"
    using i by (simp add: bit_load_le nth_store_le bit_simps)
qed

lemma store_load_le:
  assumes "8 * length bs \<le> LENGTH('a)" "n = length bs"
  shows "store_le n (load_le bs :: 'a::len word) = bs"
proof (rule nth_equalityI)
  fix k assume k: "k < length (store_le n (load_le bs :: 'a word))"
  show "store_le n (load_le bs :: 'a word) ! k = bs ! k"
  proof (rule bit_word_eqI)
    fix j assume j: "j < LENGTH(8)"
    have "8 * k + j < LENGTH('a)" using k j assms by auto
    then show "bit (store_le n (load_le bs :: 'a word) ! k) j = bit (bs ! k) j"
      using k j assms by (simp add: nth_store_le bit_simps bit_load_le)
  qed
qed (simp add: assms)

lemma load_le_append:
  "load_le (as @ bs) = (load_le as :: 'a::len word) OR push_bit (8 * length as) (load_le bs)"
  by (induction as) (simp_all add: push_bit_or or.assoc ac_simps)

lemma ucast_load_le:
  assumes "8 * length bs \<le> LENGTH('b)"
  shows "ucast (load_le bs :: 'b::len word) = (load_le bs :: 'a::len word)"
proof (rule bit_word_eqI)
  fix i assume i: "i < LENGTH('a)"
  have "i < LENGTH('b)" if "i div 8 < length bs" using that assms by auto
  then show "bit (ucast (load_le bs :: 'b word) :: 'a word) i = bit (load_le bs :: 'a word) i"
    using i by (auto simp: bit_simps bit_load_le)
qed

lemma store_le_split:
  "store_le 8 (x :: 64 word) = store_le 4 (ucast x :: 32 word) @ store_le 4 (ucast (drop_bit 32 x) :: 32 word)"
  by (rule nth_equalityI)
    (auto simp: nth_store_le nth_append intro!: bit_word_eqI simp: bit_simps algebra_simps)

subsection \<open>Conversions reverse the bytes\<close>

lemma hton_ntoh_same: "ntohs = htons" "ntohl = htonl" "ntohll = htonll"
proof -
  show *: "ntohs = htons" "ntohl = htonl" by (simp_all add: fun_eq_iff ntohs_def htons_def ntohl_def htonl_def)
  show "ntohll = htonll" by (simp add: fun_eq_iff ntohll_def htonll_def *)
qed

lemma store_htons: "store_le 2 (htons x) = rev (store_le 2 x)"
  unfolding htons_def by (rule store_load_le) simp_all

lemma store_htonl: "store_le 4 (htonl x) = rev (store_le 4 x)"
  unfolding htonl_def by (rule store_load_le) simp_all

lemma htonl_one: "htonl 1 = 0x1000000"
  by (simp add: htonl_def store_le_def upt_rec)

lemma htonll_load: "htonll x = load_le (rev (store_le 8 x))"
proof -
  let ?lo = "ucast x :: 32 word" and ?hi = "ucast (drop_bit 32 x) :: 32 word"
  have mask: "(0xFFFFFFFF :: 64 word) = mask 32" by (simp add: mask_eq_exp_minus_1)
  have "ucast (x AND 0xFFFFFFFF) = ?lo"
    unfolding mask by (rule bit_word_eqI) (auto simp: bit_simps)
  then have "htonll x = push_bit 32 (ucast (htonl ?lo)) OR ucast (htonl ?hi)"
    by (simp add: htonll_def htonl_one)
  also have "\<dots> = load_le (rev (store_le 4 ?hi)) OR push_bit 32 (load_le (rev (store_le 4 ?lo)))"
    by (simp add: htonl_def ucast_load_le or.commute)
  also have "\<dots> = load_le (rev (store_le 8 x))"
    by (simp add: store_le_split load_le_append)
  finally show ?thesis .
qed

lemma store_htonll: "store_le 8 (htonll x) = rev (store_le 8 x)"
  unfolding htonll_load by (rule store_load_le) simp_all

lemma hton_hton: "htons (htons x) = x" "htonl (htonl y) = y" "htonll (htonll z) = z"
proof -
  show "htons (htons x) = x" unfolding htons_def [of "htons x"] store_htons by (simp add: load_store_le)
  show "htonl (htonl y) = y" unfolding htonl_def [of "htonl y"] store_htonl by (simp add: load_store_le)
  show "htonll (htonll z) = z" unfolding htonll_load [of "htonll z"] store_htonll by (simp add: load_store_le)
qed

text \<open>The bytes of a word, least significant first, are its digits to base 256.\<close>

lemma horner_store_le:
  assumes "LENGTH('a) \<le> 8 * n"
  shows "horner_sum unat 256 (store_le n w) = unat (w :: 'a::len word)"
proof -
  have step: "horner_sum unat 256 (map (\<lambda>k. ucast (drop_bit (8 * k) w) :: byte) [m..<m + j]) =
      take_bit (8 * j) (drop_bit (8 * m) (unat w))" for m j
  proof (induction j arbitrary: m)
    case 0
    then show ?case by simp
  next
    case (Suc j)
    let ?d = "drop_bit (8 * m) (unat w)"
    have "[m..<m + Suc j] = m # [Suc m..<Suc m + j]" by (subst upt_conv_Cons) simp_all
    moreover have "unat (ucast (drop_bit (8 * m) w) :: byte) = take_bit 8 ?d"
      by (simp only: unsigned_ucast_eq unat_drop_bit_eq) simp
    moreover have "drop_bit (8 * Suc m) (unat w) = drop_bit 8 ?d" by (simp add: drop_bit_drop_bit)
    moreover have "take_bit 8 ?d + 256 * take_bit (8 * j) (drop_bit 8 ?d) = take_bit (8 * Suc j) ?d"
      using mod_mult2_eq [of ?d 256 "2 ^ (8 * j)"] by (simp add: take_bit_eq_mod drop_bit_eq_div power_add)
    ultimately show ?case using Suc [of "Suc m"] by simp
  qed
  have "unat w < 2 ^ (8 * n)"
    by (rule order_less_le_trans [OF unsigned_less]) (use assms in simp)
  then show ?thesis using step [of 0 n] by (simp add: store_le_def take_bit_nat_eq_self)
qed

subsection \<open>The interface of a network integer\<close>

text \<open>\<open>enc\<close> is how an integer of \<open>n\<close> bytes is written to a buffer, \<open>dec\<close> how it is read;
  \<open>val\<close> is the number its bytes denote.\<close>

locale net_codec =
  fixes n :: nat
    and enc :: "'w \<Rightarrow> bytes"
    and dec :: "bytes \<Rightarrow> 'w"
    and val :: "'w \<Rightarrow> nat"
  assumes enc_length: "length (enc x) = n"
    and dec_enc: "dec (enc x) = x"
    and enc_dec: "length bs = n \<Longrightarrow> enc (dec bs) = bs"
    and enc_val: "horner_sum unat 256 (rev (enc x)) = val x"
begin

lemma oput_enc:
  assumes "length mid = n"
  shows "oput (pre @ mid @ post) (int (length pre)) (enc x) = Inr (pre @ map Some (enc x) @ post)"
  using assms by (simp add: oput_def enc_length)

lemma oget_enc:
  "i = int (length pre) \<Longrightarrow>
     rmap dec (oget (map Some pre @ map Some (enc x) @ post) i n) = Inr x"
  using rds_mid [of "map Some pre" "map Some (enc x)" post]
  by (simp add: oget_def enc_length dec_enc comp_def image_iff)

lemma enc_inject: "enc x = enc y \<longleftrightarrow> x = y"
  by (metis dec_enc)

end

interpretation net16: net_codec 2 "\<lambda>x. store_le 2 (htons x)" "\<lambda>bs. ntohs (load_le bs)" unat
proof unfold_locales
  show "length (store_le 2 (htons x)) = 2" for x by simp
  show "ntohs (load_le (store_le 2 (htons x))) = x" for x
    by (subst load_store_le) (simp_all add: hton_ntoh_same hton_hton)
  show "store_le 2 (htons (ntohs (load_le bs))) = bs" if "length bs = 2" for bs
    using that by (simp add: hton_ntoh_same store_htons store_load_le)
  show "horner_sum unat 256 (rev (store_le 2 (htons x))) = unat x" for x
    by (simp add: store_htons horner_store_le)
qed

interpretation net32: net_codec 4 "\<lambda>x. store_le 4 (htonl x)" "\<lambda>bs. ntohl (load_le bs)" unat
proof unfold_locales
  show "length (store_le 4 (htonl x)) = 4" for x by simp
  show "ntohl (load_le (store_le 4 (htonl x))) = x" for x
    by (subst load_store_le) (simp_all add: hton_ntoh_same hton_hton)
  show "store_le 4 (htonl (ntohl (load_le bs))) = bs" if "length bs = 4" for bs
    using that by (simp add: hton_ntoh_same store_htonl store_load_le)
  show "horner_sum unat 256 (rev (store_le 4 (htonl x))) = unat x" for x
    by (simp add: store_htonl horner_store_le)
qed

interpretation net64: net_codec 8 "\<lambda>x. store_le 8 (htonll x)" "\<lambda>bs. ntohll (load_le bs)" unat
proof unfold_locales
  show "length (store_le 8 (htonll x)) = 8" for x by simp
  show "ntohll (load_le (store_le 8 (htonll x))) = x" for x
    by (subst load_store_le) (simp_all add: hton_ntoh_same hton_hton)
  show "store_le 8 (htonll (ntohll (load_le bs))) = bs" if "length bs = 8" for bs
    using that by (simp add: hton_ntoh_same store_htonll store_load_le)
  show "horner_sum unat 256 (rev (store_le 8 (htonll x))) = unat x" for x
    by (simp add: store_htonll horner_store_le)
qed

text \<open>The network bytes of an integer.\<close>

abbreviation be16 :: "16 word \<Rightarrow> bytes" where "be16 x \<equiv> store_le 2 (htons x)"
abbreviation be32 :: "32 word \<Rightarrow> bytes" where "be32 x \<equiv> store_le 4 (htonl x)"
abbreviation be64 :: "64 word \<Rightarrow> bytes" where "be64 x \<equiv> store_le 8 (htonll x)"

subsection \<open>Filling and reading buffers\<close>

text \<open>Writing at the end of the part already filled.\<close>

lemma oput_first:
  "length bs \<le> length rest \<Longrightarrow> oput rest 0 bs = Inr (map Some bs @ drop (length bs) rest)"
  by (simp add: oput_def wrs_def)

lemma oput_skip:
  "0 < i \<Longrightarrow> int (length pre) \<le> i \<Longrightarrow>
     oput (map Some pre @ rest) i bs = rmap ((@) (map Some pre)) (oput rest (i - int (length pre)) bs)"
  by (auto simp: oput_def wrs_def nat_diff_distrib')

lemma oget_skip:
  "0 < i \<Longrightarrow> int (length pre) \<le> i \<Longrightarrow>
     oget (map Some pre @ rest) i n = oget rest (i - int (length pre)) n"
  by (auto simp: oget_def rds_def nat_diff_distrib')

lemma oget_shift:
  "0 \<le> j \<Longrightarrow> oget (map Some pre @ rest) (int (length pre) + j) n = oget rest j n"
  by (auto simp: oget_def rds_def nat_add_distrib)

lemma oget_first: "length bs = n \<Longrightarrow> oget (map Some bs @ rest) 0 n = Inr bs"
  by (auto simp: oget_def rds_def comp_def)

lemma oget_last: "length bs = n \<Longrightarrow> oget (map Some bs) 0 n = Inr bs"
  using oget_first [of bs n "[]"] by simp

lemma oget_more:
  "length bs < n \<Longrightarrow> oget (map Some bs @ rest) 0 n = rmap ((@) bs) (oget rest 0 (n - length bs))"
  by (auto simp: oget_def rds_def comp_def image_iff)

lemmas obuf_simps = oput_first oput_skip oget_skip oget_first oget_last oget_more

lemma obuf_Cons:
  "0 < i \<Longrightarrow> oput (Some b # rest) i bs = rmap ((#) (Some b)) (oput rest (i - 1) bs)"
  "0 < i \<Longrightarrow> oget (Some b # rest) i n = oget rest (i - 1) n"
  "0 < n \<Longrightarrow> oget (Some b # rest) 0 n = rmap ((#) b) (oget rest 0 (n - 1))"
proof -
  have app: "(@) [x] = (#) x" for x :: 'b by (rule ext) simp
  show "0 < i \<Longrightarrow> oput (Some b # rest) i bs = rmap ((#) (Some b)) (oput rest (i - 1) bs)"
    using oput_skip [of i "[b]" rest bs] by (simp add: app)
  show "0 < i \<Longrightarrow> oget (Some b # rest) i n = oget rest (i - 1) n"
    using oget_skip [of i "[b]" rest n] by simp
  show "0 < n \<Longrightarrow> oget (Some b # rest) 0 n = rmap ((#) b) (oget rest 0 (n - 1))"
    by (cases n) (auto simp: oget_def rds_def)
qed

subsection \<open>Properties\<close>

text \<open>The macros \<open>htonll\<close> and \<open>ntohll\<close> reverse the eight bytes of a 64-bit integer on
  the little-endian platform, undo each other, and put the most significant byte first: read to
  base 256 from the left, the bytes stored are the number.\<close>

lemma htonll_byte_reversal:
  "store_le 8 (htonll x) = rev (store_le 8 x) \<and> ntohll (htonll x) = x \<and>
   horner_sum unat 256 (rev (store_le 8 (htonll x))) = unat x"
  using net64.enc_val [of x] by (simp add: store_htonll hton_ntoh_same hton_hton)

end
