(* ===== verification/Flood_Peer.thy ===== *)
theory Flood_Peer
  imports Flood_Net
begin

section \<open>Peers and their bitfields (src/peer.c)\<close>

text \<open>
  \<open>peer_t\<close> is the structure of \<open>includes/peer.h\<close>. The fields that \<open>client_find_peer\<close> leaves
  unset when it allocates a peer (\<open>status\<close>, \<open>id\<close>, \<open>origin_tracker\<close>) are optional, where
  \<open>None\<close> is an indeterminate value. \<open>bitfield\<close> is \<open>None\<close> for the null pointer, otherwise
  the allocated bytes, which may be uninitialised. \<open>bitfield_length\<close> is an \<open>int\<close> kept as its
  32 bits, because it is assigned from and compared with unsigned values.
  \<open>has_piece\<close> reads a bitfield as the protocol does (piece 0 is the highest bit of the first
  byte); the results say that a \<open>have\<close> update sets exactly the bit of its piece.
\<close>

subsection \<open>Data and operations\<close>

datatype peer_status = PEER_STATUS_NEW | PEER_STATUS_IN_USE | PEER_STATUS_BAD

record peer_t =
  peer_ip_address :: "32 word"
  peer_port :: int
  peer_status :: "peer_status option"
  peer_id :: "bytes option"
  peer_bitfield_length :: "32 word"
  peer_bitfield :: "obuf option"
  peer_choking :: bool
  peer_interested :: bool
  peer_origin_tracker :: "bytes option"

definition peer_update_bitfield :: "peer_t \<Rightarrow> obuf \<Rightarrow> 32 word \<Rightarrow> peer_t res" where
  "peer_update_bitfield peer new_bitfield new_len =
     rbind (rds new_bitfield 0 (unat new_len)) (\<lambda>bs.
     Inr (peer\<lparr>peer_bitfield := Some bs, peer_bitfield_length := new_len\<rparr>))"

definition peer_update_bitfield_index :: "peer_t \<Rightarrow> 32 word \<Rightarrow> bool \<Rightarrow> peer_t res" where
  "peer_update_bitfield_index peer idx newval =
     (let array_idx = idx div 8 in
      if array_idx \<ge> peer_bitfield_length peer then Inr peer
      else
        let byte_pos = 7 - (idx AND 7);
            mask = (push_bit (unat byte_pos) 1 :: byte)
        in case peer_bitfield peer of
          None \<Rightarrow> Inl NullDeref
        | Some bf \<Rightarrow>
            rbind (oget bf (uint array_idx) 1) (\<lambda>old.
            let new = (if newval then hd old OR mask else hd old AND NOT mask) in
            rbind (oput bf (uint array_idx) [new]) (\<lambda>bf.
            Inr (peer\<lparr>peer_bitfield := Some bf\<rparr>))))"

subsection \<open>Meaning and invariant\<close>

text \<open>The pieces a bitfield announces.\<close>

definition has_piece :: "bytes \<Rightarrow> nat \<Rightarrow> bool" where
  "has_piece bf i \<longleftrightarrow> i div 8 < length bf \<and> bit (bf ! (i div 8)) (7 - i mod 8)"

text \<open>Either no bitfield was received, or the length is that of the allocated bytes.\<close>

definition peer_ok :: "peer_t \<Rightarrow> bool" where
  "peer_ok peer \<longleftrightarrow> (case peer_bitfield peer of
      None \<Rightarrow> peer_bitfield_length peer = 0
    | Some bf \<Rightarrow> length bf = unat (peer_bitfield_length peer))"

text \<open>The bitfield is consistent and all its bytes were written.\<close>

definition peer_sound :: "peer_t \<Rightarrow> bool" where
  "peer_sound peer \<longleftrightarrow> peer_ok peer \<and> (\<forall>bf. peer_bitfield peer = Some bf \<longrightarrow> None \<notin> set bf)"

lemma peer_update_bitfield_ok:
  assumes "length bf = unat len"
  shows "\<exists>peer'. peer_update_bitfield peer bf len = Inr peer' \<and> peer_ok peer' \<and> peer_bitfield peer' = Some bf \<and>
    peer' = peer\<lparr>peer_bitfield := Some bf, peer_bitfield_length := len\<rparr>"
  using assms by (simp add: peer_update_bitfield_def peer_ok_def rds_def)

lemma bit_mask_update:
  fixes b :: byte
  assumes "k < 8" "j < 8"
  shows "bit (b OR push_bit k 1) j \<longleftrightarrow> j = k \<or> bit b j"
    and "bit (b AND NOT (push_bit k 1)) j \<longleftrightarrow> j \<noteq> k \<and> bit b j"
  using assms by (auto simp: bit_simps)

lemma byte_pos: "unat (7 - ((idx :: 32 word) AND 7)) = 7 - unat idx mod 8"
proof -
  have "idx AND 7 = idx mod 8"
    using take_bit_eq_mask [of 3 idx] take_bit_eq_mod [of 3 idx] by (simp add: mask_eq_exp_minus_1)
  then have m: "unat (idx AND 7) = unat idx mod 8" by (simp add: unat_mod)
  then have "idx AND 7 \<le> 7" by (simp add: word_le_nat_alt)
  then show ?thesis using m by (simp add: unat_sub)
qed

lemma piece_pos:
  fixes i n :: nat
  assumes "i div 8 = n div 8"
  shows "7 - i mod 8 = 7 - n mod 8 \<longleftrightarrow> i = n"
proof -
  have "i mod 8 < 8" "n mod 8 < 8" by simp_all
  then have "7 - i mod 8 = 7 - n mod 8 \<longleftrightarrow> i mod 8 = n mod 8" by linarith
  also have "\<dots> \<longleftrightarrow> i = n" using assms by (metis div_mult_mod_eq)
  finally show ?thesis .
qed

text \<open>The update on a fully initialised bitfield.\<close>

lemma update_index_bytes:
  assumes "peer_bitfield peer = Some (map Some bf)" "peer_ok peer" "unat idx div 8 < length bf"
  shows "peer_update_bitfield_index peer idx newval =
    (let k = unat idx div 8; m = push_bit (7 - unat idx mod 8) 1
     in Inr (peer\<lparr>peer_bitfield := Some (map Some
          (bf[k := if newval then bf ! k OR m else bf ! k AND NOT m]))\<rparr>))"
proof -
  let ?k = "unat idx div 8"
  have k: "unat (idx div 8) = ?k" by (simp add: unat_div)
  then have u: "uint (idx div 8) = int ?k" by (simp add: uint_nat)
  have "\<not> idx div 8 \<ge> peer_bitfield_length peer"
    using assms k by (simp add: peer_ok_def word_le_nat_alt)
  moreover have "oget (map Some bf) (int ?k) 1 = Inr [bf ! ?k]"
    using assms(3) by (simp add: oget_def rds_def take_Suc_conv_app_nth hd_drop_conv_nth take_Suc drop_map)
  moreover have "oput (map Some bf) (int ?k) [b] = Inr (map Some (bf[?k := b]))" for b
    using assms(3) by (simp add: oput_def wrs_def upd_conv_take_nth_drop map_update take_map drop_map)
  ultimately show ?thesis
    using assms(1) by (simp add: peer_update_bitfield_index_def Let_def u byte_pos)
qed

text \<open>Both updates keep a sound peer sound and never fail.\<close>

lemma oget_written: "None \<notin> set bf \<Longrightarrow> 0 \<le> i \<Longrightarrow> i + int n \<le> int (length bf) \<Longrightarrow> \<exists>bs. oget bf i n = Inr bs"
  by (auto simp: oget_def rds_def dest!: in_set_takeD in_set_dropD)

lemma set_wrs: "wrs bf i xs = Inr bf' \<Longrightarrow> set bf' \<subseteq> set bf \<union> set xs \<and> length bf' = length bf"
  by (auto simp: wrs_def dest!: in_set_takeD in_set_dropD split: if_splits)

lemma update_index_sound:
  assumes "peer_sound peer"
  shows "\<exists>bf. peer_update_bitfield_index peer idx v = Inr (peer\<lparr>peer_bitfield := bf\<rparr>) \<and>
    peer_sound (peer\<lparr>peer_bitfield := bf\<rparr>)"
proof (cases "idx div 8 \<ge> peer_bitfield_length peer")
  case True
  then have "peer_update_bitfield_index peer idx v = Inr (peer\<lparr>peer_bitfield := peer_bitfield peer\<rparr>)"
    by (simp add: peer_update_bitfield_index_def)
  then show ?thesis using assms by (intro exI [of _ "peer_bitfield peer"]) simp
next
  case False
  then have lt: "unat (idx div 8) < unat (peer_bitfield_length peer)" by (simp add: word_le_nat_alt not_le)
  then obtain bf where bf: "peer_bitfield peer = Some bf" "length bf = unat (peer_bitfield_length peer)" "None \<notin> set bf"
    using assms by (auto simp: peer_sound_def peer_ok_def split: option.splits)
  have "int (unat (idx div 8)) < int (length bf)" using lt bf(2) by (simp only: of_nat_less_iff)
  then have in_range: "uint (idx div 8) + 1 \<le> int (length bf)" by (simp only: of_nat_unat)
  then obtain old where old: "oget bf (uint (idx div 8)) 1 = Inr old"
    using oget_written [OF bf(3), of "uint (idx div 8)" 1] by auto
  define mask :: byte where "mask = push_bit (unat (7 - (idx AND 7))) 1"
  define x where "x = (if v then hd old OR mask else hd old AND NOT mask)"
  obtain bf' where bf': "oput bf (uint (idx div 8)) [x] = Inr bf'"
    using in_range lt bf(2) by (auto simp: oput_def wrs_def)
  then have "set bf' \<subseteq> set bf \<union> {Some x}" "length bf' = length bf"
    using set_wrs [of bf _ "[Some x]" bf'] by (auto simp: oput_def)
  then have sound: "peer_sound (peer\<lparr>peer_bitfield := Some bf'\<rparr>)"
    using bf(2,3) by (auto simp: peer_sound_def peer_ok_def)
  have "peer_update_bitfield_index peer idx v = Inr (peer\<lparr>peer_bitfield := Some bf'\<rparr>)"
    using False bf(1) old bf'(1) unfolding x_def mask_def
    by (simp add: peer_update_bitfield_index_def Let_def del: push_bit_of_1)
  with sound show ?thesis by blast
qed

subsection \<open>Properties\<close>

text \<open>C27: A \<open>have\<close> update of piece \<open>idx\<close> inside the bitfield sets the announcement of piece
  \<open>idx\<close> to the new value and changes no other piece; an index past the bitfield, or no
  bitfield at all, leaves the peer as it was. The bitfield keeps its length and the invariant
  of its length field.\<close>

theorem bitfield_update_exact:
  assumes "peer_ok peer"
  shows "(\<forall>bf. peer_bitfield peer = Some (map Some bf) \<and> unat idx div 8 < length bf \<longrightarrow>
      (\<exists>peer' bf'. peer_update_bitfield_index peer idx newval = Inr peer' \<and> peer_ok peer' \<and>
         peer_bitfield peer' = Some (map Some bf') \<and> length bf' = length bf \<and>
         (\<forall>i < 8 * length bf. has_piece bf' i = (if i = unat idx then newval else has_piece bf i)))) \<and>
    (peer_bitfield_length peer \<le> idx div 8 \<longrightarrow> peer_update_bitfield_index peer idx newval = Inr peer)"
proof (intro conjI allI impI)
  fix bf assume bf: "peer_bitfield peer = Some (map Some bf) \<and> unat idx div 8 < length bf"
  let ?k = "unat idx div 8" and ?m = "push_bit (7 - unat idx mod 8) 1 :: byte"
  let ?bf = "bf[?k := if newval then bf ! ?k OR ?m else bf ! ?k AND NOT ?m]"
  have "has_piece ?bf i = (if i = unat idx then newval else has_piece bf i)" if "i < 8 * length bf" for i
  proof (cases "i div 8 = ?k")
    case True
    have "7 - i mod 8 = 7 - unat idx mod 8 \<longleftrightarrow> i = unat idx"
      using True by (rule piece_pos)
    moreover have "7 - n < (8 :: nat)" for n by arith
    ultimately show ?thesis
      using bf True bit_mask_update [of "7 - unat idx mod 8" "7 - i mod 8" "bf ! ?k"] by (auto simp: has_piece_def)
  next
    case False
    then show ?thesis using bf by (auto simp: has_piece_def)
  qed
  then show "\<exists>peer' bf'. peer_update_bitfield_index peer idx newval = Inr peer' \<and> peer_ok peer' \<and>
      peer_bitfield peer' = Some (map Some bf') \<and> length bf' = length bf \<and>
      (\<forall>i < 8 * length bf. has_piece bf' i = (if i = unat idx then newval else has_piece bf i))"
    using update_index_bytes [of peer bf idx newval] assms bf
    by (intro exI [of _ "peer\<lparr>peer_bitfield := Some (map Some ?bf)\<rparr>"] exI [of _ ?bf])
      (auto simp: Let_def peer_ok_def simp del: push_bit_of_1)
next
  assume "peer_bitfield_length peer \<le> idx div 8"
  then show "peer_update_bitfield_index peer idx newval = Inr peer"
    by (simp add: peer_update_bitfield_index_def)
qed

theorem bitfield_update_exact_witness:
  "\<exists>bf'. rmap peer_bitfield (peer_update_bitfield_index
      \<lparr>peer_ip_address = 0, peer_port = 0, peer_status = None, peer_id = None, peer_bitfield_length = 2,
       peer_bitfield = Some (map Some [0, 0]), peer_choking = False, peer_interested = False,
       peer_origin_tracker = None\<rparr> 9 True) = Inr (Some (map Some bf')) \<and> has_piece bf' 9 \<and> \<not> has_piece bf' 8"
proof -
  let ?p = "\<lparr>peer_ip_address = 0, peer_port = 0, peer_status = None, peer_id = None, peer_bitfield_length = 2,
       peer_bitfield = Some (map Some [0, 0]), peer_choking = False, peer_interested = False,
       peer_origin_tracker = None\<rparr>"
  have ok: "peer_ok ?p" by (simp add: peer_ok_def)
  obtain peer' bf' where "peer_update_bitfield_index ?p 9 True = Inr peer'"
      "peer_bitfield peer' = Some (map Some bf')"
      and p: "\<forall>i < 8 * length ([0, 0] :: bytes). has_piece bf' i = (if i = unat (9 :: 32 word) then True else has_piece [0, 0] i)"
    using bitfield_update_exact [OF ok, of 9 True, THEN conjunct1, rule_format, of "[0, 0]"] by auto
  moreover have "\<not> has_piece [0, 0] 8" by (simp add: has_piece_def)
  ultimately show ?thesis using p [rule_format, of 9] p [rule_format, of 8] by auto
qed

end
