(* ===== verification/Flood_Peer_Protocol.thy ===== *)
theory Flood_Peer_Protocol
  imports Flood_Net
begin

section \<open>The peer wire protocol (src/peer_protocol.c)\<close>

text \<open>
  Handshakes and messages over a stream socket. \<open>peer_message\<close> is the tagged union of
  \<open>includes/peer_protocol.h\<close>; the buffers of a bitfield or a piece may hold bytes that were
  never written. A receive function reads its fields with one \<open>recv\<close> call each and does not
  look at the number of bytes a call returned: the missing bytes of a field that arrived only in
  part have indeterminate values.
  The locale \<open>framed_codec\<close> is the contract between a sender and a receiver of one message;
  from it follows that a stream of messages is received as it was sent. It is interpreted on
  \<open>send_peer_message\<close> and \<open>receive_peer_message\<close> for all messages but the keep-alive, for
  which the receiver reads one byte too many.
\<close>

subsection \<open>Handshakes\<close>

definition PEER_PROTOCOL_LEN :: "8 word" where "PEER_PROTOCOL_LEN = 19"
definition PEER_PROTOCOL_STR :: bytes where "PEER_PROTOCOL_STR = lit ''BitTorrent protocol''"

record peer_handshake =
  hs_pstrlen :: "8 word"
  hs_pstr :: bytes
  hs_reserved :: "64 word"
  hs_info_hash :: bytes
  hs_peer_id :: bytes

definition send_peer_handshake :: "peer_handshake \<Rightarrow> sock \<Rightarrow> (sock \<times> int) res" where
  "send_peer_handshake req s =
     (let pstrlen = unat (hs_pstrlen req); buflen = 49 + pstrlen in
     rbind (oput (fresh buflen) 0 [hs_pstrlen req]) (\<lambda>buffer.
     rbind (copy_in buffer 1 (hs_pstr req) pstrlen) (\<lambda>buffer.
     rbind (put64 buffer (1 + int pstrlen) (hs_reserved req)) (\<lambda>buffer.
     rbind (copy_in buffer (9 + int pstrlen) (hs_info_hash req) 20) (\<lambda>buffer.
     rbind (copy_in buffer (29 + int pstrlen) (hs_peer_id req) 20) (\<lambda>buffer.
     rbind (oget buffer 0 buflen) (\<lambda>bs.
     Inr (sock_send bs s))))))))"

definition receive_peer_handshake :: "sock \<Rightarrow> (peer_handshake \<times> sock \<times> int) res" where
  "receive_peer_handshake s =
     (let pstrlen = 19; buflen = 1 + pstrlen + 8 + 20 + 20 in
      case sock_recv buflen s of (bs, got, s) \<Rightarrow>
      let buffer = map Some bs @ replicate (buflen - length bs) (Some 0) in
      rbind (oget buffer 0 1) (\<lambda>len.
      rbind (oget buffer 1 pstrlen) (\<lambda>pstr.
      rbind (get64 buffer (int pstrlen)) (\<lambda>reserved.
      rbind (oget buffer (1 + int pstrlen + 8) 20) (\<lambda>info_hash.
      rbind (oget buffer (1 + int pstrlen + 8 + 20) 20) (\<lambda>peer_id.
      Inr (\<lparr>hs_pstrlen = hd len, hs_pstr = pstr @ [0], hs_reserved = reserved,
            hs_info_hash = info_hash, hs_peer_id = peer_id\<rparr>, s, got)))))))"

subsection \<open>Messages\<close>

datatype peer_message =
    PEER_MSG_KEEPALIVE
  | PEER_MSG_CHOKE
  | PEER_MSG_UNCHOKE
  | PEER_MSG_INTERESTED
  | PEER_MSG_NOTINTERESTED
  | PEER_MSG_HAVE "32 word"
  | PEER_MSG_BITFIELD "32 word" obuf
  | PEER_MSG_REQUEST "32 word" "32 word" "32 word"
  | PEER_MSG_PIECE "32 word" "32 word" "32 word" obuf
  | PEER_MSG_CANCEL "32 word" "32 word" "32 word"
  | PEER_MSG_UNKNOWN

text \<open>The length prefix and the message id; for an unknown type the id is never assigned.\<close>

fun msg_header :: "peer_message \<Rightarrow> 32 word \<times> 8 word option" where
  "msg_header PEER_MSG_KEEPALIVE = (0, None)"
| "msg_header PEER_MSG_CHOKE = (1, Some 0)"
| "msg_header PEER_MSG_UNCHOKE = (1, Some 1)"
| "msg_header PEER_MSG_INTERESTED = (1, Some 2)"
| "msg_header PEER_MSG_NOTINTERESTED = (1, Some 3)"
| "msg_header (PEER_MSG_HAVE _) = (5, Some 4)"
| "msg_header (PEER_MSG_BITFIELD len _) = (1 + len, Some 5)"
| "msg_header (PEER_MSG_REQUEST _ _ _) = (13, Some 6)"
| "msg_header (PEER_MSG_PIECE _ _ len _) = (9 + len, Some 7)"
| "msg_header (PEER_MSG_CANCEL _ _ _) = (13, Some 8)"
| "msg_header PEER_MSG_UNKNOWN = (- 1, None)"

definition send_bytes :: "bytes \<Rightarrow> sock \<times> int \<Rightarrow> sock \<times> int" where
  "send_bytes bs st = (case st of (s, sb) \<Rightarrow> case sock_send bs s of (s, n) \<Rightarrow> (s, sb + n))"

text \<open>What is sent after the id.\<close>

fun send_payload :: "peer_message \<Rightarrow> sock \<times> int \<Rightarrow> (sock \<times> int) res" where
  "send_payload (PEER_MSG_HAVE piece_index) st = Inr (send_bytes (be32 piece_index) st)"
| "send_payload (PEER_MSG_BITFIELD len bitfield) st =
     rbind (oget bitfield 0 (unat len)) (\<lambda>bs. Inr (send_bytes bs st))"
| "send_payload (PEER_MSG_REQUEST piece_index begin_at len) st =
     Inr (send_bytes (be32 len) (send_bytes (be32 begin_at) (send_bytes (be32 piece_index) st)))"
| "send_payload (PEER_MSG_CANCEL piece_index begin_at len) st =
     Inr (send_bytes (be32 len) (send_bytes (be32 begin_at) (send_bytes (be32 piece_index) st)))"
| "send_payload (PEER_MSG_PIECE piece_index begin_at len data) st =
     (let st = send_bytes (be32 begin_at) (send_bytes (be32 piece_index) st) in
      rbind (oget data 0 (unat len)) (\<lambda>bs. Inr (send_bytes bs st)))"
| "send_payload _ st = Inr st"

definition send_peer_message :: "peer_message \<Rightarrow> sock \<Rightarrow> (sock \<times> int) res" where
  "send_peer_message msg s =
     (case msg_header msg of (msg_length, msg_id) \<Rightarrow>
      let st = send_bytes (be32 msg_length) (s, 0) in
      if msg_length = 0 then Inr st
      else case msg_id of
        None \<Rightarrow> Inl UninitRead
      | Some msg_id \<Rightarrow> send_payload msg (send_bytes [msg_id] st))"

text \<open>One \<open>recv\<close> into an integer, and one into allocated memory.\<close>

definition recv32 :: "sock \<Rightarrow> 32 word \<times> int \<times> sock" where
  "recv32 s = (case recv_field 4 s of (bs, r, s) \<Rightarrow> (ntohl (load_le bs), r, s))"

definition recv8 :: "sock \<Rightarrow> 8 word \<times> int \<times> sock" where
  "recv8 s = (case recv_field 1 s of (bs, r, s) \<Rightarrow> (hd bs, r, s))"

definition recv_buf :: "nat \<Rightarrow> sock \<Rightarrow> obuf \<times> sock" where
  "recv_buf len s = (case recv_field len s of (bs, _, s) \<Rightarrow> (map Some bs, s))"

text \<open>The type \<open>PEER_MSG_KEEPALIVE\<close> set for a zero length prefix does not survive: the id is
  read in every case and each branch on it assigns the type again. The count \<open>rb\<close> only
  includes the first two calls.\<close>

definition receive_peer_message :: "sock \<Rightarrow> peer_message \<times> sock \<times> int" where
  "receive_peer_message s =
     (case recv32 s of (length_prefix, r1, s) \<Rightarrow>
      case recv8 s of (msg_type, r2, s) \<Rightarrow>
      let rb = recvfrom_result s r1 + r2 in
      if msg_type = 0 then (PEER_MSG_CHOKE, s, rb)
      else if msg_type = 1 then (PEER_MSG_UNCHOKE, s, rb)
      else if msg_type = 2 then (PEER_MSG_INTERESTED, s, rb)
      else if msg_type = 3 then (PEER_MSG_NOTINTERESTED, s, rb)
      else if msg_type = 4 then
        case recv32 s of (piece_index, _, s) \<Rightarrow> (PEER_MSG_HAVE piece_index, s, rb)
      else if msg_type = 5 then
        let bflen = length_prefix - 1 in
        case recv_buf (unat bflen) s of (bitfield, s) \<Rightarrow> (PEER_MSG_BITFIELD bflen bitfield, s, rb)
      else if msg_type = 6 \<or> msg_type = 8 then
        case recv32 s of (piece_index, _, s) \<Rightarrow>
        case recv32 s of (begin_at, _, s) \<Rightarrow>
        case recv32 s of (len, _, s) \<Rightarrow>
        (if msg_type = 6 then PEER_MSG_REQUEST piece_index begin_at len
         else PEER_MSG_CANCEL piece_index begin_at len, s, rb)
      else if msg_type = 7 then
        case recv32 s of (piece_index, _, s) \<Rightarrow>
        case recv32 s of (begin_at, _, s) \<Rightarrow>
        let piece_length = length_prefix - 9 in
        case recv_buf (unat piece_length) s of (data, s) \<Rightarrow>
        (PEER_MSG_PIECE piece_index begin_at piece_length data, s, rb)
      else (PEER_MSG_UNKNOWN, s, rb))"

fun message_name :: "peer_message \<Rightarrow> string" where
  "message_name PEER_MSG_KEEPALIVE = ''keep alive''"
| "message_name PEER_MSG_CHOKE = ''choke''"
| "message_name PEER_MSG_UNCHOKE = ''unchoke''"
| "message_name PEER_MSG_INTERESTED = ''interested''"
| "message_name PEER_MSG_NOTINTERESTED = ''not interested''"
| "message_name (PEER_MSG_HAVE _) = ''have''"
| "message_name (PEER_MSG_BITFIELD _ _) = ''bitfield''"
| "message_name (PEER_MSG_REQUEST _ _ _) = ''request''"
| "message_name (PEER_MSG_PIECE _ _ _ _) = ''piece''"
| "message_name (PEER_MSG_CANCEL _ _ _) = ''cancel''"
| "message_name PEER_MSG_UNKNOWN = ''unknown''"

definition print_peer_message :: "peer_message \<Rightarrow> bytes" where
  "print_peer_message msg = lit ''Message: '' @ lit (message_name msg) @ [10]"

subsection \<open>The contract of framed messages\<close>

text \<open>\<open>wire m\<close> are the bytes of a message. Sending appends them to the stream; receiving takes
  them from its front when everything has arrived.\<close>

fun recv_msgs :: "(sock \<Rightarrow> 'm \<times> sock \<times> int) \<Rightarrow> nat \<Rightarrow> sock \<Rightarrow> 'm list \<times> sock" where
  "recv_msgs rcv 0 s = ([], s)"
| "recv_msgs rcv (Suc n) s =
     (case rcv s of (m, s, _) \<Rightarrow> case recv_msgs rcv n s of (ms, s) \<Rightarrow> (m # ms, s))"

lemma recv_msgs_add:
  "recv_msgs rcv (n + k) s = (case recv_msgs rcv n s of (ms, s) \<Rightarrow>
     case recv_msgs rcv k s of (ms', s) \<Rightarrow> (ms @ ms', s))"
  by (induction n arbitrary: s) (auto split: prod.splits)

locale framed_codec =
  fixes valid :: "'m \<Rightarrow> bool"
    and wire :: "'m \<Rightarrow> bytes"
    and snd_msg :: "'m \<Rightarrow> sock \<Rightarrow> (sock \<times> int) res"
    and rcv_msg :: "sock \<Rightarrow> 'm \<times> sock \<times> int"
  assumes send_ok: "valid m \<Longrightarrow> snd_msg m s = Inr (s\<lparr>tx := tx s @ wire m\<rparr>, int (length (wire m)))"
    and recv_ok: "valid m \<Longrightarrow> cuts s = [] \<Longrightarrow> rx s = wire m @ rest \<Longrightarrow>
      \<exists>rb. rcv_msg s = (m, s\<lparr>rx := rest\<rparr>, rb)"
begin

lemma send_all:
  "list_all valid ms \<Longrightarrow>
     rfold (\<lambda>m s. rmap fst (snd_msg m s)) ms s = Inr (s\<lparr>tx := tx s @ concat (map wire ms)\<rparr>)"
  by (induction ms arbitrary: s) (simp_all add: send_ok)

lemma recv_all:
  "list_all valid ms \<Longrightarrow> cuts s = [] \<Longrightarrow> rx s = concat (map wire ms) @ rest \<Longrightarrow>
     recv_msgs rcv_msg (length ms) s = (ms, s\<lparr>rx := rest\<rparr>)"
proof (induction ms arbitrary: s)
  case Nil
  then show ?case by simp
next
  case (Cons m ms)
  obtain rb where "rcv_msg s = (m, s\<lparr>rx := concat (map wire ms) @ rest\<rparr>, rb)"
    using recv_ok [of m s "concat (map wire ms) @ rest"] Cons.prems by auto
  moreover have "recv_msgs rcv_msg (length ms) (s\<lparr>rx := concat (map wire ms) @ rest\<rparr>) = (ms, s\<lparr>rx := rest\<rparr>)"
    using Cons.IH [of "s\<lparr>rx := concat (map wire ms) @ rest\<rparr>"] Cons.prems by simp
  ultimately show ?case by simp
qed

end

subsection \<open>Messages meet the contract\<close>

fun valid_msg :: "peer_message \<Rightarrow> bool" where
  "valid_msg PEER_MSG_KEEPALIVE = False"
| "valid_msg PEER_MSG_UNKNOWN = False"
| "valid_msg (PEER_MSG_BITFIELD len bf) \<longleftrightarrow> None \<notin> set bf \<and> length bf = unat len \<and> 1 + len \<noteq> 0"
| "valid_msg (PEER_MSG_PIECE _ _ len data) \<longleftrightarrow> None \<notin> set data \<and> length data = unat len \<and> 9 + len \<noteq> 0"
| "valid_msg _ = True"

fun payload :: "peer_message \<Rightarrow> bytes" where
  "payload (PEER_MSG_HAVE i) = be32 i"
| "payload (PEER_MSG_BITFIELD len bf) = map the bf"
| "payload (PEER_MSG_REQUEST i b l) = be32 i @ be32 b @ be32 l"
| "payload (PEER_MSG_CANCEL i b l) = be32 i @ be32 b @ be32 l"
| "payload (PEER_MSG_PIECE i b len data) = be32 i @ be32 b @ map the data"
| "payload _ = []"

definition msg_wire :: "peer_message \<Rightarrow> bytes" where
  "msg_wire m = be32 (fst (msg_header m)) @ the (snd (msg_header m)) # payload m"

lemma recv32_ok: "cuts s = [] \<Longrightarrow> rx s = be32 x @ rest \<Longrightarrow> recv32 s = (x, 4, s\<lparr>rx := rest\<rparr>)"
  by (simp add: recv32_def recv_field_ok net32.dec_enc)

lemma recv8_ok: "cuts s = [] \<Longrightarrow> rx s = b # rest \<Longrightarrow> recv8 s = (b, 1, s\<lparr>rx := rest\<rparr>)"
  using recv_field_ok [of s "[b]" rest 1] by (simp add: recv8_def)

lemma map_Some_the: "None \<notin> set xs \<Longrightarrow> map (Some \<circ> the) xs = xs"
  by (rule map_idI) (metis comp_apply option.collapse)

lemma recv_buf_ok:
  "cuts s = [] \<Longrightarrow> rx s = map the bf @ rest \<Longrightarrow> None \<notin> set bf \<Longrightarrow> length bf = n \<Longrightarrow>
     recv_buf n s = (bf, s\<lparr>rx := rest\<rparr>)"
  by (simp add: recv_buf_def recv_field_ok map_Some_the)

lemma oget_whole: "None \<notin> set bf \<Longrightarrow> length bf = n \<Longrightarrow> oget bf 0 n = Inr (map the bf)"
  by (simp add: oget_def rds_def)

lemma send_bytes_eq: "send_bytes bs (s, sb) = (s\<lparr>tx := tx s @ bs\<rparr>, sb + int (length bs))"
  by (simp add: send_bytes_def sock_send_def)

lemma send_message_ok:
  "valid_msg m \<Longrightarrow>
     send_peer_message m s = Inr (s\<lparr>tx := tx s @ msg_wire m\<rparr>, int (length (msg_wire m)))"
  by (cases m) (simp_all add: send_peer_message_def msg_wire_def send_bytes_eq oget_whole)

lemma receive_message_ok:
  assumes "valid_msg m" "cuts s = []" "rx s = msg_wire m @ rest"
  shows "receive_peer_message s = (m, s\<lparr>rx := rest\<rparr>, if rf_fault s then 0 else 5)"
proof -
  let ?s = "s\<lparr>rx := payload m @ rest\<rparr>"
  have "recv32 s = (fst (msg_header m), 4, s\<lparr>rx := the (snd (msg_header m)) # payload m @ rest\<rparr>)"
    using assms(2,3) by (simp add: recv32_ok msg_wire_def)
  moreover have "recv8 (s\<lparr>rx := the (snd (msg_header m)) # payload m @ rest\<rparr>) = (the (snd (msg_header m)), 1, ?s)"
    using assms(2) by (simp add: recv8_ok)
  ultimately show ?thesis
    using assms(1,2)
    by (cases m) (simp_all add: receive_peer_message_def recv32_ok recv_buf_ok recvfrom_result_def)
qed

interpretation peer_messages: framed_codec valid_msg msg_wire send_peer_message receive_peer_message
  by unfold_locales (auto simp: send_message_ok receive_message_ok)

subsection \<open>Handshakes on the stream\<close>

definition handshake_bytes :: "peer_handshake \<Rightarrow> bytes" where
  "handshake_bytes h = hs_pstrlen h # take (unat (hs_pstrlen h)) (hs_pstr h) @ be64 (hs_reserved h) @
     hs_info_hash h @ hs_peer_id h"

lemma send_handshake_ok:
  assumes "unat (hs_pstrlen h) \<le> length (hs_pstr h)" "length (hs_info_hash h) = 20" "length (hs_peer_id h) = 20"
  shows "send_peer_handshake h s = Inr (s\<lparr>tx := tx s @ handshake_bytes h\<rparr>, 49 + int (unat (hs_pstrlen h)))"
proof -
  define n p where "n = unat (hs_pstrlen h)" and "p = take n (hs_pstr h)"
  then have p: "length p = n" using assms by simp
  show ?thesis
    using assms p unfolding send_peer_handshake_def handshake_bytes_def
    by (cases "n = 0") (simp_all add: n_def [symmetric] p_def [symmetric] copy_in_def rds_def put64_def fresh_def
        obuf_simps obuf_Cons sock_send_def Let_def)
qed

lemma be64_zero: "be64 0 = replicate 8 0"
proof -
  have "be64 0 = [0, 0, 0, 0, 0, 0, 0, 0]" unfolding store_htonll by (simp add: store_le_def upt_rec)
  then show ?thesis by (simp add: numeral_eq_Suc)
qed

text \<open>Receiving a handshake never fails: what did not arrive is zero.\<close>

lemma receive_handshake_any:
  assumes "sock_recv 68 s = (bs, got, s1)"
  defines "buf \<equiv> bs @ replicate (68 - length bs) 0"
  shows "\<exists>h. receive_peer_handshake s = Inr (h, s1, got) \<and> hs_pstrlen h = hd buf \<and>
    hs_pstr h = take 19 (drop 1 buf) @ [0] \<and> hs_info_hash h = take 20 (drop 28 buf) \<and> length (hs_peer_id h) = 20"
proof -
  have len: "length buf = 68" using sock_recv_le [OF assms(1)] by (simp add: buf_def)
  have b: "map Some bs @ replicate (68 - length bs) (Some 0) = map Some buf" by (simp add: buf_def)
  have get: "oget (map Some buf) (int i) n = Inr (take n (drop i buf))" if "i + n \<le> 68" for i n
    using that len by (auto simp: oget_def rds_def take_map drop_map)
  show ?thesis
    using len unfolding receive_peer_handshake_def get64_def
    by (simp add: assms(1) b get [of 0 1, simplified] get [of 1 19, simplified] get [of 19 8, simplified]
        get [of 28 20, simplified] get [of 48 20, simplified])
qed

text \<open>A 64-bit integer read one byte early: \<open>c\<close> is the byte before it.\<close>

lemma read_early: "ntohll (load_le (c # take 7 (be64 x))) = push_bit 56 (ucast c) OR drop_bit 8 x"
proof -
  let ?X = "c # take 7 (be64 x)" and ?S = "store_le 8 x"
  obtain b S where S: "?S = b # S" by (cases ?S) (auto dest: arg_cong [where f = length])
  have lS: "length S = 7" using length_store_le [of 8 x] unfolding S by simp
  from S have rev: "rev ?X = S @ [c]" by (simp add: store_htonll lS)
  have "ntohll (load_le ?X) = load_le (rev (store_le 8 (load_le ?X :: 64 word)))"
    by (simp only: hton_ntoh_same htonll_load)
  also have "store_le 8 (load_le ?X :: 64 word) = ?X" by (rule store_load_le) simp_all
  also have "load_le (rev ?X) = load_le S OR (push_bit 56 (ucast c) :: 64 word)"
    unfolding rev load_le_append by (simp add: lS)
  also have "load_le S = drop_bit 8 x"
  proof (rule bit_word_eqI)
    fix i assume i: "i < LENGTH(64)"
    have "bit (load_le S :: 64 word) i \<longleftrightarrow> bit (load_le (b # S) :: 64 word) (i + 8)"
    proof -
      have "(i + 8) div 8 = Suc (i div 8)" "i div 8 < 7 \<longleftrightarrow> i + 8 < 64" by auto
      then show ?thesis using i lS unfolding bit_load_le by auto
    qed
    also have "\<dots> \<longleftrightarrow> bit (drop_bit 8 x) i"
      unfolding S [symmetric] by (simp add: load_store_le bit_simps add.commute)
    finally show "bit (load_le S :: 64 word) i \<longleftrightarrow> bit (drop_bit 8 x) i" .
  qed
  finally show ?thesis by (simp add: or.commute)
qed

lemma receive_handshake_ok:
  assumes "hs_pstrlen h = 19" "hs_pstr h = q @ [c]" "length q = 18" "length (hs_info_hash h) = 20"
    "length (hs_peer_id h) = 20" "cuts s = []" "rx s = handshake_bytes h @ rest"
  shows "receive_peer_handshake s =
    Inr (h\<lparr>hs_pstr := hs_pstr h @ [0], hs_reserved := push_bit 56 (ucast c) OR drop_bit 8 (hs_reserved h)\<rparr>,
         s\<lparr>rx := rest\<rparr>, 68)"
proof -
  let ?r = "be64 (hs_reserved h)" and ?w = "handshake_bytes h"
  have len: "length ?w = 68" using assms by (simp add: handshake_bytes_def)
  have recv: "sock_recv 68 s = (?w, 68, s\<lparr>rx := rest\<rparr>)"
    using assms len sock_recv_ok [of s ?w rest 68] by simp
  define a d where "a = take 7 ?r" and "d = drop 7 ?r"
  then have r: "?r = a @ d" "length a = 7" "length d = 1" by simp_all
  have buf: "map Some ?w = Some 19 # map Some q @ map Some (c # a) @ map Some d @ map Some (hs_info_hash h) @
      map Some (hs_peer_id h)"
    using assms by (simp add: handshake_bytes_def r(1))
  have buf2: "map Some ?w = Some 19 # map Some (hs_pstr h) @ map Some ?r @ map Some (hs_info_hash h) @
      map Some (hs_peer_id h)" and p: "length (hs_pstr h) = 19"
    using assms by (simp_all add: handshake_bytes_def)
  have "get64 (map Some ?w) 19 = Inr (ntohll (load_le (c # a)))"
    unfolding buf get64_def using assms(3) r by (simp add: obuf_simps obuf_Cons)
  then have "get64 (map Some ?w) 19 = Inr (push_bit 56 (ucast c) OR drop_bit 8 (hs_reserved h))"
    unfolding a_def read_early .
  moreover have "oget (map Some ?w) 0 1 = Inr [19]" by (simp add: buf oget_def rds_def)
  moreover have "oget (map Some ?w) 1 19 = Inr (hs_pstr h)"
      "oget (map Some ?w) 28 20 = Inr (hs_info_hash h)" "oget (map Some ?w) 48 20 = Inr (hs_peer_id h)"
    unfolding buf2 using p assms(4,5) by (simp_all add: obuf_simps obuf_Cons)
  moreover have "\<lparr>hs_pstrlen = 19, hs_pstr = p, hs_reserved = x, hs_info_hash = hs_info_hash h,
      hs_peer_id = hs_peer_id h\<rparr> = h\<lparr>hs_pstr := p, hs_reserved := x\<rparr>" for p x
    using assms(1) by (cases h) simp
  ultimately show ?thesis by (simp add: receive_peer_handshake_def recv len)
qed

text \<open>The first byte of a length prefix below \<open>2 ^ 24\<close>.\<close>

lemma be32_small:
  assumes "x < 0x1000000"
  shows "\<exists>bs. be32 x = 0 # bs \<and> length bs = 3"
proof -
  have "unat x < 0x1000000" using assms by (simp add: word_less_nat_alt)
  then have "drop_bit 24 (unat x) = 0" by (simp add: drop_bit_eq_div)
  then have "unat (drop_bit 24 x) = 0" by (simp only: unat_drop_bit_eq)
  then have "drop_bit 24 x = 0" by (simp only: unat_eq_zero)
  moreover have "[0..<4] = [0, 1, 2, 3 :: nat]" by (simp add: upt_rec)
  ultimately show ?thesis unfolding store_htonl unfolding store_le_def by simp
qed

subsection \<open>Keep-alives\<close>

text \<open>How the receiver reads a keep-alive: it goes on to read an id. When a message shorter than
  16 MiB follows, the first byte of its length prefix is taken as the id: the result is a choke,
  and the stream is left one byte inside the next message.\<close>

lemma keepalive_choke:
  assumes "fst (msg_header m) < 0x1000000" "cuts s = []" "rx s = be32 0 @ msg_wire m @ rest"
  shows "\<exists>rb. receive_peer_message s = (PEER_MSG_CHOKE, s\<lparr>rx := tl (msg_wire m) @ rest\<rparr>, rb)"
proof -
  obtain bs where bs: "msg_wire m = 0 # bs"
    using be32_small [OF assms(1)] by (auto simp: msg_wire_def)
  have "recv32 s = (0, 4, s\<lparr>rx := msg_wire m @ rest\<rparr>)" using assms(2,3) by (intro recv32_ok)
  moreover have "recv8 (s\<lparr>rx := msg_wire m @ rest\<rparr>) = (0, 1, s\<lparr>rx := tl (msg_wire m) @ rest\<rparr>)"
    using recv8_ok [of "s\<lparr>rx := msg_wire m @ rest\<rparr>" 0 "bs @ rest"] assms(2) by (simp add: bs)
  ultimately show ?thesis by (simp add: receive_peer_message_def)
qed

lemma send_keepalive:
  "send_peer_message PEER_MSG_KEEPALIVE s = Inr (s\<lparr>tx := tx s @ be32 0\<rparr>, 4)"
  by (simp add: send_peer_message_def send_bytes_eq)

subsection \<open>Properties\<close>

text \<open>C4: Every message but the keep-alive and the unknown type (with a bitfield or a piece that is
  complete and whose prefix does not wrap) is sent as its length prefix, id and payload. When every
  \<open>recv\<close> gets all of its field, a stream that begins with these bytes is received as the same
  message, leaving the rest; the count returned is 5, or 0 where \<open>recvfrom\<close> faults on the missing
  address length. Nothing of the kind holds for a short \<open>recv\<close>, which is not repeated: when the first
  one is cut after \<open>c\<close> bytes, the rest of the length prefix is indeterminate and its bytes
  stay in the stream, where the id is read next.\<close>

theorem peer_message_roundtrip:
  assumes "valid_msg m" and "send_peer_message m s = Inr (s1, n)" and "tx s = []"
    and "rx s2 = tx s1 @ rest"
  shows "n = int (length (tx s1)) \<and>
    (cuts s2 = [] \<longrightarrow>
       receive_peer_message s2 = (m, s2\<lparr>rx := rest\<rparr>, if rf_fault s2 then 0 else 5)) \<and>
    (\<forall>c cs. cuts s2 = c # cs \<and> c < 4 \<longrightarrow>
       (\<exists>r s'. recv32 s2 = (ntohl (load_le (take c (tx s1) @ indet (4 - c) s2)), r, s') \<and>
          rx s' = drop c (tx s1) @ rest))"
proof -
  have w: "tx s1 = msg_wire m" "n = int (length (msg_wire m))"
    using assms(1-3) by (auto simp: send_message_ok)
  have l: "5 \<le> length (msg_wire m)" by (simp add: msg_wire_def)
  have "\<exists>r s'. recv32 s2 = (ntohl (load_le (take c (tx s1) @ indet (4 - c) s2)), r, s') \<and>
      rx s' = drop c (tx s1) @ rest" if "cuts s2 = c # cs" "c < 4" for c cs
    using recv_field_short [of s2 c cs 4] that w l assms(4) by (auto simp: recv32_def)
  then show ?thesis
    using w assms(1,4) by (auto simp: receive_message_ok)
qed

theorem peer_message_roundtrip_witness:
  "receive_peer_message \<lparr>tx = [], rx = be32 13 @ 6 # be32 1 @ be32 0 @ be32 16384 @ [], cuts = [], rf_fault = False, stale = []\<rparr> =
     (PEER_MSG_REQUEST 1 0 16384, \<lparr>tx = [], rx = [], cuts = [], rf_fault = False, stale = []\<rparr>, 5) \<and>
   (\<exists>r s'. recv32 \<lparr>tx = [], rx = be32 13 @ 6 # be32 1 @ be32 0 @ be32 16384 @ [], cuts = [3], rf_fault = False, stale = [7]\<rparr> =
     (ntohl (load_le [0, 0, 0, 7]), r, s'))"
proof -
  let ?s = "\<lparr>tx = [], rx = [], cuts = [], rf_fault = False, stale = []\<rparr>" and ?m = "PEER_MSG_REQUEST 1 0 16384"
  let ?w = "be32 13 @ 6 # be32 1 @ be32 0 @ be32 16384"
  let ?s3 = "\<lparr>tx = [], rx = ?w @ [], cuts = [3], rf_fault = False, stale = [7]\<rparr>"
  have send: "send_peer_message ?m ?s = Inr (?s\<lparr>tx := ?w\<rparr>, int (length ?w))"
    by (simp add: send_message_ok msg_wire_def)
  obtain a where a: "be32 (13 :: 32 word) = [0, 0, 0, a]"
    unfolding store_htonl by (simp add: store_le_def upt_rec)
  have "\<exists>r s'. recv32 ?s3 = (ntohl (load_le (take 3 ?w @ indet (4 - 3) ?s3)), r, s')"
    using peer_message_roundtrip [OF _ send, of ?s3 "[]"] by auto
  moreover have "take 3 ?w @ indet (4 - 3) ?s3 = [0, 0, 0, 7]" by (simp add: a indet_def)
  ultimately show ?thesis
    using peer_message_roundtrip [OF _ send, of "\<lparr>tx = [], rx = ?w @ [], cuts = [], rf_fault = False, stale = []\<rparr>" "[]"]
    by auto
qed

text \<open>C25: A sequence of messages, none of them a keep-alive or of unknown type and all buffers
  complete, sent one after the other is received as the same sequence when every \<open>recv\<close> gets all
  of its field. One keep-alive in the stream destroys this: sent before a message shorter than
  16 MiB, it is received as a choke, and the stream is left inside the message that follows.\<close>

theorem message_stream_roundtrip:
  assumes "list_all valid_msg ms" and "tx s = []"
  shows "(\<exists>s1. rfold (\<lambda>m s. rmap fst (send_peer_message m s)) ms s = Inr s1 \<and>
    (\<forall>s2. rx s2 = tx s1 \<and> cuts s2 = [] \<longrightarrow>
       recv_msgs receive_peer_message (length ms) s2 = (ms, s2\<lparr>rx := []\<rparr>))) \<and>
    (\<forall>m. valid_msg m \<and> fst (msg_header m) < 0x1000000 \<longrightarrow>
      (\<exists>s1 w. rfold (\<lambda>m s. rmap fst (send_peer_message m s)) (ms @ [PEER_MSG_KEEPALIVE, m]) s = Inr s1 \<and>
        (\<exists>u. tx s1 = u @ w) \<and> rmap (tx \<circ> fst) (send_peer_message m s) = Inr w \<and>
        (\<forall>s2. rx s2 = tx s1 \<and> cuts s2 = [] \<longrightarrow>
          recv_msgs receive_peer_message (length ms + 1) s2 = (ms @ [PEER_MSG_CHOKE], s2\<lparr>rx := tl w\<rparr>))))"
proof (intro conjI allI impI)
  show "\<exists>s1. rfold (\<lambda>m s. rmap fst (send_peer_message m s)) ms s = Inr s1 \<and>
    (\<forall>s2. rx s2 = tx s1 \<and> cuts s2 = [] \<longrightarrow>
       recv_msgs receive_peer_message (length ms) s2 = (ms, s2\<lparr>rx := []\<rparr>))"
    using peer_messages.send_all [OF assms(1), of s] peer_messages.recv_all [OF assms(1), of _ "[]"] assms(2)
    by auto
  fix m assume m: "valid_msg m \<and> fst (msg_header m) < 0x1000000"
  let ?pre = "concat (map msg_wire ms)"
  have "rfold (\<lambda>m s. rmap fst (send_peer_message m s)) (ms @ [PEER_MSG_KEEPALIVE, m]) s =
      Inr (s\<lparr>tx := ?pre @ be32 0 @ msg_wire m\<rparr>)"
    using peer_messages.send_all [OF assms(1), of s] assms(2) m
    by (simp add: rfold_append send_keepalive send_message_ok)
  moreover have "recv_msgs receive_peer_message (length ms + 1) s2 =
      (ms @ [PEER_MSG_CHOKE], s2\<lparr>rx := tl (msg_wire m)\<rparr>)"
    if r: "rx s2 = ?pre @ be32 0 @ msg_wire m" and c: "cuts s2 = []" for s2
  proof -
    obtain rb where "receive_peer_message (s2\<lparr>rx := be32 0 @ msg_wire m\<rparr>) =
        (PEER_MSG_CHOKE, s2\<lparr>rx := tl (msg_wire m)\<rparr>, rb)"
      using keepalive_choke [of m "s2\<lparr>rx := be32 0 @ msg_wire m\<rparr>" "[]"] m c by auto
    then have "recv_msgs receive_peer_message 1 (s2\<lparr>rx := be32 0 @ msg_wire m\<rparr>) =
        ([PEER_MSG_CHOKE], s2\<lparr>rx := tl (msg_wire m)\<rparr>)" by simp
    then show ?thesis
      unfolding recv_msgs_add peer_messages.recv_all [OF assms(1) c r] by simp
  qed
  ultimately show "\<exists>s1 w. rfold (\<lambda>m s. rmap fst (send_peer_message m s)) (ms @ [PEER_MSG_KEEPALIVE, m]) s = Inr s1 \<and>
        (\<exists>u. tx s1 = u @ w) \<and> rmap (tx \<circ> fst) (send_peer_message m s) = Inr w \<and>
        (\<forall>s2. rx s2 = tx s1 \<and> cuts s2 = [] \<longrightarrow>
          recv_msgs receive_peer_message (length ms + 1) s2 = (ms @ [PEER_MSG_CHOKE], s2\<lparr>rx := tl w\<rparr>))"
    using m assms(2)
    by (intro exI [of _ "s\<lparr>tx := ?pre @ be32 0 @ msg_wire m\<rparr>"] exI [of _ "msg_wire m"])
      (auto simp: send_message_ok intro: exI [of _ "?pre @ be32 0"])
qed

theorem message_stream_roundtrip_witness:
  "(\<exists>s1. rfold (\<lambda>m s. rmap fst (send_peer_message m s)) [PEER_MSG_UNCHOKE, PEER_MSG_HAVE 7]
      \<lparr>tx = [], rx = [], cuts = [], rf_fault = False, stale = []\<rparr> = Inr s1 \<and>
    recv_msgs receive_peer_message 2 \<lparr>tx = [], rx = tx s1, cuts = [], rf_fault = False, stale = []\<rparr> =
      ([PEER_MSG_UNCHOKE, PEER_MSG_HAVE 7], \<lparr>tx = [], rx = [], cuts = [], rf_fault = False, stale = []\<rparr>)) \<and>
   (\<exists>s1 s3. rfold (\<lambda>m s. rmap fst (send_peer_message m s))
       [PEER_MSG_UNCHOKE, PEER_MSG_HAVE 7, PEER_MSG_KEEPALIVE, PEER_MSG_UNCHOKE]
       \<lparr>tx = [], rx = [], cuts = [], rf_fault = False, stale = []\<rparr> = Inr s1 \<and>
     recv_msgs receive_peer_message 3 \<lparr>tx = [], rx = tx s1, cuts = [], rf_fault = False, stale = []\<rparr> =
       ([PEER_MSG_UNCHOKE, PEER_MSG_HAVE 7, PEER_MSG_CHOKE], s3))"
proof -
  let ?s = "\<lparr>tx = [], rx = [], cuts = [], rf_fault = False, stale = []\<rparr>"
  let ?ms = "[PEER_MSG_UNCHOKE, PEER_MSG_HAVE 7]"
  have v: "list_all valid_msg ?ms" "tx ?s = []" by simp_all
  have l: "length ?ms + 1 = 3" "length ?ms = 2" by simp_all
  have k: "valid_msg PEER_MSG_UNCHOKE \<and> fst (msg_header PEER_MSG_UNCHOKE) < 0x1000000" by simp
  note rt = message_stream_roundtrip [OF v, unfolded l append.simps]
  obtain s1 where s1: "rfold (\<lambda>m s. rmap fst (send_peer_message m s)) ?ms ?s = Inr s1"
      "\<forall>s2. rx s2 = tx s1 \<and> cuts s2 = [] \<longrightarrow>
        recv_msgs receive_peer_message 2 s2 = (?ms, s2\<lparr>rx := []\<rparr>)"
    using rt by blast
  obtain s3 w where s3: "rfold (\<lambda>m s. rmap fst (send_peer_message m s))
      [PEER_MSG_UNCHOKE, PEER_MSG_HAVE 7, PEER_MSG_KEEPALIVE, PEER_MSG_UNCHOKE] ?s = Inr s3"
      "\<forall>s2. rx s2 = tx s3 \<and> cuts s2 = [] \<longrightarrow> recv_msgs receive_peer_message 3 s2 =
        ([PEER_MSG_UNCHOKE, PEER_MSG_HAVE 7, PEER_MSG_CHOKE], s2\<lparr>rx := tl w\<rparr>)"
    using rt [THEN conjunct2, rule_format, OF k] by auto
  show ?thesis
    using s1(1) s3(1) s1(2) [rule_format, of "?s\<lparr>rx := tx s1\<rparr>"] s3(2) [rule_format, of "?s\<lparr>rx := tx s3\<rparr>"]
    by auto
qed

text \<open>A handshake with the 19-byte protocol string is sent as 68 bytes and received with the
  same protocol string (and a NUL behind it), info hash and peer id, but the reserved field is
  read one byte early: its highest byte is the last character of the protocol string, and its
  own lowest byte is lost.\<close>

lemma handshake_roundtrip:
  assumes "hs_pstrlen h = 19" and "length (hs_pstr h) = 19" and "length (hs_info_hash h) = 20"
    and "length (hs_peer_id h) = 20"
  shows "\<exists>s1 w. send_peer_handshake h s = Inr (s1, 68) \<and> tx s1 = tx s @ w \<and>
    (\<forall>s2 rest. cuts s2 = [] \<and> rx s2 = w @ rest \<longrightarrow>
       receive_peer_handshake s2 =
         Inr (h\<lparr>hs_pstr := hs_pstr h @ [0],
                hs_reserved := push_bit 56 (ucast (last (hs_pstr h))) OR drop_bit 8 (hs_reserved h)\<rparr>,
              s2\<lparr>rx := rest\<rparr>, 68))"
proof -
  have "hs_pstr h \<noteq> []" using assms(2) by auto
  then have q: "hs_pstr h = butlast (hs_pstr h) @ [last (hs_pstr h)]" "length (butlast (hs_pstr h)) = 18"
    using assms(2) by simp_all
  show ?thesis
    using send_handshake_ok [of h s] receive_handshake_ok [OF assms(1) q assms(3,4)] assms by auto
qed

lemma handshake_roundtrip_witness:
  "\<exists>s1 w. send_peer_handshake \<lparr>hs_pstrlen = 19, hs_pstr = PEER_PROTOCOL_STR, hs_reserved = 0,
      hs_info_hash = replicate 20 1, hs_peer_id = replicate 20 2\<rparr> \<lparr>tx = [], rx = [], cuts = [], rf_fault = False, stale = []\<rparr> = Inr (s1, 68) \<and>
    tx s1 = w \<and>
    receive_peer_handshake \<lparr>tx = [], rx = w, cuts = [], rf_fault = False, stale = []\<rparr> =
      Inr (\<lparr>hs_pstrlen = 19, hs_pstr = PEER_PROTOCOL_STR @ [0], hs_reserved = 0x6C00000000000000,
        hs_info_hash = replicate 20 1, hs_peer_id = replicate 20 2\<rparr>, \<lparr>tx = [], rx = [], cuts = [], rf_fault = False, stale = []\<rparr>, 68)"
proof -
  let ?h = "\<lparr>hs_pstrlen = 19, hs_pstr = PEER_PROTOCOL_STR, hs_reserved = 0,
      hs_info_hash = replicate 20 1, hs_peer_id = replicate 20 2\<rparr>"
  let ?s = "\<lparr>tx = [], rx = [], cuts = [], rf_fault = False, stale = []\<rparr>"
  have str: "length PEER_PROTOCOL_STR = 19" "last PEER_PROTOCOL_STR = 0x6C"
    by (simp_all add: PEER_PROTOCOL_STR_def lit_def)
  obtain s1 w where "send_peer_handshake ?h ?s = Inr (s1, 68)" "tx s1 = w"
    and r: "\<forall>s2 rest. cuts s2 = [] \<and> rx s2 = w @ rest \<longrightarrow>
       receive_peer_handshake s2 =
         Inr (?h\<lparr>hs_pstr := PEER_PROTOCOL_STR @ [0],
                hs_reserved := push_bit 56 (ucast (last PEER_PROTOCOL_STR)) OR drop_bit 8 0\<rparr>,
              s2\<lparr>rx := rest\<rparr>, 68)"
    using handshake_roundtrip [of ?h ?s] str by auto
  then show ?thesis using r [rule_format, of "\<lparr>tx = [], rx = w, cuts = [], rf_fault = False, stale = []\<rparr>" "[]"] by (simp add: str)
qed

end
