(* ===== verification/Flood_Hashtable.thy ===== *)
theory Flood_Hashtable
  imports Flood_Prelude
begin

section \<open>The chained hash table (src/util/hashtable.c)\<close>

text \<open>
  \<open>hashtable_t\<close> is the struct of \<open>includes/util/hashtable.h\<close>: the counter \<open>size\<close>, the
  capacity, the array of chains, the hash and comparison functions and the mutex. A chain of
  \<open>hashtable_entry\<close>s linked by \<open>next\<close> is the list of its key and value pairs; \<open>[]\<close> is
  \<open>NULL\<close>. It is a datatype and not a record because bencode values nest inside it. Keys are
  compared only through \<open>cmp_func\<close>; a key stands for the object its pointer refers to.
  \<open>size\<close> and \<open>cap\<close> are \<open>int\<close>s: counting up or down past their range and doubling the capacity
  past \<open>INT_MAX\<close> are signed overflows. \<open>PUT_LIMIT\<close> is the first value of \<open>size\<close> at which a put can
  overflow.
  The invariant \<open>ht_wf\<close> says that each key is valid, stands in the chain its hash selects and
  occurs once; \<open>ht_map\<close> is the finite map a table stands for. The locale \<open>key_ops\<close> is the
  contract between the table and the functions it is given; it is interpreted for the string
  keys and for all eight integer key types of the header.
\<close>

subsection \<open>Hash and comparison functions\<close>

definition FNV_32_OFFSET_BASIS :: "32 word" where
  "FNV_32_OFFSET_BASIS = 2166136261"

definition FNV_32_PRIME :: "32 word" where
  "FNV_32_PRIME = 16777619"

text \<open>\<open>char\<close> is signed: a byte above 127 is sign-extended before the exclusive or.\<close>

definition fnv_step :: "byte \<Rightarrow> 32 word \<Rightarrow> 32 word" where
  "fnv_step b hash = (hash XOR scast b) * FNV_32_PRIME"

definition fnv_1a_hash :: "bytes \<Rightarrow> nat \<Rightarrow> 32 word res" where
  "fnv_1a_hash bs n =
     (if n \<le> length bs then Inr (fold fnv_step (take n bs) FNV_32_OFFSET_BASIS)
      else Inl OutOfBounds)"

definition fnv_1a_hash_str :: "bytes \<Rightarrow> 32 word" where
  "fnv_1a_hash_str str = fold fnv_step (cstr str) FNV_32_OFFSET_BASIS"

text \<open>\<open>strcmp\<close> of the C library: the difference of the first bytes that differ, the
  terminating NUL counting as a byte.\<close>

fun strcmp :: "bytes \<Rightarrow> bytes \<Rightarrow> int" where
  "strcmp [] [] = 0"
| "strcmp (a # as) [] = uint a"
| "strcmp [] (b # bs) = - uint b"
| "strcmp (a # as) (b # bs) =
     (if a = b then (if a = 0 then 0 else strcmp as bs) else uint a - uint b)"

definition hash_func_int8_t :: "8 word \<Rightarrow> 32 word" where
  "hash_func_int8_t v = scast v"

definition hash_func_int16_t :: "16 word \<Rightarrow> 32 word" where
  "hash_func_int16_t v = scast v"

definition hash_func_int32_t :: "32 word \<Rightarrow> 32 word" where
  "hash_func_int32_t v = v"

definition hash_func_int64_t :: "64 word \<Rightarrow> 32 word" where
  "hash_func_int64_t v = ucast (v XOR signed_drop_bit 32 v)"

definition hash_func_uint8_t :: "8 word \<Rightarrow> 32 word" where
  "hash_func_uint8_t v = ucast v"

definition hash_func_uint16_t :: "16 word \<Rightarrow> 32 word" where
  "hash_func_uint16_t v = ucast v"

definition hash_func_uint32_t :: "32 word \<Rightarrow> 32 word" where
  "hash_func_uint32_t v = v"

definition hash_func_uint64_t :: "64 word \<Rightarrow> 32 word" where
  "hash_func_uint64_t v = ucast (v XOR drop_bit 32 v)"

text \<open>\<open>(v1 > v2) - (v1 < v2)\<close>, on the signed and on the unsigned types.\<close>

definition cmp_func_signed :: "'a::len word \<Rightarrow> 'a word \<Rightarrow> int" where
  "cmp_func_signed v1 v2 = of_bool (sint v1 > sint v2) - of_bool (sint v1 < sint v2)"

definition cmp_func_unsigned :: "'a::len word \<Rightarrow> 'a word \<Rightarrow> int" where
  "cmp_func_unsigned v1 v2 = of_bool (uint v1 > uint v2) - of_bool (uint v1 < uint v2)"

subsection \<open>The table\<close>

datatype (dead 'k, 'v) hashtable_t = Hashtable
  (ht_size: int)
  (ht_cap: int)
  (ht_table: "('k \<times> 'v) list list")
  (ht_hash_func: "'k \<Rightarrow> 32 word")
  (ht_cmp_func: "'k \<Rightarrow> 'k \<Rightarrow> int")
  (ht_mutex: bool)

definition INIT_CAP :: int where
  "INIT_CAP = 16"

definition hashtable_init :: "('k \<Rightarrow> 32 word) \<Rightarrow> ('k \<Rightarrow> 'k \<Rightarrow> int) \<Rightarrow> ('k, 'v) hashtable_t" where
  "hashtable_init hf cf = Hashtable 0 INIT_CAP (replicate (nat INIT_CAP) []) hf cf False"

text \<open>\<open>hash_function\<close>: C's remainder has the sign of the dividend, so a negative hash gives a
  remainder between \<open>-(tablesize - 1)\<close> and 0, which is negated.\<close>

definition hash_function :: "int \<Rightarrow> int \<Rightarrow> int res" where
  "hash_function hash tablesize =
     (if tablesize = 0 then Inl DivByZero
      else let ret = hash smod tablesize
           in Inr (if ret < 0 then ret * (- 1) else ret))"

text \<open>The chain a key selects: \<open>hash_function(hash_func(key), cap)\<close> and the array access.\<close>

definition ht_index :: "('k \<Rightarrow> 32 word) \<Rightarrow> int \<Rightarrow> 'k \<Rightarrow> int res" where
  "ht_index hf cap k = hash_function (sint (hf k)) cap"

fun chain_get :: "('k \<Rightarrow> 'k \<Rightarrow> int) \<Rightarrow> 'k \<Rightarrow> ('k \<times> 'v) list \<Rightarrow> 'v option" where
  "chain_get cf k [] = None"
| "chain_get cf k ((k', v) # es) = (if cf k k' = 0 then Some v else chain_get cf k es)"

text \<open>\<open>hashtable_get\<close>: the returned flag, and the value written to \<open>*dst\<close> if there is one.\<close>

definition hashtable_get :: "('k, 'v) hashtable_t \<Rightarrow> 'k \<Rightarrow> (int \<times> 'v option) res" where
  "hashtable_get ht k =
     (if ht_mutex ht then Inl Blocked
      else rbind (ht_index (ht_hash_func ht) (ht_cap ht) k) (\<lambda>index.
           rbind (rd (ht_table ht) index) (\<lambda>chain.
           case chain_get (ht_cmp_func ht) k chain of
             Some v \<Rightarrow> Inr (1, Some v)
           | None \<Rightarrow> Inr (0, None))))"

definition ht_insert ::
  "('k \<times> 'v) \<Rightarrow> ('k \<times> 'v) list list \<Rightarrow> int \<Rightarrow> ('k \<Rightarrow> 32 word) \<Rightarrow> ('k \<times> 'v) list list res" where
  "ht_insert entry table tsize hf =
     rbind (ht_index hf tsize (fst entry)) (\<lambda>index.
     rbind (rd table index) (\<lambda>chain.
     Inr (table[nat index := chain @ [entry]])))"

definition grow_table :: "('k, 'v) hashtable_t \<Rightarrow> ('k, 'v) hashtable_t res" where
  "grow_table ht =
     rbind (check_int (ht_cap ht * 2)) (\<lambda>newcap.
     rbind (rds (ht_table ht) 0 (nat (ht_cap ht))) (\<lambda>table.
     rbind (rfold (\<lambda>chain newtable.
              rfold (\<lambda>e newtable. ht_insert e newtable newcap (ht_hash_func ht)) chain newtable)
            table (replicate (nat newcap) []))
       (\<lambda>newtable.
          Inr (Hashtable (ht_size ht) newcap newtable (ht_hash_func ht) (ht_cmp_func ht)
                 (ht_mutex ht)))))"

text \<open>The search of \<open>hashtable_put\<close> along a chain: replace the value of the first equal key,
  or append a new entry. The flag is the function's result.\<close>

fun chain_put :: "('k \<Rightarrow> 'k \<Rightarrow> int) \<Rightarrow> 'k \<Rightarrow> 'v \<Rightarrow> ('k \<times> 'v) list \<Rightarrow> ('k \<times> 'v) list \<times> int" where
  "chain_put cf k v [] = ([(k, v)], 0)"
| "chain_put cf k v ((k', v') # es) =
     (if cf k k' = 0 then ((k', v) # es, 1)
      else let (es', r) = chain_put cf k v es in ((k', v') # es', r))"

text \<open>\<open>size >= cap * LOAD_FACTOR\<close> with the load factor 0.75: both sides are exact in
  \<open>double\<close>. The counter goes up whether or not the key was present.\<close>

definition hashtable_put ::
  "('k, 'v) hashtable_t \<Rightarrow> 'k \<Rightarrow> 'v \<Rightarrow> (('k, 'v) hashtable_t \<times> int) res" where
  "hashtable_put ht k v =
     (if ht_mutex ht then Inl Blocked
      else rbind (if 4 * ht_size ht \<ge> 3 * ht_cap ht then grow_table ht else Inr ht) (\<lambda>ht.
           rbind (check_int (ht_size ht + 1)) (\<lambda>newsize.
           rbind (ht_index (ht_hash_func ht) (ht_cap ht) k) (\<lambda>index.
           rbind (rd (ht_table ht) index) (\<lambda>chain.
           let (chain', r) = chain_put (ht_cmp_func ht) k v chain in
           Inr (Hashtable newsize (ht_cap ht) ((ht_table ht)[nat index := chain'])
                  (ht_hash_func ht) (ht_cmp_func ht) False, r))))))"

fun chain_remove ::
  "('k \<Rightarrow> 'k \<Rightarrow> int) \<Rightarrow> 'k \<Rightarrow> ('k \<times> 'v) list \<Rightarrow> ('k \<times> 'v) list \<times> 'v option" where
  "chain_remove cf k [] = ([], None)"
| "chain_remove cf k ((k', v) # es) =
     (if cf k k' = 0 then (es, Some v)
      else let (es', r) = chain_remove cf k es in ((k', v) # es', r))"

text \<open>The counter goes down whether or not the key was present.\<close>

definition hashtable_remove ::
  "('k, 'v) hashtable_t \<Rightarrow> 'k \<Rightarrow> (('k, 'v) hashtable_t \<times> int \<times> 'v option) res" where
  "hashtable_remove ht k =
     (if ht_mutex ht then Inl Blocked
      else rbind (ht_index (ht_hash_func ht) (ht_cap ht) k) (\<lambda>index.
           rbind (check_int (ht_size ht - 1)) (\<lambda>newsize.
           rbind (rd (ht_table ht) index) (\<lambda>chain.
           let (chain', r) = chain_remove (ht_cmp_func ht) k chain in
           Inr (Hashtable newsize (ht_cap ht) ((ht_table ht)[nat index := chain'])
                  (ht_hash_func ht) (ht_cmp_func ht) False,
                (case r of None \<Rightarrow> 0 | Some _ \<Rightarrow> 1), r)))))"

definition hashtable_size :: "('k, 'v) hashtable_t \<Rightarrow> int" where
  "hashtable_size ht = ht_size ht"

abbreviation (input) HASHTABLE_ITER_CONTINUE :: int where "HASHTABLE_ITER_CONTINUE \<equiv> 1"
abbreviation (input) HASHTABLE_ITER_STOP :: int where "HASHTABLE_ITER_STOP \<equiv> 0"

text \<open>\<open>hashtable_foreach\<close> with a callback that has a state; the result is the number of
  entries for which the callback did not stop. The first component of the loop's state says
  whether the iteration goes on.\<close>

fun foreach_chain ::
  "('k \<Rightarrow> 'v \<Rightarrow> 's \<Rightarrow> int \<times> 's) \<Rightarrow> ('k \<times> 'v) list \<Rightarrow> bool \<times> int \<times> 's \<Rightarrow> bool \<times> int \<times> 's" where
  "foreach_chain ifn [] st = st"
| "foreach_chain ifn ((k, v) # es) (go, n, s) =
     (let (r, s) = ifn k v s in
      if r = HASHTABLE_ITER_STOP then (False, n, s)
      else foreach_chain ifn es (True, n + 1, s))"

fun foreach_table ::
  "('k \<Rightarrow> 'v \<Rightarrow> 's \<Rightarrow> int \<times> 's) \<Rightarrow> ('k \<times> 'v) list list \<Rightarrow> int \<times> 's \<Rightarrow> int \<times> 's" where
  "foreach_table ifn [] (n, s) = (n, s)"
| "foreach_table ifn (chain # table) (n, s) =
     (let (go, n, s) = foreach_chain ifn chain (True, n, s) in
      if go then foreach_table ifn table (n, s) else (n, s))"

definition hashtable_foreach ::
  "('k, 'v) hashtable_t \<Rightarrow> ('k \<Rightarrow> 'v \<Rightarrow> 's \<Rightarrow> int \<times> 's) \<Rightarrow> 's \<Rightarrow> (int \<times> 's) res" where
  "hashtable_foreach ht ifn arg =
     rbind (rds (ht_table ht) 0 (nat (ht_cap ht))) (\<lambda>table.
     Inr (foreach_table ifn table (0, arg)))"

subsection \<open>Iterators\<close>

text \<open>\<open>iter->next\<close> points at an entry: it is the rest of that entry's chain.\<close>

record ('k, 'v) hashtable_iter_t =
  it_ht :: "('k, 'v) hashtable_t"
  it_index :: int
  it_next :: "('k \<times> 'v) list"

text \<open>The loop \<open>while (index < cap && (next = table[index++]) == NULL);\<close>\<close>

function iter_scan ::
  "int \<Rightarrow> ('k \<times> 'v) list list \<Rightarrow> int \<Rightarrow> ('k \<times> 'v) list \<Rightarrow> (int \<times> ('k \<times> 'v) list) res" where
  "iter_scan cap table index nxt =
     (if index < cap then
        rbind (rd table index) (\<lambda>chain.
        if chain = [] then iter_scan cap table (index + 1) [] else Inr (index + 1, chain))
      else Inr (index, nxt))"
  by pat_completeness auto
termination
  by (relation "measure (\<lambda>(cap, table, index, nxt). nat (cap - index))") auto

declare iter_scan.simps [simp del]

definition hashtable_iterator :: "('k, 'v) hashtable_t \<Rightarrow> ('k, 'v) hashtable_iter_t res" where
  "hashtable_iterator ht =
     rbind (iter_scan (ht_cap ht) (ht_table ht) 0 []) (\<lambda>(index, nxt).
     Inr \<lparr>it_ht = ht, it_index = index, it_next = nxt\<rparr>)"

definition hashtable_iter_has_next :: "('k, 'v) hashtable_iter_t \<Rightarrow> bool" where
  "hashtable_iter_has_next iter \<longleftrightarrow> it_next iter \<noteq> []"

definition hashtable_iter_next ::
  "('k, 'v) hashtable_iter_t \<Rightarrow> (('k, 'v) hashtable_iter_t \<times> ('k \<times> 'v) option) res" where
  "hashtable_iter_next iter =
     (case it_next iter of
        [] \<Rightarrow> Inr (iter, None)
      | e # rest \<Rightarrow>
          if rest = [] then
            rbind (iter_scan (ht_cap (it_ht iter)) (ht_table (it_ht iter)) (it_index iter) [])
              (\<lambda>(index, nxt). Inr (iter\<lparr>it_index := index, it_next := nxt\<rparr>, Some e))
          else Inr (iter\<lparr>it_next := rest\<rparr>, Some e))"

text \<open>The callers' loop \<open>while (hashtable_iter_has_next(&iter)) hashtable_iter_next(...)\<close>:
  the pairs it hands out. Each step uses up one entry, so the number of entries plus one is
  enough fuel.\<close>

fun iter_pairs :: "nat \<Rightarrow> ('k, 'v) hashtable_iter_t \<Rightarrow> ('k \<times> 'v) list res" where
  "iter_pairs 0 iter = Inl NoFuel"
| "iter_pairs (Suc fuel) iter =
     (if \<not> hashtable_iter_has_next iter then Inr []
      else rbind (hashtable_iter_next iter) (\<lambda>(iter, r).
        case r of None \<Rightarrow> Inl UninitRead
        | Some e \<Rightarrow> rmap (\<lambda>es. e # es) (iter_pairs fuel iter)))"

definition ht_entries :: "('k, 'v) hashtable_t \<Rightarrow> ('k \<times> 'v) list" where
  "ht_entries ht = concat (ht_table ht)"

definition hashtable_pairs :: "('k, 'v) hashtable_t \<Rightarrow> ('k \<times> 'v) list res" where
  "hashtable_pairs ht =
     rbind (hashtable_iterator ht) (iter_pairs (Suc (length (ht_entries ht))))"

subsection \<open>Abstraction and invariant\<close>

definition ht_map :: "('k, 'v) hashtable_t \<Rightarrow> 'k \<rightharpoonup> 'v" where
  "ht_map ht = map_of (ht_entries ht)"

definition bucket :: "('k \<Rightarrow> 32 word) \<Rightarrow> nat \<Rightarrow> 'k \<Rightarrow> nat" where
  "bucket hf cap k = nat \<bar>sint (hf k)\<bar> mod cap"

definition table_wf :: "('k \<Rightarrow> bool) \<Rightarrow> ('k \<Rightarrow> 32 word) \<Rightarrow> ('k \<times> 'v) list list \<Rightarrow> bool" where
  "table_wf valid hf table \<longleftrightarrow>
     (\<forall>i < length table. distinct (map fst (table ! i)) \<and>
        (\<forall>k \<in> fst ` set (table ! i). valid k \<and> bucket hf (length table) k = i))"

definition ht_wf ::
  "('k \<Rightarrow> bool) \<Rightarrow> ('k \<Rightarrow> 32 word) \<Rightarrow> ('k \<Rightarrow> 'k \<Rightarrow> int) \<Rightarrow> ('k, 'v) hashtable_t \<Rightarrow> bool" where
  "ht_wf valid hf cf ht \<longleftrightarrow>
     ht_hash_func ht = hf \<and> ht_cmp_func ht = cf \<and> \<not> ht_mutex ht \<and>
     0 < ht_cap ht \<and> int (length (ht_table ht)) = ht_cap ht \<and>
     table_wf valid hf (ht_table ht)"

text \<open>The first value of \<open>size\<close> at which a put can overflow: three quarters of the greatest capacity. A table
  has room for \<open>n\<close> updates when \<open>n\<close> puts or removes cannot overflow its counter or its capacity.\<close>

definition PUT_LIMIT :: int where
  "PUT_LIMIT = 805306368"

definition ht_room :: "('k, 'v) hashtable_t \<Rightarrow> nat \<Rightarrow> bool" where
  "ht_room ht n \<longleftrightarrow> ht_size ht + int n \<le> PUT_LIMIT \<and> INT_MIN \<le> ht_size ht - int n"

text \<open>The counter is the number of entries.\<close>

definition ht_exact :: "('k, 'v) hashtable_t \<Rightarrow> bool" where
  "ht_exact ht \<longleftrightarrow> ht_size ht = int (length (ht_entries ht))"

subsection \<open>The index of a key\<close>

lemma hash_function_eq:
  assumes "0 < cap"
  shows "hash_function h cap = Inr (int (nat \<bar>h\<bar> mod nat cap))"
proof -
  have m: "int (nat \<bar>h\<bar> mod nat cap) = \<bar>h\<bar> mod cap" using assms by (simp add: zmod_int)
  show ?thesis
  proof (cases "0 \<le> h")
    case True
    then show ?thesis using assms m by (simp add: hash_function_def smod_mod_positive)
  next
    case False
    then have "h smod cap = - (\<bar>h\<bar> mod cap)" using assms by (simp add: smod_int_alt_def)
    moreover have "0 \<le> \<bar>h\<bar> mod cap" using assms by simp
    ultimately show ?thesis using assms m by (simp add: hash_function_def Let_def)
  qed
qed

lemma ht_index_eq: "0 < n \<Longrightarrow> ht_index hf (int n) k = Inr (int (bucket hf n k))"
  by (simp add: ht_index_def hash_function_eq bucket_def)

lemma bucket_less [simp]: "0 < n \<Longrightarrow> bucket hf n k < n"
  by (simp add: bucket_def)

subsection \<open>Chains\<close>

lemma map_of_same_set:
  assumes "distinct (map fst xs)" "distinct (map fst ys)" "set xs = set ys"
  shows "map_of xs = map_of ys"
  using assms map_of_inject_set by blast

lemma length_chain_put:
  "chain_put cf k v c = (c', r) \<Longrightarrow>
     (r = 0 \<or> r = 1) \<and> length c' = length c + (if r = 0 then 1 else 0)"
  by (induction c arbitrary: c') (auto split: if_splits prod.splits)

lemma length_chain_remove:
  "chain_remove cf k c = (c', r) \<Longrightarrow> length c = length c' + (if r = None then 0 else 1)"
  by (induction c arbitrary: c') (auto split: if_splits prod.splits)

subsection \<open>Well-formed arrays of chains\<close>

lemma table_wf_bucket:
  "table_wf valid hf t \<Longrightarrow> i < length t \<Longrightarrow> k \<in> fst ` set (t ! i) \<Longrightarrow>
     valid k \<and> bucket hf (length t) k = i"
  unfolding table_wf_def by blast

lemma keys_concat_nth: "i < length t \<Longrightarrow> fst ` set (t ! i) \<subseteq> fst ` set (concat t)"
  by (auto intro!: image_mono nth_mem)

lemma table_wf_keys:
  assumes "table_wf valid hf t" and "(k, v) \<in> set (concat t)"
  shows "valid k \<and> (k, v) \<in> set (t ! bucket hf (length t) k)"
proof -
  obtain c where c: "c \<in> set t" "(k, v) \<in> set c" using assms(2) by auto
  then obtain i where i: "i < length t" "(k, v) \<in> set (t ! i)"
    by (auto simp: in_set_conv_nth [of c])
  then have "k \<in> fst ` set (t ! i)" by force
  then show ?thesis using assms(1) i unfolding table_wf_def by auto
qed

lemma map_of_concat_agree:
  "\<forall>c \<in> set t. map_of c k = None \<or> map_of c k = Some v \<Longrightarrow> \<exists>c \<in> set t. map_of c k = Some v \<Longrightarrow>
     map_of (concat t) k = Some v"
proof (induction t)
  case Nil
  then show ?case by simp
next
  case (Cons c t)
  then show ?case by (cases "map_of c k") (auto simp: map_add_def)
qed

lemma map_of_concat_bucket:
  assumes wf: "table_wf valid hf t" and n: "0 < length t"
  shows "map_of (concat t) k = map_of (t ! bucket hf (length t) k) k"
proof (cases "map_of (t ! bucket hf (length t) k) k")
  case None
  have "k \<notin> fst ` set (concat t)"
  proof
    assume "k \<in> fst ` set (concat t)"
    then obtain v where "(k, v) \<in> set (concat t)" by (metis imageE prod.collapse)
    from table_wf_keys [OF wf this] None show False by (force simp: map_of_eq_None_iff)
  qed
  then have "map_of (concat t) k = None" by (simp only: map_of_eq_None_iff not_False_eq_True)
  then show ?thesis using None by simp
next
  case (Some v)
  let ?i = "bucket hf (length t) k"
  have "map_of c k = None \<or> map_of c k = Some v" if c: "c \<in> set t" for c
  proof -
    obtain j where j: "j < length t" "c = t ! j" using c by (auto simp: in_set_conv_nth)
    show ?thesis
    proof (cases "k \<in> fst ` set c")
      case True
      then have "j = ?i" using table_wf_bucket [OF wf j(1)] j by simp
      then show ?thesis using Some j by simp
    next
      case False
      then show ?thesis by (simp add: map_of_eq_None_iff)
    qed
  qed
  moreover have "t ! ?i \<in> set t" using n by simp
  ultimately show ?thesis using Some map_of_concat_agree [of t k v] by metis
qed

lemma table_wf_distinct:
  assumes "table_wf valid hf t"
  shows "distinct (map fst (concat t))"
proof -
  have "distinct (map fst (concat (take n t)))" if "n \<le> length t" for n
    using that
  proof (induction n)
    case 0
    then show ?case by simp
  next
    case (Suc n)
    have "fst ` set (t ! n) \<inter> fst ` set (concat (take n t)) = {}"
    proof (rule ccontr)
      assume "\<not> ?thesis"
      then obtain k where k: "k \<in> fst ` set (t ! n)" "k \<in> fst ` set (concat (take n t))" by blast
      then obtain c where c: "c \<in> set (take n t)" "k \<in> fst ` set c" by auto
      from c(1) obtain i where "i < n" "c = t ! i" by (auto simp: in_set_conv_nth)
      with c(2) have i: "i < n" "k \<in> fst ` set (t ! i)" by simp_all
      have "bucket hf (length t) k = n" "bucket hf (length t) k = i"
        using i k(1) Suc.prems table_wf_bucket [OF assms] by (metis Suc_le_eq less_trans)+
      with i(1) show False by simp
    qed
    moreover have "distinct (map fst (t ! n))" using assms Suc.prems unfolding table_wf_def by simp
    ultimately show ?case
      using Suc by (auto simp: take_Suc_conv_app_nth)
  qed
  from this [of "length t"] show ?thesis by simp
qed

lemma table_wf_update:
  assumes "table_wf valid hf t" and "j < length t" and "distinct (map fst c)"
    and "\<And>k. k \<in> fst ` set c \<Longrightarrow> valid k \<and> bucket hf (length t) k = j"
  shows "table_wf valid hf (t[j := c])"
  using assms unfolding table_wf_def by (auto simp: nth_list_update)

lemma table_map_update:
  assumes wf: "table_wf valid hf t" "table_wf valid hf (t[j := c])" and j: "j < length t"
    and c: "\<And>k. bucket hf (length t) k = j \<Longrightarrow> map_of c k = m' k"
    and m: "\<And>k. bucket hf (length t) k \<noteq> j \<Longrightarrow> map_of (concat t) k = m' k"
  shows "map_of (concat (t[j := c])) = m'"
proof
  fix k
  have n: "0 < length t" using j by linarith
  have "map_of (concat (t[j := c])) k = map_of (t[j := c] ! bucket hf (length t) k) k"
    using map_of_concat_bucket [OF wf(2)] n by simp
  also have "\<dots> = m' k"
    using c [of k] m [of k] map_of_concat_bucket [OF wf(1) n] j
    by (auto simp: nth_list_update)
  finally show "map_of (concat (t[j := c])) k = m' k" .
qed

lemma concat_update_mset:
  "j < length t \<Longrightarrow> mset (concat (t[j := c])) + mset (t ! j) = mset (concat t) + mset c"
proof (induction t arbitrary: j)
  case Nil
  then show ?case by simp
next
  case (Cons x t)
  then show ?case by (cases j) (auto simp: ac_simps)
qed

lemma concat_update_length:
  "j < length t \<Longrightarrow> length (concat (t[j := c])) + length (t ! j) = length (concat t) + length c"
  using arg_cong [OF concat_update_mset [of j t c], of size] by simp

lemma table_wf_empty: "table_wf valid hf (replicate n [])"
  by (simp add: table_wf_def)

subsection \<open>Growing\<close>

lemma rfold_concat: "rfold (\<lambda>c. rfold f c) t s = rfold f (concat t) s"
proof (induction t arbitrary: s)
  case Nil
  then show ?case by simp
next
  case (Cons c t)
  then have "rfold (\<lambda>c. rfold f c) t = rfold f (concat t)" by blast
  then show ?case by (simp add: rfold_append)
qed

lemma ht_insert_ok:
  assumes wf: "table_wf valid hf t" and n: "0 < length t" "int (length t) = cap"
    and e: "valid (fst e)" "fst e \<notin> fst ` set (concat t)"
  shows "\<exists>t'. ht_insert e t cap hf = Inr t' \<and> table_wf valid hf t' \<and> length t' = length t \<and>
           mset (concat t') = add_mset e (mset (concat t))"
proof -
  let ?j = "bucket hf (length t) (fst e)"
  have j: "?j < length t" using n by simp
  have "ht_insert e t cap hf = Inr (t[?j := t ! ?j @ [e]])"
    using j n by (simp add: ht_insert_def ht_index_eq flip: n(2))
  moreover have "fst e \<notin> fst ` set (t ! ?j)" using e(2) keys_concat_nth [OF j] by blast
  then have "table_wf valid hf (t[?j := t ! ?j @ [e]])"
    by (intro table_wf_update [OF wf j]) (use wf j e(1) in \<open>auto simp: table_wf_def\<close>)
  moreover have "mset (concat (t[?j := t ! ?j @ [e]])) = add_mset e (mset (concat t))"
    using concat_update_mset [OF j, of "t ! ?j @ [e]"] by simp
  ultimately show ?thesis by simp
qed

lemma ht_insert_all:
  assumes "table_wf valid hf t" "0 < length t" "int (length t) = cap"
    and "distinct (map fst es)" "\<And>k. k \<in> fst ` set es \<Longrightarrow> valid k \<and> k \<notin> fst ` set (concat t)"
  shows "\<exists>t'. rfold (\<lambda>e t. ht_insert e t cap hf) es t = Inr t' \<and> table_wf valid hf t' \<and>
           length t' = length t \<and> mset (concat t') = mset es + mset (concat t)"
  using assms
proof (induction es arbitrary: t)
  case Nil
  then show ?case by simp
next
  case (Cons e es)
  obtain t1 where t1: "ht_insert e t cap hf = Inr t1" "table_wf valid hf t1"
      "length t1 = length t" "mset (concat t1) = add_mset e (mset (concat t))"
    using ht_insert_ok [OF Cons.prems(1-3), of e] Cons.prems(5) by auto
  have "set (concat t1) = insert e (set (concat t))"
    using arg_cong [OF t1(4), of set_mset] by simp
  then have keys1: "fst ` set (concat t1) = insert (fst e) (fst ` set (concat t))" by simp
  have "\<exists>t'. rfold (\<lambda>e t. ht_insert e t cap hf) es t1 = Inr t' \<and> table_wf valid hf t' \<and>
           length t' = length t1 \<and> mset (concat t') = mset es + mset (concat t1)"
  proof (rule Cons.IH [OF t1(2)])
    fix k assume "k \<in> fst ` set es"
    then show "valid k \<and> k \<notin> fst ` set (concat t1)"
      using Cons.prems(4,5) unfolding keys1 by (metis distinct.simps(2) image_insert insert_iff
          list.map(2) list.set(2) list.set_map)
  qed (use Cons.prems t1 in simp_all)
  then show ?case using t1 by auto
qed

subsection \<open>Iteration\<close>

lemma iter_scan_rest:
  assumes "0 \<le> i" "i \<le> int (length t)"
  shows "\<exists>i' c. iter_scan (int (length t)) t i [] = Inr (i', c) \<and> i \<le> i' \<and> i' \<le> int (length t) \<and>
           c @ concat (drop (nat i') t) = concat (drop (nat i) t) \<and>
           (c = [] \<longrightarrow> concat (drop (nat i) t) = [])"
  using assms
proof (induction "nat (int (length t) - i)" arbitrary: i)
  case 0
  then have "i = int (length t)" by simp
  then show ?case by (simp add: iter_scan.simps)
next
  case (Suc d)
  then have i: "i < int (length t)" by simp
  then have r: "rd t i = Inr (t ! nat i)" using Suc.prems by (simp add: rd_def)
  have dr: "concat (drop (nat i) t) = t ! nat i @ concat (drop (nat (i + 1)) t)"
    using i Suc.prems by (simp add: nat_add_distrib flip: Cons_nth_drop_Suc)
  show ?case
  proof (cases "t ! nat i = []")
    case True
    have "\<exists>i' c. iter_scan (int (length t)) t (i + 1) [] = Inr (i', c) \<and> i + 1 \<le> i' \<and>
        i' \<le> int (length t) \<and> c @ concat (drop (nat i') t) = concat (drop (nat (i + 1)) t) \<and>
        (c = [] \<longrightarrow> concat (drop (nat (i + 1)) t) = [])"
      using Suc i by (intro Suc.hyps(1)) auto
    then show ?thesis
      using True r i dr by (force simp: iter_scan.simps [of "int (length t)" t i])
  next
    case False
    then show ?thesis
      using r i dr by (simp add: iter_scan.simps [of "int (length t)" t i])
  qed
qed

lemma iter_pairs_rest:
  assumes "int (length (ht_table (it_ht iter))) = ht_cap (it_ht iter)"
    and "0 \<le> it_index iter" "it_index iter \<le> ht_cap (it_ht iter)"
    and "it_next iter = [] \<longrightarrow> concat (drop (nat (it_index iter)) (ht_table (it_ht iter))) = []"
    and "length (it_next iter @ concat (drop (nat (it_index iter)) (ht_table (it_ht iter)))) < fuel"
  shows "iter_pairs fuel iter =
     Inr (it_next iter @ concat (drop (nat (it_index iter)) (ht_table (it_ht iter))))"
  using assms
proof (induction fuel arbitrary: iter)
  case 0
  then show ?case by simp
next
  case (Suc fuel)
  let ?t = "ht_table (it_ht iter)"
  show ?case
  proof (cases "it_next iter")
    case Nil
    then show ?thesis using Suc.prems(4) by (simp add: hashtable_iter_has_next_def)
  next
    case (Cons e rest)
    show ?thesis
    proof (cases "rest = []")
      case True
      obtain i' c where sc: "iter_scan (int (length ?t)) ?t (it_index iter) [] = Inr (i', c)"
          "it_index iter \<le> i'" "i' \<le> int (length ?t)"
          "c @ concat (drop (nat i') ?t) = concat (drop (nat (it_index iter)) ?t)"
          "c = [] \<longrightarrow> concat (drop (nat (it_index iter)) ?t) = []"
        using iter_scan_rest [of "it_index iter" ?t] Suc.prems(1-3) by auto
      let ?iter = "iter\<lparr>it_index := i', it_next := c\<rparr>"
      have "iter_pairs fuel ?iter = Inr (it_next ?iter @
          concat (drop (nat (it_index ?iter)) (ht_table (it_ht ?iter))))"
        using Suc.prems sc Cons True by (intro Suc.IH) (auto simp del: concat_eq_Nil_conv)
      then show ?thesis
        using Cons True sc Suc.prems(1)
        by (simp add: hashtable_iter_has_next_def hashtable_iter_next_def)
    next
      case False
      let ?iter = "iter\<lparr>it_next := rest\<rparr>"
      have "iter_pairs fuel ?iter = Inr (it_next ?iter @
          concat (drop (nat (it_index ?iter)) (ht_table (it_ht ?iter))))"
        using Suc.prems Cons False by (intro Suc.IH) auto
      then show ?thesis
        using Cons False by (simp add: hashtable_iter_has_next_def hashtable_iter_next_def)
    qed
  qed
qed

lemma hashtable_pairs_entries:
  assumes "int (length (ht_table ht)) = ht_cap ht"
  shows "hashtable_pairs ht = Inr (ht_entries ht)"
proof -
  obtain i' c where sc: "iter_scan (ht_cap ht) (ht_table ht) 0 [] = Inr (i', c)"
      "0 \<le> i'" "i' \<le> ht_cap ht" "c @ concat (drop (nat i') (ht_table ht)) = concat (ht_table ht)"
      "c = [] \<longrightarrow> concat (ht_table ht) = []"
    using iter_scan_rest [of 0 "ht_table ht"] assms by auto
  let ?iter = "\<lparr>it_ht = ht, it_index = i', it_next = c\<rparr>"
  have "iter_pairs (Suc (length (ht_entries ht))) ?iter =
     Inr (it_next ?iter @ concat (drop (nat (it_index ?iter)) (ht_table (it_ht ?iter))))"
    by (rule iter_pairs_rest) (use sc assms in \<open>auto simp: ht_entries_def simp del: concat_eq_Nil_conv\<close>)
  then show ?thesis
    using sc by (simp add: hashtable_pairs_def hashtable_iterator_def ht_entries_def)
qed

lemma foreach_table_flat:
  "foreach_table ifn t (n, s) = snd (foreach_chain ifn (concat t) (True, n, s))"
proof -
  have app: "foreach_chain ifn (c @ d) (True, n, s) =
     (let (go, n, s) = foreach_chain ifn c (True, n, s) in
      if go then foreach_chain ifn d (True, n, s) else (False, n, s))"
    for c d and n :: int and s
  proof (induction c arbitrary: n s)
    case Nil
    then show ?case by simp
  next
    case (Cons e c)
    then show ?case by (cases e) (auto split: prod.splits)
  qed
  show ?thesis
    by (induction t arbitrary: n s) (auto simp: app split: prod.splits)
qed

subsection \<open>The interface of a finite map\<close>

text \<open>
  What the bencode dictionaries rely on. \<open>put\<close> and \<open>get\<close> return the C result and, for
  \<open>get\<close> and \<open>remove\<close>, the value stored through \<open>dst\<close>.
\<close>

locale finite_map_adt =
  fixes invar :: "'m \<Rightarrow> bool"
    and abs :: "'m \<Rightarrow> 'k \<rightharpoonup> 'v"
    and valid :: "'k \<Rightarrow> bool"
    and empty :: 'm
    and put :: "'m \<Rightarrow> 'k \<Rightarrow> 'v \<Rightarrow> ('m \<times> int) res"
    and get :: "'m \<Rightarrow> 'k \<Rightarrow> (int \<times> 'v option) res"
    and remove :: "'m \<Rightarrow> 'k \<Rightarrow> ('m \<times> int \<times> 'v option) res"
    and pairs :: "'m \<Rightarrow> ('k \<times> 'v) list res"
    and room :: "'m \<Rightarrow> nat \<Rightarrow> bool"
  assumes invar_empty: "invar empty"
    and abs_empty: "abs empty = Map.empty"
    and put_ok: "invar m \<Longrightarrow> valid k \<Longrightarrow> room m (Suc n) \<Longrightarrow>
      \<exists>m'. put m k v = Inr (m', if k \<in> dom (abs m) then 1 else 0) \<and> invar m' \<and>
        abs m' = (abs m)(k \<mapsto> v) \<and> room m' n"
    and get_ok: "invar m \<Longrightarrow> valid k \<Longrightarrow>
      get m k = Inr (case abs m k of None \<Rightarrow> (0, None) | Some v \<Rightarrow> (1, Some v))"
    and remove_ok: "invar m \<Longrightarrow> valid k \<Longrightarrow> room m (Suc n) \<Longrightarrow>
      \<exists>m'. remove m k = Inr (m', if k \<in> dom (abs m) then 1 else 0, abs m k) \<and> invar m' \<and>
        abs m' = (abs m)(k := None) \<and> room m' n"
    and pairs_ok: "invar m \<Longrightarrow> \<exists>es. pairs m = Inr es \<and> distinct (map fst es) \<and> map_of es = abs m"
begin

lemma get_after_put:
  assumes "invar m" "valid k" "valid k'" "room m (Suc n)" "put m k v = Inr (m', r)"
  shows "get m' k' = (if k' = k then Inr (1, Some v) else get m k')"
proof -
  have "invar m'" "abs m' = (abs m)(k \<mapsto> v)" using put_ok [OF assms(1,2,4), of v] assms(5) by auto
  then show ?thesis using get_ok assms(1,3) by simp
qed

lemma get_after_remove:
  assumes "invar m" "valid k" "valid k'" "room m (Suc n)" "remove m k = Inr (m', r, d)"
  shows "get m' k' = (if k' = k then Inr (0, None) else get m k')"
proof -
  have "invar m'" "abs m' = (abs m)(k := None)" using remove_ok [OF assms(1,2,4)] assms(5) by auto
  then show ?thesis using get_ok assms(1,3) by simp
qed

lemma put_all:
  assumes "invar m" "\<And>k v. (k, v) \<in> set kvs \<Longrightarrow> valid k" "room m (length kvs)"
  shows "\<exists>m'. rfold (\<lambda>(k, v) m. rmap fst (put m k v)) kvs m = Inr m' \<and> invar m' \<and>
           abs m' = abs m ++ map_of (rev kvs)"
  using assms
proof (induction kvs arbitrary: m)
  case Nil
  then show ?case by simp
next
  case (Cons kv kvs)
  obtain k v where kv: "kv = (k, v)" by fastforce
  then have "valid k" using Cons.prems(2) [of k v] by simp
  then obtain m1 r where m1: "put m k v = Inr (m1, r)" "invar m1" "abs m1 = (abs m)(k \<mapsto> v)" "room m1 (length kvs)"
    using put_ok [OF Cons.prems(1), of k "length kvs" v] Cons.prems(3) by auto
  have "\<exists>m'. rfold (\<lambda>(k, v) m. rmap fst (put m k v)) kvs m1 = Inr m' \<and> invar m' \<and>
           abs m' = abs m1 ++ map_of (rev kvs)"
    using Cons.prems(2) m1(2,4) by (intro Cons.IH) auto
  then show ?case using kv m1 by auto
qed

end

subsection \<open>The table implements a finite map\<close>

text \<open>
  The contract of the functions a table is given: on valid keys, \<open>cmp_func\<close> returns 0 exactly
  for equal keys. Nothing is asked of the hash function.
\<close>

locale key_ops =
  fixes valid :: "'k \<Rightarrow> bool"
    and hf :: "'k \<Rightarrow> 32 word"
    and cf :: "'k \<Rightarrow> 'k \<Rightarrow> int"
  assumes cmp_zero: "valid a \<Longrightarrow> valid b \<Longrightarrow> cf a b = 0 \<longleftrightarrow> a = b"
begin

lemma chain_get_map_of:
  "valid k \<Longrightarrow> (\<And>k'. k' \<in> fst ` set c \<Longrightarrow> valid k') \<Longrightarrow> chain_get cf k c = map_of c k"
  by (induction c) (auto simp: cmp_zero)

lemma chain_put_map_of:
  assumes "valid k" "\<And>k'. k' \<in> fst ` set c \<Longrightarrow> valid k'" "chain_put cf k v c = (c', r)"
  shows "map_of c' = (map_of c)(k \<mapsto> v) \<and> fst ` set c' = insert k (fst ` set c) \<and>
     r = (if k \<in> fst ` set c then 1 else 0) \<and> (distinct (map fst c) \<longrightarrow> distinct (map fst c'))"
  using assms
proof (induction c arbitrary: c')
  case Nil
  then show ?case by auto
next
  case (Cons e c)
  obtain k1 v1 where e: "e = (k1, v1)" by fastforce
  then have k1: "valid k1" using Cons.prems(2) by simp
  show ?case
  proof (cases "k = k1")
    case True
    with Cons.prems(1,3) e k1 show ?thesis by (auto simp: cmp_zero fun_eq_iff)
  next
    case False
    obtain c1 where c1: "chain_put cf k v c = (c1, r)" "c' = (k1, v1) # c1"
      using Cons.prems(1,3) e k1 False by (auto simp: cmp_zero split: prod.splits)
    have "map_of c1 = (map_of c)(k \<mapsto> v) \<and> fst ` set c1 = insert k (fst ` set c) \<and>
      r = (if k \<in> fst ` set c then 1 else 0) \<and> (distinct (map fst c) \<longrightarrow> distinct (map fst c1))"
      using Cons.prems(1,2) c1(1) by (intro Cons.IH) auto
    with c1(2) e False show ?thesis by (auto simp: fun_upd_twist)
  qed
qed

lemma chain_remove_map_of:
  assumes "valid k" "\<And>k'. k' \<in> fst ` set c \<Longrightarrow> valid k'" "chain_remove cf k c = (c', r)"
    and "distinct (map fst c)"
  shows "map_of c' = (map_of c)(k := None) \<and> fst ` set c' = fst ` set c - {k} \<and>
     r = map_of c k \<and> distinct (map fst c')"
  using assms
proof (induction c arbitrary: c')
  case Nil
  then show ?case by auto
next
  case (Cons e c)
  obtain k1 v1 where e: "e = (k1, v1)" by fastforce
  then have k1: "valid k1" using Cons.prems(2) by simp
  show ?case
  proof (cases "k = k1")
    case True
    with Cons.prems e k1 have "c' = c" "r = Some v1" "k \<notin> fst ` set c" "distinct (map fst c)"
      by (auto simp: cmp_zero)
    with True e show ?thesis by (auto simp: fun_eq_iff map_of_eq_None_iff)
  next
    case False
    obtain c1 where c1: "chain_remove cf k c = (c1, r)" "c' = (k1, v1) # c1"
      using Cons.prems(1,3) e k1 False by (auto simp: cmp_zero split: prod.splits)
    have "map_of c1 = (map_of c)(k := None) \<and> fst ` set c1 = fst ` set c - {k} \<and>
      r = map_of c k \<and> distinct (map fst c1)"
      using Cons.prems(1,2,4) c1(1) e by (intro Cons.IH) auto
    with c1(2) e False Cons.prems(4) show ?thesis by (auto simp: fun_upd_twist)
  qed
qed

lemma init_wf: "ht_wf valid hf cf (hashtable_init hf cf)"
  by (simp add: ht_wf_def hashtable_init_def INIT_CAP_def table_wf_empty)

lemma init_map: "ht_map (hashtable_init hf cf) = Map.empty"
  by (simp add: ht_map_def ht_entries_def hashtable_init_def)

lemma get_correct:
  assumes wf: "ht_wf valid hf cf ht" and k: "valid k"
  shows "hashtable_get ht k =
     Inr (case ht_map ht k of None \<Rightarrow> (0, None) | Some v \<Rightarrow> (1, Some v))"
proof -
  let ?t = "ht_table ht" and ?j = "bucket hf (length (ht_table ht)) k"
  have t: "table_wf valid hf ?t" "0 < length ?t" "ht_cap ht = int (length ?t)"
    using wf by (auto simp: ht_wf_def)
  have j: "?j < length ?t" using t by simp
  have "chain_get cf k (?t ! ?j) = map_of (?t ! ?j) k"
    using table_wf_bucket [OF t(1) j] by (intro chain_get_map_of k) blast
  moreover have "ht_map ht k = map_of (?t ! ?j) k"
    using map_of_concat_bucket [OF t(1,2)] by (simp add: ht_map_def ht_entries_def)
  ultimately show ?thesis
    using wf t j by (simp add: hashtable_get_def ht_index_eq ht_wf_def split: option.split)
qed

lemma grow_correct:
  assumes wf: "ht_wf valid hf cf ht" and cap: "ht_cap ht * 2 \<le> INT_MAX"
  shows "\<exists>ht'. grow_table ht = Inr ht' \<and> ht_wf valid hf cf ht' \<and> ht_cap ht' = 2 * ht_cap ht \<and>
           ht_size ht' = ht_size ht \<and> mset (ht_entries ht') = mset (ht_entries ht) \<and>
           ht_map ht' = ht_map ht"
proof -
  let ?t = "ht_table ht" and ?cap = "ht_cap ht * 2"
  have t: "table_wf valid hf ?t" "ht_cap ht = int (length ?t)" "0 < ht_cap ht"
    using wf by (auto simp: ht_wf_def)
  have "\<exists>t'. rfold (\<lambda>e t. ht_insert e t ?cap hf) (concat ?t) (replicate (nat ?cap) []) = Inr t' \<and>
      table_wf valid hf t' \<and> length t' = length (replicate (nat ?cap) ([] :: ('k \<times> 'a) list)) \<and>
      mset (concat t') = mset (concat ?t) + mset (concat (replicate (nat ?cap) []))"
  proof (rule ht_insert_all)
    fix k assume "k \<in> fst ` set (concat ?t)"
    then obtain v where "(k, v) \<in> set (concat ?t)" by (metis imageE prod.collapse)
    then show "valid k \<and> k \<notin> fst ` set (concat (replicate (nat ?cap) ([] :: ('k \<times> 'a) list)))"
      using table_wf_keys [OF t(1)] by simp
  qed (use t table_wf_distinct [OF t(1)] in \<open>simp_all add: table_wf_empty\<close>)
  then obtain t' where t':
      "rfold (\<lambda>e t. ht_insert e t ?cap hf) (concat ?t) (replicate (nat ?cap) []) = Inr t'"
      "table_wf valid hf t'" "length t' = nat ?cap" "mset (concat t') = mset (concat ?t)"
    by auto
  have "map_of (concat t') = map_of (concat ?t)"
    using table_wf_distinct [OF t(1)] table_wf_distinct [OF t'(2)] mset_eq_setD [OF t'(4)]
    by (intro map_of_same_set)
  then show ?thesis
    using wf cap t t'
    by (simp add: grow_table_def rfold_concat rds_def ht_wf_def ht_map_def ht_entries_def)
qed

lemma put_chain:
  assumes wf: "ht_wf valid hf cf ht" and k: "valid k"
  defines "j \<equiv> bucket hf (length (ht_table ht)) k"
  assumes cp: "chain_put cf k v (ht_table ht ! j) = (c', r)"
  shows "table_wf valid hf ((ht_table ht)[j := c']) \<and>
    map_of (concat ((ht_table ht)[j := c'])) = (ht_map ht)(k \<mapsto> v) \<and>
    r = (if k \<in> dom (ht_map ht) then 1 else 0) \<and>
    length (concat ((ht_table ht)[j := c'])) =
      length (ht_entries ht) + (if k \<in> dom (ht_map ht) then 0 else 1)"
proof -
  let ?t = "ht_table ht"
  have t: "table_wf valid hf ?t" "0 < length ?t" using wf by (auto simp: ht_wf_def)
  have j: "j < length ?t" using t by (simp add: j_def)
  note b = table_wf_bucket [OF t(1) j]
  have "map_of c' = (map_of (?t ! j))(k \<mapsto> v) \<and> fst ` set c' = insert k (fst ` set (?t ! j)) \<and>
    r = (if k \<in> fst ` set (?t ! j) then 1 else 0) \<and>
    (distinct (map fst (?t ! j)) \<longrightarrow> distinct (map fst c'))"
    by (rule chain_put_map_of [OF k _ cp]) (use b in blast)
  then have c': "map_of c' = (map_of (?t ! j))(k \<mapsto> v)"
    "fst ` set c' = insert k (fst ` set (?t ! j))"
    "r = (if k \<in> fst ` set (?t ! j) then 1 else 0)"
    "distinct (map fst (?t ! j)) \<longrightarrow> distinct (map fst c')"
    by simp_all
  have m: "ht_map ht k' = map_of (?t ! bucket hf (length ?t) k') k'" for k'
    using map_of_concat_bucket [OF t] by (simp add: ht_map_def ht_entries_def)
  have dom: "k \<in> dom (ht_map ht) \<longleftrightarrow> k \<in> fst ` set (?t ! j)"
    unfolding domIff m j_def [symmetric] by (simp add: map_of_eq_None_iff)
  have wf': "table_wf valid hf (?t[j := c'])"
  proof (rule table_wf_update [OF t(1) j])
    show "distinct (map fst c')" using c'(4) t(1) j by (simp add: table_wf_def)
    fix k' assume "k' \<in> fst ` set c'"
    then consider "k' = k" | "k' \<in> fst ` set (?t ! j)" unfolding c'(2) by blast
    then show "valid k' \<and> bucket hf (length ?t) k' = j"
    proof cases
      case 1
      then show ?thesis using k by (simp add: j_def)
    next
      case 2
      then show ?thesis by (rule b)
    qed
  qed
  moreover have "map_of (concat (?t[j := c'])) = (ht_map ht)(k \<mapsto> v)"
    by (rule table_map_update [OF t(1) wf' j])
      (use c'(1) m in \<open>auto simp: ht_map_def ht_entries_def j_def\<close>)
  moreover have "length (concat (?t[j := c'])) =
      length (ht_entries ht) + (if k \<in> dom (ht_map ht) then 0 else 1)"
    using concat_update_length [OF j, of c'] length_chain_put [OF cp] c'(3) dom
    by (auto simp: ht_entries_def split: if_splits)
  ultimately show ?thesis using c'(3) dom by simp
qed

text \<open>A put below \<open>PUT_LIMIT\<close> succeeds; any other either does or overflows.\<close>

lemma put_done:
  assumes wf: "ht_wf valid hf cf ht" and k: "valid k" and size: "INT_MIN \<le> ht_size ht + 1" "ht_size ht + 1 \<le> INT_MAX"
    and cap: "4 * ht_size ht \<ge> 3 * ht_cap ht \<Longrightarrow> ht_cap ht * 2 \<le> INT_MAX"
  shows "\<exists>ht'. hashtable_put ht k v = Inr (ht', if k \<in> dom (ht_map ht) then 1 else 0) \<and>
    ht_wf valid hf cf ht' \<and> ht_map ht' = (ht_map ht)(k \<mapsto> v) \<and>
    ht_size ht' = ht_size ht + 1 \<and>
    ht_cap ht' = (if 4 * ht_size ht \<ge> 3 * ht_cap ht then 2 * ht_cap ht else ht_cap ht) \<and>
    length (ht_entries ht') = length (ht_entries ht) + (if k \<in> dom (ht_map ht) then 0 else 1)"
proof -
  let ?g = "if 4 * ht_size ht \<ge> 3 * ht_cap ht then grow_table ht else Inr ht"
  obtain ht1 where h1: "?g = Inr ht1" "ht_wf valid hf cf ht1" "ht_map ht1 = ht_map ht"
      "ht_size ht1 = ht_size ht" "length (ht_entries ht1) = length (ht_entries ht)"
      "ht_cap ht1 = (if 4 * ht_size ht \<ge> 3 * ht_cap ht then 2 * ht_cap ht else ht_cap ht)"
  proof (cases "4 * ht_size ht \<ge> 3 * ht_cap ht")
    case True
    obtain ht' where "grow_table ht = Inr ht'" "ht_wf valid hf cf ht'" "ht_cap ht' = 2 * ht_cap ht"
        "ht_size ht' = ht_size ht" "mset (ht_entries ht') = mset (ht_entries ht)"
        "ht_map ht' = ht_map ht"
      using grow_correct [OF wf cap [OF True]] by auto
    moreover from this(5) have "length (ht_entries ht') = length (ht_entries ht)"
      by (rule mset_eq_length)
    ultimately show ?thesis using True by (intro that [of ht']) simp_all
  next
    case False
    with wf show ?thesis by (intro that [of ht]) simp_all
  qed
  let ?j = "bucket hf (length (ht_table ht1)) k"
  obtain c' r where cp: "chain_put cf k v (ht_table ht1 ! ?j) = (c', r)" by fastforce
  have t: "int (length (ht_table ht1)) = ht_cap ht1" "0 < length (ht_table ht1)"
      "ht_hash_func ht1 = hf" "ht_cmp_func ht1 = cf" "\<not> ht_mutex ht"
    using h1(2) wf by (auto simp: ht_wf_def)
  let ?ht' = "Hashtable (ht_size ht1 + 1) (ht_cap ht1) ((ht_table ht1)[?j := c']) hf cf False"
  have "check_int (ht_size ht1 + 1) = Inr (ht_size ht1 + 1)" using size h1(4) by simp
  then have "hashtable_put ht k v = Inr (?ht', r)"
    using t cp h1(1) by (simp add: hashtable_put_def ht_index_eq flip: t(1) del: if_split)
  moreover note put_chain [OF h1(2) k cp]
  moreover have "0 < ht_cap ht" using wf by (simp add: ht_wf_def)
  ultimately show ?thesis
    using h1(2-) t by (simp add: ht_wf_def ht_map_def ht_entries_def)
qed

lemma put_correct:
  assumes wf: "ht_wf valid hf cf ht" and k: "valid k" and room: "ht_room ht (Suc n)"
  shows "\<exists>ht'. hashtable_put ht k v = Inr (ht', if k \<in> dom (ht_map ht) then 1 else 0) \<and>
    ht_wf valid hf cf ht' \<and> ht_map ht' = (ht_map ht)(k \<mapsto> v) \<and>
    ht_size ht' = ht_size ht + 1 \<and>
    ht_cap ht' = (if 4 * ht_size ht \<ge> 3 * ht_cap ht then 2 * ht_cap ht else ht_cap ht) \<and>
    length (ht_entries ht') = length (ht_entries ht) + (if k \<in> dom (ht_map ht) then 0 else 1)"
  by (rule put_done [OF wf k]) (use room in \<open>simp_all add: ht_room_def PUT_LIMIT_def\<close>)

lemma put_cases:
  assumes wf: "ht_wf valid hf cf ht" and k: "valid k"
  shows "hashtable_put ht k v = Inl SignedOverflow \<or>
    (\<exists>ht'. hashtable_put ht k v = Inr (ht', if k \<in> dom (ht_map ht) then 1 else 0) \<and>
    ht_wf valid hf cf ht' \<and> ht_map ht' = (ht_map ht)(k \<mapsto> v) \<and>
    ht_size ht' = ht_size ht + 1 \<and>
    ht_cap ht' = (if 4 * ht_size ht \<ge> 3 * ht_cap ht then 2 * ht_cap ht else ht_cap ht) \<and>
    length (ht_entries ht') = length (ht_entries ht) + (if k \<in> dom (ht_map ht) then 0 else 1))"
proof (cases "4 * ht_size ht \<ge> 3 * ht_cap ht \<and> INT_MAX < ht_cap ht * 2")
  case True
  then have "grow_table ht = Inl SignedOverflow" by (simp add: grow_table_def check_int_def)
  then show ?thesis using True wf by (simp add: hashtable_put_def ht_wf_def)
next
  case cap: False
  show ?thesis
  proof (cases "INT_MIN \<le> ht_size ht + 1 \<and> ht_size ht + 1 \<le> INT_MAX")
    case True
    with cap show ?thesis by (intro disjI2 put_done [OF wf k]) simp_all
  next
    case False
    have "\<exists>ht1. (if 4 * ht_size ht \<ge> 3 * ht_cap ht then grow_table ht else Inr ht) = Inr ht1 \<and> ht_size ht1 = ht_size ht"
      using grow_correct [OF wf] cap by auto
    then obtain ht1 where "(if 4 * ht_size ht \<ge> 3 * ht_cap ht then grow_table ht else Inr ht) = Inr ht1" "ht_size ht1 = ht_size ht"
      by blast
    moreover have "check_int (ht_size ht + 1) = Inl SignedOverflow"
      using False by (simp add: check_int_eq_Inl)
    moreover have "\<not> ht_mutex ht" using wf by (simp add: ht_wf_def)
    ultimately have "hashtable_put ht k v = Inl SignedOverflow" by (simp add: hashtable_put_def)
    then show ?thesis ..
  qed
qed

lemma remove_correct:
  assumes wf: "ht_wf valid hf cf ht" and k: "valid k" and size: "INT_MIN \<le> ht_size ht - 1" "ht_size ht - 1 \<le> INT_MAX"
  shows "\<exists>ht'. hashtable_remove ht k =
      Inr (ht', if k \<in> dom (ht_map ht) then 1 else 0, ht_map ht k) \<and>
    ht_wf valid hf cf ht' \<and> ht_map ht' = (ht_map ht)(k := None) \<and>
    ht_size ht' = ht_size ht - 1 \<and> ht_cap ht' = ht_cap ht \<and>
    length (ht_entries ht) = length (ht_entries ht') + (if k \<in> dom (ht_map ht) then 1 else 0)"
proof -
  let ?t = "ht_table ht"
  let ?j = "bucket hf (length ?t) k"
  have t: "table_wf valid hf ?t" "0 < length ?t" "int (length ?t) = ht_cap ht"
    using wf by (auto simp: ht_wf_def)
  have j: "?j < length ?t" using t by simp
  note b = table_wf_bucket [OF t(1) j]
  obtain c' r where cr: "chain_remove cf k (?t ! ?j) = (c', r)" by fastforce
  have "distinct (map fst (?t ! ?j))" using t(1) j by (simp add: table_wf_def)
  then have "map_of c' = (map_of (?t ! ?j))(k := None) \<and> fst ` set c' = fst ` set (?t ! ?j) - {k} \<and>
    r = map_of (?t ! ?j) k \<and> distinct (map fst c')"
    by (intro chain_remove_map_of [OF k _ cr]) (use b in blast)
  then have c': "map_of c' = (map_of (?t ! ?j))(k := None)" "fst ` set c' = fst ` set (?t ! ?j) - {k}"
    "r = map_of (?t ! ?j) k" "distinct (map fst c')"
    by simp_all
  have m: "ht_map ht k' = map_of (?t ! bucket hf (length ?t) k') k'" for k'
    using map_of_concat_bucket [OF t(1,2)] by (simp add: ht_map_def ht_entries_def)
  have wf': "table_wf valid hf (?t[?j := c'])"
    by (rule table_wf_update [OF t(1) j c'(4)]) (rule b, use c'(2) in blast)
  have "map_of (concat (?t[?j := c'])) = (ht_map ht)(k := None)"
    by (rule table_map_update [OF t(1) wf' j]) (use c'(1) m in \<open>auto simp: ht_map_def ht_entries_def\<close>)
  moreover have "length (concat ?t) = length (concat (?t[?j := c'])) + (if r = None then 0 else 1)"
    using concat_update_length [OF j, of c'] length_chain_remove [OF cr] by (auto split: if_splits)
  moreover let ?ht' = "Hashtable (ht_size ht - 1) (ht_cap ht) (?t[?j := c']) hf cf False"
  have "hashtable_remove ht k = Inr (?ht', case r of None \<Rightarrow> 0 | Some _ \<Rightarrow> 1, r)"
    using wf j cr size by (simp add: hashtable_remove_def ht_index_eq ht_wf_def flip: t(3))
  moreover have "r = ht_map ht k" using c'(3) m by simp
  moreover have "ht_wf valid hf cf ?ht'" using wf' wf by (simp add: ht_wf_def)
  ultimately show ?thesis
    by (auto simp: ht_map_def ht_entries_def domIff split: option.splits)
qed

lemma remove_cases:
  assumes wf: "ht_wf valid hf cf ht" and k: "valid k"
  shows "hashtable_remove ht k = Inl SignedOverflow \<or> INT_MIN \<le> ht_size ht - 1 \<and> ht_size ht - 1 \<le> INT_MAX"
proof -
  have "0 < length (ht_table ht)" "int (length (ht_table ht)) = ht_cap ht" "\<not> ht_mutex ht" "ht_hash_func ht = hf"
    using wf by (auto simp: ht_wf_def)
  then show ?thesis by (auto simp: hashtable_remove_def ht_index_eq check_int_def simp flip: \<open>_ = ht_cap ht\<close>)
qed

lemma pairs_correct:
  "ht_wf valid hf cf ht \<Longrightarrow>
     \<exists>es. hashtable_pairs ht = Inr es \<and> distinct (map fst es) \<and> map_of es = ht_map ht"
  using hashtable_pairs_entries [of ht] table_wf_distinct [of valid hf "ht_table ht"]
  by (simp add: ht_wf_def ht_map_def ht_entries_def)

end

sublocale key_ops \<subseteq> finite_map_adt
  "ht_wf valid hf cf" ht_map valid "hashtable_init hf cf"
  hashtable_put hashtable_get hashtable_remove hashtable_pairs ht_room
proof unfold_locales
  fix m :: "('k, 'b) hashtable_t" and k v n
  assume m: "ht_wf valid hf cf m" "valid k" and n: "ht_room m (Suc n)"
  from put_correct [OF m n, of v] obtain m'
    where "hashtable_put m k v = Inr (m', if k \<in> dom (ht_map m) then 1 else 0)"
      "ht_wf valid hf cf m'" "ht_map m' = (ht_map m)(k \<mapsto> v)" and "ht_size m' = ht_size m + 1"
    by blast
  moreover from this(4) n have "ht_room m' n" by (simp add: ht_room_def)
  ultimately show "\<exists>m'. hashtable_put m k v = Inr (m', if k \<in> dom (ht_map m) then 1 else 0) \<and>
      ht_wf valid hf cf m' \<and> ht_map m' = (ht_map m)(k \<mapsto> v) \<and> ht_room m' n"
    by blast
next
  fix m :: "('k, 'b) hashtable_t" and k n
  assume m: "ht_wf valid hf cf m" "valid k" and n: "ht_room m (Suc n)"
  then have "INT_MIN \<le> ht_size m - 1" "ht_size m - 1 \<le> INT_MAX" by (simp_all add: ht_room_def PUT_LIMIT_def)
  from remove_correct [OF m this] obtain m'
    where "hashtable_remove m k = Inr (m', if k \<in> dom (ht_map m) then 1 else 0, ht_map m k)"
      "ht_wf valid hf cf m'" "ht_map m' = (ht_map m)(k := None)" and "ht_size m' = ht_size m - 1"
    by blast
  moreover from this(4) n have "ht_room m' n" by (simp add: ht_room_def)
  ultimately show "\<exists>m'. hashtable_remove m k = Inr (m', if k \<in> dom (ht_map m) then 1 else 0, ht_map m k) \<and>
      ht_wf valid hf cf m' \<and> ht_map m' = (ht_map m)(k := None) \<and> ht_room m' n"
    by blast
qed (fact init_wf init_map get_correct pairs_correct)+

lemma init_room: "int n \<le> PUT_LIMIT \<Longrightarrow> ht_room (hashtable_init hf cf) n"
  by (simp add: ht_room_def hashtable_init_def PUT_LIMIT_def)

subsection \<open>The keys of the header\<close>

lemma strcmp_zero: "0 \<notin> set a \<Longrightarrow> 0 \<notin> set b \<Longrightarrow> strcmp a b = 0 \<longleftrightarrow> a = b"
  by (induction a b rule: strcmp.induct) (auto simp: uint_0_iff word_uint_eqI)

abbreviation c_string :: "bytes \<Rightarrow> bool" where
  "c_string s \<equiv> 0 \<notin> set s"

interpretation str_keys: key_ops c_string fnv_1a_hash_str strcmp
  by unfold_locales (rule strcmp_zero)

lemma cmp_func_zero:
  "cmp_func_signed a b = 0 \<longleftrightarrow> a = b" "cmp_func_unsigned a b = 0 \<longleftrightarrow> a = b"
proof -
  have sg: "of_bool (x > y) - of_bool (x < y) = (0 :: int) \<longleftrightarrow> x = y" for x y :: int
    by (cases x y rule: linorder_cases) auto
  show "cmp_func_signed a b = 0 \<longleftrightarrow> a = b"
    unfolding cmp_func_signed_def sg by (metis signed_word_eqI)
  show "cmp_func_unsigned a b = 0 \<longleftrightarrow> a = b"
    unfolding cmp_func_unsigned_def sg by (metis word_uint_eqI)
qed

interpretation int8_keys: key_ops "\<lambda>_. True" hash_func_int8_t cmp_func_signed
  by unfold_locales (rule cmp_func_zero)

interpretation int16_keys: key_ops "\<lambda>_. True" hash_func_int16_t cmp_func_signed
  by unfold_locales (rule cmp_func_zero)

interpretation int32_keys: key_ops "\<lambda>_. True" hash_func_int32_t cmp_func_signed
  by unfold_locales (rule cmp_func_zero)

interpretation int64_keys: key_ops "\<lambda>_. True" hash_func_int64_t cmp_func_signed
  by unfold_locales (rule cmp_func_zero)

interpretation uint8_keys: key_ops "\<lambda>_. True" hash_func_uint8_t cmp_func_unsigned
  by unfold_locales (rule cmp_func_zero)

interpretation uint16_keys: key_ops "\<lambda>_. True" hash_func_uint16_t cmp_func_unsigned
  by unfold_locales (rule cmp_func_zero)

interpretation uint32_keys: key_ops "\<lambda>_. True" hash_func_uint32_t cmp_func_unsigned
  by unfold_locales (rule cmp_func_zero)

interpretation uint64_keys: key_ops "\<lambda>_. True" hash_func_uint64_t cmp_func_unsigned
  by unfold_locales (rule cmp_func_zero)

subsection \<open>Sequences of operations\<close>

text \<open>
  A client of the table is a sequence of calls. \<open>ht_run\<close> performs it and collects the
  results; \<open>map_run\<close> is the same sequence on a finite map, the specification.
\<close>

datatype ('k, 'v) ht_op = OpPut 'k 'v | OpGet 'k | OpRemove 'k

fun op_key :: "('k, 'v) ht_op \<Rightarrow> 'k" where
  "op_key (OpPut k v) = k"
| "op_key (OpGet k) = k"
| "op_key (OpRemove k) = k"

fun ht_step :: "('k, 'v) ht_op \<Rightarrow> ('k, 'v) hashtable_t \<Rightarrow>
    (('k, 'v) hashtable_t \<times> int \<times> 'v option) res" where
  "ht_step (OpPut k v) ht = rmap (\<lambda>(ht', r). (ht', r, None)) (hashtable_put ht k v)"
| "ht_step (OpGet k) ht = rmap (\<lambda>(r, d). (ht, r, d)) (hashtable_get ht k)"
| "ht_step (OpRemove k) ht = hashtable_remove ht k"

fun ht_run :: "('k, 'v) ht_op list \<Rightarrow> ('k, 'v) hashtable_t \<Rightarrow>
    (('k, 'v) hashtable_t \<times> (int \<times> 'v option) list) res" where
  "ht_run [] ht = Inr (ht, [])"
| "ht_run (p # ops) ht =
     rbind (ht_step p ht) (\<lambda>(ht, r, d). rmap (\<lambda>(ht, rs). (ht, (r, d) # rs)) (ht_run ops ht))"

fun map_step :: "('k, 'v) ht_op \<Rightarrow> ('k \<rightharpoonup> 'v) \<Rightarrow> ('k \<rightharpoonup> 'v) \<times> int \<times> 'v option" where
  "map_step (OpPut k v) m = (m(k \<mapsto> v), of_bool (m k \<noteq> None), None)"
| "map_step (OpGet k) m = (m, of_bool (m k \<noteq> None), m k)"
| "map_step (OpRemove k) m = (m(k := None), of_bool (m k \<noteq> None), m k)"

fun map_run :: "('k, 'v) ht_op list \<Rightarrow> ('k \<rightharpoonup> 'v) \<Rightarrow> ('k \<rightharpoonup> 'v) \<times> (int \<times> 'v option) list" where
  "map_run [] m = (m, [])"
| "map_run (p # ops) m =
     (let (m, r) = map_step p m; (m, rs) = map_run ops m in (m, r # rs))"

text \<open>What the counter does: up on every put, down on every remove.\<close>

fun op_delta :: "('k, 'v) ht_op \<Rightarrow> int" where
  "op_delta (OpPut k v) = 1"
| "op_delta (OpGet k) = 0"
| "op_delta (OpRemove k) = - 1"

text \<open>The calls that count: the puts and the removes.\<close>

fun updates :: "('k, 'v) ht_op list \<Rightarrow> nat" where
  "updates [] = 0"
| "updates (p # ops) = (if op_delta p = 0 then updates ops else Suc (updates ops))"

text \<open>What a call, and a sequence of calls, owe to the specification.\<close>

definition refines_step ::
  "('k \<Rightarrow> bool) \<Rightarrow> ('k \<Rightarrow> 32 word) \<Rightarrow> ('k \<Rightarrow> 'k \<Rightarrow> int) \<Rightarrow> ('k, 'v) ht_op \<Rightarrow> ('k, 'v) hashtable_t \<Rightarrow> bool" where
  "refines_step valid hf cf p ht \<longleftrightarrow>
     (\<exists>ht'. ht_step p ht = Inr (ht', snd (map_step p (ht_map ht))) \<and> ht_wf valid hf cf ht' \<and>
        ht_map ht' = fst (map_step p (ht_map ht)) \<and> ht_size ht' = ht_size ht + op_delta p)"

definition refines_run ::
  "('k \<Rightarrow> bool) \<Rightarrow> ('k \<Rightarrow> 32 word) \<Rightarrow> ('k \<Rightarrow> 'k \<Rightarrow> int) \<Rightarrow> ('k, 'v) ht_op list \<Rightarrow> ('k, 'v) hashtable_t \<Rightarrow> bool" where
  "refines_run valid hf cf ops ht \<longleftrightarrow>
     (\<exists>ht'. ht_run ops ht = Inr (ht', snd (map_run ops (ht_map ht))) \<and> ht_wf valid hf cf ht' \<and>
        ht_map ht' = fst (map_run ops (ht_map ht)) \<and>
        ht_size ht' = ht_size ht + sum_list (map op_delta ops))"

context key_ops
begin

lemma step_refines:
  assumes wf: "ht_wf valid hf cf ht" and k: "valid (op_key p)"
    and room: "op_delta p = 0 \<or> ht_room ht (Suc n)"
  shows "refines_step valid hf cf p ht"
proof (cases p)
  case (OpPut k v)
  then have k: "valid k" and r: "ht_room ht (Suc n)" using k room by simp_all
  from put_correct [OF wf k r, where v = v] OpPut show ?thesis
    by (auto simp: domIff refines_step_def)
next
  case (OpGet k)
  then have "valid k" using k by simp
  from get_correct [OF wf this] OpGet wf show ?thesis
    by (auto simp: refines_step_def split: option.splits)
next
  case (OpRemove k)
  then have "valid k" "INT_MIN \<le> ht_size ht - 1" "ht_size ht - 1 \<le> INT_MAX"
    using k room by (simp_all add: ht_room_def PUT_LIMIT_def)
  from remove_correct [OF wf this] OpRemove show ?thesis
    by (auto simp: domIff refines_step_def)
qed

lemma step_cases:
  assumes wf: "ht_wf valid hf cf ht" and k: "valid (op_key p)"
  shows "ht_step p ht = Inl SignedOverflow \<or> refines_step valid hf cf p ht"
proof (cases p)
  case (OpPut k v)
  then have "valid k" using k by simp
  from put_cases [OF wf this, of v] show ?thesis
  proof (elim disjE exE conjE)
    fix ht'
    assume "hashtable_put ht k v = Inr (ht', if k \<in> dom (ht_map ht) then 1 else 0)"
      "ht_wf valid hf cf ht'" "ht_map ht' = (ht_map ht)(k \<mapsto> v)" "ht_size ht' = ht_size ht + 1"
    then show ?thesis using OpPut by (simp add: domIff refines_step_def)
  qed (simp add: OpPut)
next
  case (OpGet k)
  then show ?thesis using step_refines [OF wf k, of 0] by simp
next
  case (OpRemove k)
  then have v: "valid k" using k by simp
  from remove_cases [OF wf v] show ?thesis
  proof
    assume "INT_MIN \<le> ht_size ht - 1 \<and> ht_size ht - 1 \<le> INT_MAX"
    with remove_correct [OF wf v] OpRemove show ?thesis
      by (auto simp: domIff refines_step_def)
  qed (simp add: OpRemove)
qed

lemma run_Cons:
  assumes "refines_step valid hf cf p ht"
  obtains ht1 where "ht_wf valid hf cf ht1" "ht_size ht1 = ht_size ht + op_delta p"
    "refines_run valid hf cf ops ht1 \<Longrightarrow> refines_run valid hf cf (p # ops) ht"
    "ht_run ops ht1 = Inl e \<Longrightarrow> ht_run (p # ops) ht = Inl e"
proof -
  obtain m1 r d where ms: "map_step p (ht_map ht) = (m1, r, d)" by (metis prod_cases3)
  with assms obtain ht1 where h1: "ht_step p ht = Inr (ht1, r, d)" "ht_wf valid hf cf ht1"
      "ht_map ht1 = m1" "ht_size ht1 = ht_size ht + op_delta p"
    by (auto simp: refines_step_def)
  show ?thesis
    by (rule that [OF h1(2,4)]) (use h1 ms in \<open>auto simp: refines_run_def split: prod.splits\<close>)
qed

lemma run_refines:
  "ht_wf valid hf cf ht \<Longrightarrow> list_all (valid \<circ> op_key) ops \<Longrightarrow> ht_room ht (updates ops) \<Longrightarrow>
     refines_run valid hf cf ops ht"
proof (induction ops arbitrary: ht)
  case Nil
  then show ?case by (simp add: refines_run_def)
next
  case (Cons p ops)
  have st: "refines_step valid hf cf p ht"
    by (rule step_refines [of _ _ "updates ops"]) (use Cons.prems in \<open>auto split: if_splits\<close>)
  have d: "op_delta p \<in> {1, 0, - 1}" by (cases p) simp_all
  from st show ?case
  proof (rule run_Cons [where ops = ops])
    fix ht1
    assume "ht_wf valid hf cf ht1" "ht_size ht1 = ht_size ht + op_delta p"
      "refines_run valid hf cf ops ht1 \<Longrightarrow> refines_run valid hf cf (p # ops) ht"
    moreover from this(2) d have "ht_room ht1 (updates ops)"
      using Cons.prems(3) by (auto simp: ht_room_def split: if_splits)
    ultimately show ?thesis using Cons.IH Cons.prems(2) by simp
  qed
qed

lemma run_cases:
  "ht_wf valid hf cf ht \<Longrightarrow> list_all (valid \<circ> op_key) ops \<Longrightarrow>
     ht_run ops ht = Inl SignedOverflow \<or> refines_run valid hf cf ops ht"
proof (induction ops arbitrary: ht)
  case Nil
  then show ?case by (simp add: refines_run_def)
next
  case (Cons p ops)
  then have v: "valid (op_key p)" by simp
  from step_cases [OF Cons.prems(1) v] show ?case
  proof
    assume "refines_step valid hf cf p ht"
    then show ?thesis
    proof (rule run_Cons [where ops = ops and e = SignedOverflow])
      fix ht1
      assume "ht_wf valid hf cf ht1" "refines_run valid hf cf ops ht1 \<Longrightarrow> refines_run valid hf cf (p # ops) ht"
        "ht_run ops ht1 = Inl SignedOverflow \<Longrightarrow> ht_run (p # ops) ht = Inl SignedOverflow"
      then show ?thesis using Cons.IH [of ht1] Cons.prems(2) by auto
    qed
  qed simp
qed

lemma load_step:
  assumes "ht_wf valid hf cf ht" "valid k" "hashtable_put ht k v = Inr (ht', r)"
    and "16 dvd ht_cap ht" "4 * ht_size ht \<le> 3 * ht_cap ht"
    and "int (length (ht_entries ht)) \<le> ht_size ht"
  shows "ht_wf valid hf cf ht' \<and> 16 dvd ht_cap ht' \<and> 4 * ht_size ht' \<le> 3 * ht_cap ht' \<and>
    int (length (ht_entries ht')) \<le> ht_size ht'"
proof -
  obtain c where c: "ht_cap ht = 16 * c" using assms(4) by (rule dvdE)
  have "0 < ht_cap ht" using assms(1) by (simp add: ht_wf_def)
  then show ?thesis
    using put_cases [OF assms(1,2), of v] assms(3,5,6) c by auto
qed

lemma load_all:
  assumes "ht_wf valid hf cf ht" "\<And>k v. (k, v) \<in> set kvs \<Longrightarrow> valid k"
    and "16 dvd ht_cap ht" "4 * ht_size ht \<le> 3 * ht_cap ht"
    and "int (length (ht_entries ht)) \<le> ht_size ht"
    and "rfold (\<lambda>(k, v) ht. rmap fst (hashtable_put ht k v)) kvs ht = Inr ht'"
  shows "16 dvd ht_cap ht' \<and> 4 * ht_size ht' \<le> 3 * ht_cap ht' \<and>
    int (length (ht_entries ht')) \<le> ht_size ht'"
  using assms
proof (induction kvs arbitrary: ht)
  case Nil
  then show ?case by simp
next
  case (Cons kv kvs)
  obtain k v where kv: "kv = (k, v)" by fastforce
  obtain ht1 r where h1: "hashtable_put ht k v = Inr (ht1, r)"
      "rfold (\<lambda>(k, v) ht. rmap fst (hashtable_put ht k v)) kvs ht1 = Inr ht'"
    using Cons.prems(6) kv by (auto simp: rmap_def rbind_eq_Inr)
  have "valid k" using Cons.prems(2) [of k v] kv by simp
  from load_step [OF Cons.prems(1) this h1(1) Cons.prems(3-5)]
  show ?case using Cons.prems(2) h1(2) by (intro Cons.IH) auto
qed

end

subsection \<open>Properties\<close>

text \<open>C2: Any sequence of puts, gets and removes with string keys on a new table either succeeds,
  and then returns, call by call, the results the same calls have on a finite map (growth of
  the table is invisible; the table stays well formed, it represents the final map, and its
  counter is the number of puts minus the number of removes), or it overflows one of the table's
  two \<open>int\<close>s, which takes more than \<open>PUT_LIMIT\<close> = 805306368 puts and removes.\<close>

theorem hashtable_run_refines_map:
  assumes "list_all (c_string \<circ> op_key) ops"
  shows "(\<exists>ht. ht_run ops (hashtable_init fnv_1a_hash_str strcmp) =
        Inr (ht, snd (map_run ops Map.empty)) \<and>
      ht_wf c_string fnv_1a_hash_str strcmp ht \<and> ht_map ht = fst (map_run ops Map.empty) \<and>
      hashtable_size ht = sum_list (map op_delta ops)) \<or>
    ht_run ops (hashtable_init fnv_1a_hash_str strcmp) = Inl SignedOverflow \<and>
      PUT_LIMIT < int (updates ops)"
proof -
  let ?i = "hashtable_init fnv_1a_hash_str strcmp :: (bytes, 'a) hashtable_t"
  have "refines_run c_string fnv_1a_hash_str strcmp ops ?i \<or>
      ht_run ops ?i = Inl SignedOverflow \<and> PUT_LIMIT < int (updates ops)"
    using str_keys.run_cases [OF str_keys.init_wf assms]
      str_keys.run_refines [OF str_keys.init_wf assms init_room] by force
  then show ?thesis
    by (simp add: refines_run_def str_keys.init_map hashtable_size_def)
      (simp add: hashtable_init_def)
qed

theorem hashtable_run_refines_map_witness:
  "\<exists>ht. ht_run [OpPut [97] (1 :: int), OpPut [98] 2, OpPut [97] 3, OpGet [97], OpRemove [98],
        OpGet [98]] (hashtable_init fnv_1a_hash_str strcmp) =
      Inr (ht, [(0, None), (0, None), (1, None), (1, Some 3), (1, Some 2), (0, None)]) \<and>
    hashtable_size ht = 2"
  using hashtable_run_refines_map [of "[OpPut [97] (1 :: int), OpPut [98] 2, OpPut [97] 3,
      OpGet [97], OpRemove [98], OpGet [98]]"]
  by (auto simp: PUT_LIMIT_def)

text \<open>The same refinement for tables with 64-bit integer keys, whose hash folds the upper
  half of the key into the lower.\<close>

lemma hashtable_run_refines_map_int64:
  assumes "int (updates ops) \<le> PUT_LIMIT"
  shows "\<exists>ht. ht_run ops (hashtable_init hash_func_int64_t cmp_func_signed) =
      Inr (ht, snd (map_run ops Map.empty)) \<and> ht_map ht = fst (map_run ops Map.empty)"
  using int64_keys.run_refines [OF int64_keys.init_wf _ init_room [OF assms]]
  by (auto simp: int64_keys.init_map list_all_iff refines_run_def)

text \<open>Growing a table doubles its capacity and keeps every entry, the map it stands for
  and the invariant.\<close>

lemma grow_table_preserves_map:
  assumes "ht_wf c_string fnv_1a_hash_str strcmp ht" and "ht_cap ht * 2 \<le> INT_MAX"
  shows "\<exists>ht'. grow_table ht = Inr ht' \<and> ht_wf c_string fnv_1a_hash_str strcmp ht' \<and>
    ht_cap ht' = 2 * ht_cap ht \<and> mset (ht_entries ht') = mset (ht_entries ht) \<and>
    ht_map ht' = ht_map ht"
  using str_keys.grow_correct [OF assms] by (elim exE conjE) (intro exI conjI)

lemma grow_table_preserves_map_witness:
  "\<exists>ht'. grow_table (hashtable_init fnv_1a_hash_str strcmp :: (bytes, int) hashtable_t) = Inr ht' \<and>
     ht_cap ht' = 32 \<and> ht_map ht' = Map.empty"
proof -
  have "ht_cap (hashtable_init fnv_1a_hash_str strcmp :: (bytes, int) hashtable_t) = 16"
    by (simp add: hashtable_init_def INIT_CAP_def)
  with grow_table_preserves_map [OF str_keys.init_wf, where 'a = int] show ?thesis
    by (auto simp: str_keys.init_map)
qed

text \<open>C30: An iterator over a well-formed table ends and hands out every key of the map exactly
  once, with its value; \<open>hashtable_foreach\<close> visits the same entries in the same order and,
  when the callback never stops it, returns their number.\<close>

theorem hashtable_iteration_complete:
  assumes "ht_wf c_string fnv_1a_hash_str strcmp ht"
  shows "\<exists>es. hashtable_pairs ht = Inr es \<and> distinct (map fst es) \<and> map_of es = ht_map ht \<and>
    hashtable_foreach ht (\<lambda>k v acc. (HASHTABLE_ITER_CONTINUE, (k, v) # acc)) [] =
      Inr (int (length es), rev es)"
proof -
  have len: "int (length (ht_table ht)) = ht_cap ht" using assms by (simp add: ht_wf_def)
  have "foreach_chain (\<lambda>k v acc. (HASHTABLE_ITER_CONTINUE, (k, v) # acc)) es (True, n, acc) =
      (True, n + int (length es), rev es @ acc)" for es :: "(bytes \<times> 'a) list" and n acc
    by (induction es arbitrary: n acc) auto
  moreover have "nat (ht_cap ht) = length (ht_table ht)" using len by simp
  ultimately have "hashtable_foreach ht (\<lambda>k v acc. (HASHTABLE_ITER_CONTINUE, (k, v) # acc)) [] =
      Inr (int (length (ht_entries ht)), rev (ht_entries ht))"
    by (simp add: hashtable_foreach_def rds_def foreach_table_flat ht_entries_def)
  then show ?thesis
    using hashtable_pairs_entries [OF len] str_keys.pairs_correct [OF assms] by auto
qed

theorem hashtable_iteration_complete_witness:
  "\<exists>es. hashtable_pairs (hashtable_init fnv_1a_hash_str strcmp :: (bytes, int) hashtable_t) = Inr es \<and>
     map_of es = Map.empty"
  using hashtable_iteration_complete [OF str_keys.init_wf]
  by (auto simp: str_keys.init_map)

text \<open>Putting a key that is already present updates its value but still counts it: a table
  whose counter was the number of its entries no longer has that property afterwards, and it
  has it exactly when the key was new.\<close>

lemma hashtable_put_size_drift:
  assumes "ht_wf c_string fnv_1a_hash_str strcmp ht" and "c_string k" and "ht_exact ht"
    and "ht_room ht (Suc 0)"
  shows "\<exists>ht' r. hashtable_put ht k v = Inr (ht', r) \<and>
    (ht_exact ht' \<longleftrightarrow> k \<notin> dom (ht_map ht)) \<and> (r = 1 \<longleftrightarrow> k \<in> dom (ht_map ht))"
proof -
  obtain ht' where "hashtable_put ht k v = Inr (ht', if k \<in> dom (ht_map ht) then 1 else 0)"
      "ht_size ht' = ht_size ht + 1"
      "length (ht_entries ht') = length (ht_entries ht) + (if k \<in> dom (ht_map ht) then 0 else 1)"
    using str_keys.put_correct [OF assms(1,2,4), where v = v] by auto
  with assms(3) show ?thesis by (auto simp: ht_exact_def)
qed

lemma hashtable_put_size_drift_witness:
  "\<exists>ht' r. hashtable_put (hashtable_init fnv_1a_hash_str strcmp) [97] (1 :: int) = Inr (ht', r) \<and>
     ht_exact ht' \<and> r \<noteq> 1"
proof -
  have "ht_exact (hashtable_init fnv_1a_hash_str strcmp :: (bytes, int) hashtable_t)"
    by (simp add: ht_exact_def hashtable_init_def ht_entries_def)
  from hashtable_put_size_drift [OF str_keys.init_wf _ this init_room, of "[97]" 1]
  show ?thesis by (auto simp: str_keys.init_map PUT_LIMIT_def)
qed

text \<open>The load factor holds: after any number of puts into a new table, the number of
  entries is at most three quarters of the capacity, which is a multiple of 16.\<close>

lemma hashtable_load_bound:
  assumes "list_all (c_string \<circ> fst) kvs" and "int (length kvs) \<le> PUT_LIMIT"
  shows "\<exists>ht. rfold (\<lambda>(k, v) ht. rmap fst (hashtable_put ht k v)) kvs
      (hashtable_init fnv_1a_hash_str strcmp) = Inr ht \<and>
    16 dvd ht_cap ht \<and> 4 * int (length (ht_entries ht)) \<le> 3 * ht_cap ht"
proof -
  let ?i = "hashtable_init fnv_1a_hash_str strcmp :: (bytes, 'a) hashtable_t"
  have k: "c_string k" if "(k, v) \<in> set kvs" for k v using assms that by (auto simp: list_all_iff)
  have "\<exists>ht. rfold (\<lambda>(k, v) ht. rmap fst (hashtable_put ht k v)) kvs ?i = Inr ht \<and>
      ht_wf c_string fnv_1a_hash_str strcmp ht \<and> ht_map ht = ht_map ?i ++ map_of (rev kvs)"
    by (rule str_keys.put_all [OF str_keys.init_wf _ init_room [OF assms(2)]]) (rule k)
  then obtain ht where ht: "rfold (\<lambda>(k, v) ht. rmap fst (hashtable_put ht k v)) kvs ?i = Inr ht"
    by blast
  have "16 dvd ht_cap ht \<and> 4 * ht_size ht \<le> 3 * ht_cap ht \<and>
      int (length (ht_entries ht)) \<le> ht_size ht"
    by (rule str_keys.load_all [OF str_keys.init_wf _ _ _ _ ht, OF k])
      (simp_all add: hashtable_init_def INIT_CAP_def ht_entries_def)
  with ht show ?thesis by auto
qed

lemma hashtable_load_bound_witness:
  "\<exists>ht. rfold (\<lambda>(k, v) ht. rmap fst (hashtable_put ht k v)) [([97], 1), ([98], 2 :: int)]
      (hashtable_init fnv_1a_hash_str strcmp) = Inr ht \<and>
    4 * int (length (ht_entries ht)) \<le> 3 * ht_cap ht"
proof -
  have "list_all (c_string \<circ> fst) [([97], 1), ([98], 2 :: int)]" by simp
  from hashtable_load_bound [OF this] show ?thesis by (auto simp: PUT_LIMIT_def)
qed

text \<open>For every 32-bit hash and every positive table size the computed index lies inside
  the table, and it is the absolute value of the signed hash modulo the size.\<close>

lemma hash_function_in_range:
  assumes "0 < tablesize"
  shows "\<exists>i. hash_function (sint (w :: 32 word)) tablesize = Inr i \<and> 0 \<le> i \<and> i < tablesize \<and>
    i = \<bar>sint w\<bar> mod tablesize"
  using assms hash_function_eq [OF assms, of "sint w"] by (simp add: zmod_int)

lemma hash_function_in_range_witness:
  "hash_function (sint (4294967279 :: 32 word)) 16 = Inr 1"
  using hash_function_in_range [of 16 "4294967279"] by auto

end
