(* ===== verification/Flood_Bencode.thy ===== *)
theory Flood_Bencode
  imports Flood_Hashtable
begin

section \<open>Bencode values and the decoder (src/util/bencode.c)\<close>

text \<open>
  \<open>bencode_value\<close> is the tagged union of \<open>includes/util/bencode.h\<close>, each alternative with
  the \<open>start\<close> and \<open>end\<close> offsets the decoder records. A string's bytes stand for \<open>ptr\<close> and
  \<open>len\<close> together; a list holds its elements in order (the sequence a \<open>list_t\<close> built by
  \<open>list_append\<close> represents, by the results of the list theory); a dictionary holds the
  concrete hash table.
  A decoding function takes the buffer, the \<open>len\<close> argument and the position, and yields a
  C error code or the value and the new position. Every access to the buffer goes through
  \<open>rd\<close>, so reading past the allocated bytes is an outcome, and the two decimal accumulators
  are checked for overflow. Two bounds make the recursion structural: the depth of nesting
  (\<open>len + 1\<close>) and the number of rounds of a list or dictionary loop (the remaining bytes
  plus one). They are enough for every input, because each nested value and each round uses
  up at least one byte (\<open>bencode_parse_total\<close>).
  The inductive predicates \<open>benc\<close>, \<open>bencs\<close> and \<open>bencd\<close> are the grammar of the inputs the
  decoder accepts, with their meaning as abstract values; the decoder is proved sound and
  complete for it.
\<close>

subsection \<open>Values\<close>

datatype bencode_value =
    BencString bytes int int
  | BencInteger int int int
  | BencList "bencode_value list" int int
  | BencDict "(bytes, bencode_value) hashtable_t" int int

type_synonym bencode_dict = "(bytes, bencode_value) hashtable_t"

fun bv_start :: "bencode_value \<Rightarrow> int" where
  "bv_start (BencString _ s _) = s"
| "bv_start (BencInteger _ s _) = s"
| "bv_start (BencList _ s _) = s"
| "bv_start (BencDict _ s _) = s"

fun bv_end :: "bencode_value \<Rightarrow> int" where
  "bv_end (BencString _ _ e) = e"
| "bv_end (BencInteger _ _ e) = e"
| "bv_end (BencList _ _ e) = e"
| "bv_end (BencDict _ _ e) = e"

type_synonym 'a parse = "(int + 'a \<times> int) res"

abbreviation fails :: "int \<Rightarrow> 'a parse" where
  "fails code \<equiv> Inr (Inl code)"

abbreviation gives :: "'a \<Rightarrow> int \<Rightarrow> 'a parse" where
  "gives x pos \<equiv> Inr (Inr (x, pos))"

text \<open>Go on with the parsed value and the position, or return the error code.\<close>

definition pbind :: "'a parse \<Rightarrow> ('a \<Rightarrow> int \<Rightarrow> 'b parse) \<Rightarrow> 'b parse" where
  "pbind m f = rbind m (\<lambda>r. case r of Inl code \<Rightarrow> fails code | Inr (x, pos) \<Rightarrow> f x pos)"

lemma pbind_simps [simp]:
  "pbind (Inl e) f = Inl e"
  "pbind (fails c) f = fails c"
  "pbind (gives x pos) f = f x pos"
  by (simp_all add: pbind_def)

lemma pbind_cong [fundef_cong]:
  "m = m' \<Longrightarrow> (\<And>x pos. m' = gives x pos \<Longrightarrow> f x pos = f' x pos) \<Longrightarrow> pbind m f = pbind m' f'"
  by (auto simp: pbind_def intro!: rbind_cong split: sum.split)

subsection \<open>Decoding\<close>

definition digit_val :: "byte \<Rightarrow> int" where
  "digit_val c = uint c - 48"

text \<open>The loop over decimal digits that strings and integers share; after each digit the
  position is checked against \<open>len\<close>.\<close>

function digits_loop :: "bytes \<Rightarrow> int \<Rightarrow> int \<Rightarrow> int \<Rightarrow> int parse" where
  "digits_loop string len pos n =
     rbind (rd string pos) (\<lambda>c.
     if isdigit c then
       rbind (check_int (n * 10)) (\<lambda>m.
       rbind (check_int (m + digit_val c)) (\<lambda>n.
       if pos + 1 \<ge> len then fails (- 1)
       else digits_loop string len (pos + 1) n))
     else gives n pos)"
  by pat_completeness auto
termination
  by (relation "measure (\<lambda>(string, len, pos, n). nat (len - pos))") auto

declare digits_loop.simps [simp del]

text \<open>The loop that copies \<open>n\<close> bytes of a string.\<close>

fun copy_loop :: "bytes \<Rightarrow> int \<Rightarrow> int \<Rightarrow> nat \<Rightarrow> bytes parse" where
  "copy_loop string len pos 0 = gives [] pos"
| "copy_loop string len pos (Suc n) =
     (if pos \<ge> len then fails (- 1)
      else rbind (rd string pos) (\<lambda>c.
           pbind (copy_loop string len (pos + 1) n) (\<lambda>cs pos. gives (c # cs) pos)))"

definition b_parse_string :: "bytes \<Rightarrow> int \<Rightarrow> int \<Rightarrow> byte \<Rightarrow> int \<Rightarrow> bencode_value parse" where
  "b_parse_string string len pos first start =
     pbind (digits_loop string len pos (digit_val first)) (\<lambda>n pos.
     rbind (rd string pos) (\<lambda>c.
     if c \<noteq> chr_colon then fails (- 2)
     else
       rbind (check_int (n + 1)) (\<lambda>_.
       pbind (copy_loop string len (pos + 1) (nat n)) (\<lambda>parsed_str pos.
       gives (BencString parsed_str start (pos - 1)) pos))))"

definition b_parse_int :: "bytes \<Rightarrow> int \<Rightarrow> int \<Rightarrow> int \<Rightarrow> bencode_value parse" where
  "b_parse_int string len pos start =
     (if pos \<ge> len then fails (- 1)
      else rbind (rd string pos) (\<lambda>c.
        let neg = (c = chr_minus);
            pos = (if neg then pos + 1 else pos)
        in pbind (digits_loop string len pos 0) (\<lambda>num pos.
           let num = (if neg then num * (- 1) else num) in
           rbind (rd string pos) (\<lambda>c.
           if c \<noteq> chr_e then fails (- 2)
           else gives (BencInteger num start pos) (pos + 1)))))"

text \<open>\<open>b_list_loop\<close> and \<open>b_dict_loop\<close> are the \<open>while\<close> loops of \<open>b_parse_list\<close> and
  \<open>b_parse_dict\<close>, with the recursive call to \<open>b_parse_any\<close> as an argument and a bound on
  the number of rounds. A dictionary key is the C string at \<open>key.string.ptr\<close>: its bytes up
  to the first NUL.\<close>

fun b_list_loop ::
  "(int \<Rightarrow> bencode_value parse) \<Rightarrow> nat \<Rightarrow> bytes \<Rightarrow> int \<Rightarrow> int \<Rightarrow> bencode_value list \<Rightarrow>
     bencode_value list parse" where
  "b_list_loop any 0 string len pos list = Inl NoFuel"
| "b_list_loop any (Suc fuel) string len pos list =
     rbind (rd string pos) (\<lambda>c.
     if c = chr_e then gives list pos
     else pbind (any pos) (\<lambda>elem pos.
          if pos \<ge> len then fails (- 1)
          else b_list_loop any fuel string len pos (list @ [elem])))"

definition b_parse_list ::
  "(int \<Rightarrow> bencode_value parse) \<Rightarrow> bytes \<Rightarrow> int \<Rightarrow> int \<Rightarrow> int \<Rightarrow> bencode_value parse" where
  "b_parse_list any string len pos start =
     (if pos \<ge> len then fails (- 1)
      else pbind (b_list_loop any (Suc (nat (len - pos))) string len pos []) (\<lambda>list pos.
           gives (BencList list start pos) (pos + 1)))"

fun b_dict_loop ::
  "(int \<Rightarrow> bencode_value parse) \<Rightarrow> nat \<Rightarrow> bytes \<Rightarrow> int \<Rightarrow> int \<Rightarrow> bencode_dict \<Rightarrow> bencode_dict parse" where
  "b_dict_loop any 0 string len pos dict = Inl NoFuel"
| "b_dict_loop any (Suc fuel) string len pos dict =
     rbind (rd string pos) (\<lambda>c.
     if c = chr_e then gives dict pos
     else pbind (any pos) (\<lambda>key pos.
          if pos \<ge> len then fails (- 1)
          else pbind (any pos) (\<lambda>val pos.
               if pos \<ge> len then fails (- 1)
               else case key of
                 BencString ptr _ _ \<Rightarrow>
                   rbind (hashtable_put dict (cstr ptr) val) (\<lambda>(dict, _).
                   b_dict_loop any fuel string len pos dict)
               | _ \<Rightarrow> fails (- 2))))"

definition b_parse_dict ::
  "(int \<Rightarrow> bencode_value parse) \<Rightarrow> bytes \<Rightarrow> int \<Rightarrow> int \<Rightarrow> int \<Rightarrow> bencode_value parse" where
  "b_parse_dict any string len pos start =
     (if pos \<ge> len then fails (- 1)
      else pbind (b_dict_loop any (Suc (nat (len - pos))) string len pos
                    (hashtable_init fnv_1a_hash_str strcmp)) (\<lambda>dict pos.
           gives (BencDict dict start pos) (pos + 1)))"

fun b_parse_any :: "nat \<Rightarrow> bytes \<Rightarrow> int \<Rightarrow> int \<Rightarrow> bencode_value parse" where
  "b_parse_any 0 string len pos = Inl NoFuel"
| "b_parse_any (Suc fuel) string len pos =
     (if pos \<ge> len then fails (- 1)
      else rbind (rd string pos) (\<lambda>prefix.
        if prefix = chr_i then b_parse_int string len (pos + 1) pos
        else if prefix = chr_l then b_parse_list (b_parse_any fuel string len) string len (pos + 1) pos
        else if prefix = chr_d then b_parse_dict (b_parse_any fuel string len) string len (pos + 1) pos
        else if isdigit prefix then b_parse_string string len (pos + 1) prefix pos
        else fails (- 2)))"

definition bencode_parse :: "bytes \<Rightarrow> int \<Rightarrow> bencode_value parse" where
  "bencode_parse string len = b_parse_any (Suc (nat len)) string len 0"

subsection \<open>Abstract values and the grammar\<close>

datatype bval = AStr bytes | AInt int | AList "bval list" | ADict "bytes \<Rightarrow> bval option"

primrec bv_abs :: "bencode_value \<Rightarrow> bval" where
  "bv_abs (BencString bs s e) = AStr bs"
| "bv_abs (BencInteger n s e) = AInt n"
| "bv_abs (BencList vs s e) = AList (map bv_abs vs)"
| "bv_abs (BencDict ht s e) = ADict (ht_map (map_hashtable_t bv_abs ht))"

text \<open>The value of a string of digits, read from the left after \<open>n\<close>.\<close>

definition dec_from :: "int \<Rightarrow> bytes \<Rightarrow> int" where
  "dec_from n ds = fold (\<lambda>c n. n * 10 + digit_val c) ds n"

inductive benc :: "bytes \<Rightarrow> bval \<Rightarrow> bool"
and bencs :: "bytes \<Rightarrow> bval list \<Rightarrow> bool"
and bencd :: "bytes \<Rightarrow> (bytes \<times> bval) list \<Rightarrow> bool"
where
  benc_string:
    "ds \<noteq> [] \<Longrightarrow> list_all isdigit ds \<Longrightarrow> dec_from 0 ds = int (length bs) \<Longrightarrow>
     int (length bs) < INT_MAX \<Longrightarrow> benc (ds @ chr_colon # bs) (AStr bs)"
| benc_int:
    "list_all isdigit ds \<Longrightarrow> dec_from 0 ds \<le> INT_MAX \<Longrightarrow>
     benc (chr_i # ds @ [chr_e]) (AInt (dec_from 0 ds))"
| benc_neg:
    "list_all isdigit ds \<Longrightarrow> dec_from 0 ds \<le> INT_MAX \<Longrightarrow>
     benc (chr_i # chr_minus # ds @ [chr_e]) (AInt (- dec_from 0 ds))"
| benc_list: "bencs w vs \<Longrightarrow> benc (chr_l # w @ [chr_e]) (AList vs)"
| benc_dict: "bencd w kvs \<Longrightarrow> benc (chr_d # w @ [chr_e]) (ADict (map_of (rev kvs)))"
| bencs_Nil: "bencs [] []"
| bencs_Cons: "benc w v \<Longrightarrow> bencs ws vs \<Longrightarrow> bencs (w @ ws) (v # vs)"
| bencd_Nil: "bencd [] []"
| bencd_Cons: "benc kw (AStr k) \<Longrightarrow> benc w v \<Longrightarrow> bencd ws kvs \<Longrightarrow>
     bencd (kw @ w @ ws) ((cstr k, v) # kvs)"

text \<open>Well-formed values: dictionaries are well-formed tables of string keys, numbers fit
  the C types, and so on for all parts.\<close>

primrec bv_wf :: "bencode_value \<Rightarrow> bool" where
  "bv_wf (BencString bs s e) \<longleftrightarrow> int (length bs) < INT_MAX"
| "bv_wf (BencInteger n s e) \<longleftrightarrow> \<bar>n\<bar> \<le> INT_MAX"
| "bv_wf (BencList vs s e) \<longleftrightarrow> list_all id (map bv_wf vs)"
| "bv_wf (BencDict ht s e) \<longleftrightarrow>
     ht_wf c_string fnv_1a_hash_str strcmp ht \<and> pred_hashtable_t id (map_hashtable_t bv_wf ht)"

subsection \<open>Facts of tables with mapped values\<close>

lemma ht_entries_map: "ht_entries (map_hashtable_t f ht) = map (map_prod id f) (ht_entries ht)"
  by (cases ht) (simp add: ht_entries_def map_concat)

lemma ht_map_map: "ht_map (map_hashtable_t f ht) = map_option f \<circ> ht_map ht"
  by (simp add: ht_map_def ht_entries_map map_of_map map_prod_def)

lemma ht_set_entries: "set_hashtable_t ht = snd ` set (ht_entries ht)"
  by (cases ht) (force simp: ht_entries_def snds.simps image_iff)

lemma ht_wf_set: "ht_wf valid hf cf ht \<Longrightarrow> set_hashtable_t ht = ran (ht_map ht)"
  using table_wf_distinct [of valid hf "ht_table ht"]
  by (simp add: ht_set_entries ht_map_def ran_distinct ht_wf_def ht_entries_def)

lemma bv_wf_simps [simp]:
  "bv_wf (BencList vs s e) \<longleftrightarrow> list_all bv_wf vs"
  "bv_wf (BencDict ht s e) \<longleftrightarrow>
     ht_wf c_string fnv_1a_hash_str strcmp ht \<and> (\<forall>v \<in> ran (ht_map ht). bv_wf v)"
  by (auto simp: list_all_iff hashtable_t.pred_set hashtable_t.set_map ht_wf_set)

declare bv_wf.simps(3,4) [simp del]

lemma bv_abs_dict [simp]: "bv_abs (BencDict ht s e) = ADict (map_option bv_abs \<circ> ht_map ht)"
  by (simp add: ht_map_map)

declare bv_abs.simps(4) [simp del]

subsection \<open>Slices of the buffer\<close>

definition bslice :: "'a list \<Rightarrow> int \<Rightarrow> int \<Rightarrow> 'a list" where
  "bslice buf i j = take (nat (j - i)) (drop (nat i) buf)"

lemma bslice_append:
  "0 \<le> i \<Longrightarrow> i \<le> j \<Longrightarrow> j \<le> k \<Longrightarrow> bslice buf i j @ bslice buf j k = bslice buf i k"
proof -
  assume "0 \<le> i" "i \<le> j" "j \<le> k"
  then have "nat (k - i) = nat (j - i) + nat (k - j)" "nat j = nat (j - i) + nat i" by simp_all
  then show ?thesis by (simp add: bslice_def take_add)
qed

lemma bslice_empty [simp]: "bslice buf i i = []"
  by (simp add: bslice_def)

lemma bslice_one: "0 \<le> i \<Longrightarrow> i < int (length buf) \<Longrightarrow> bslice buf i (i + 1) = [buf ! nat i]"
  by (simp add: bslice_def take_Suc hd_drop_conv_nth)

lemma bslice_Cons:
  "0 \<le> i \<Longrightarrow> i < int (length buf) \<Longrightarrow> i + 1 \<le> j \<Longrightarrow>
     bslice buf i j = buf ! nat i # bslice buf (i + 1) j"
  using bslice_append [of i "i + 1" j buf] bslice_one [of i buf] by simp

lemma bslice_snoc:
  "0 \<le> i \<Longrightarrow> i \<le> j \<Longrightarrow> j < int (length buf) \<Longrightarrow>
     bslice buf i (j + 1) = bslice buf i j @ [buf ! nat j]"
  using bslice_append [of i j "j + 1" buf] bslice_one [of j buf] by simp

lemma length_bslice: "0 \<le> i \<Longrightarrow> i \<le> j \<Longrightarrow> j \<le> int (length buf) \<Longrightarrow> length (bslice buf i j) = nat (j - i)"
  by (simp add: bslice_def)

lemma bslice_mid: "bslice (pre @ w @ post) (int (length pre)) (int (length pre + length w)) = w"
  by (simp add: bslice_def)

subsection \<open>Outcomes\<close>

text \<open>\<open>post E Q r\<close>: the undefined outcomes of \<open>r\<close> satisfy \<open>E\<close>, its error codes are
  those of the source, and a result satisfies \<open>Q\<close>.\<close>

definition post :: "(ub \<Rightarrow> bool) \<Rightarrow> ('a \<Rightarrow> int \<Rightarrow> bool) \<Rightarrow> 'a parse \<Rightarrow> bool" where
  "post E Q r \<longleftrightarrow>
     (case r of Inl e \<Rightarrow> E e | Inr (Inl c) \<Rightarrow> c = - 1 \<or> c = - 2 | Inr (Inr (x, p)) \<Rightarrow> Q x p)"

lemma post_simps [simp]:
  "post E Q (Inl e) \<longleftrightarrow> E e"
  "post E Q (fails c) \<longleftrightarrow> c = - 1 \<or> c = - 2"
  "post E Q (gives x p) \<longleftrightarrow> Q x p"
  by (simp_all add: post_def)

lemma parse_cases [case_names ub code result]:
  fixes m :: "'a parse"
  obtains e where "m = Inl e" | c where "m = fails c" | x p where "m = gives x p"
  by (metis sum.exhaust prod.exhaust)

lemma post_pbind:
  "post E Q m \<Longrightarrow> (\<And>x p. Q x p \<Longrightarrow> post E Q' (f x p)) \<Longrightarrow> post E Q' (pbind m f)"
  by (cases m rule: parse_cases) simp_all

lemma post_rbind:
  "(\<And>e. m = Inl e \<Longrightarrow> E e) \<Longrightarrow> (\<And>x. m = Inr x \<Longrightarrow> post E Q (f x)) \<Longrightarrow> post E Q (rbind m f)"
  by (cases m) auto

lemma post_weaken: "post E Q r \<Longrightarrow> (\<And>x p. Q x p \<Longrightarrow> Q' x p) \<Longrightarrow> post E Q' r"
  by (auto simp: post_def split: sum.splits)

text \<open>The buffer has a NUL at index \<open>len\<close>, as a C string of length \<open>len\<close> has.\<close>

definition terminated :: "bytes \<Rightarrow> int \<Rightarrow> bool" where
  "terminated string len \<longleftrightarrow> 0 \<le> len \<and> len < int (length string) \<and> string ! nat len = 0"

definition parse_ub :: "bytes \<Rightarrow> int \<Rightarrow> ub \<Rightarrow> bool" where
  "parse_ub string len e \<longleftrightarrow>
     e = SignedOverflow \<or> (e = OutOfBounds \<and> \<not> terminated string len)"

lemma rd_ub:
  "rd string pos = Inl e \<Longrightarrow> 0 \<le> pos \<Longrightarrow> pos \<le> len \<Longrightarrow> parse_ub string len e"
  by (auto simp: parse_ub_def terminated_def rd_eq_Inl)

subsection \<open>Digits and string bodies\<close>

lemma dec_from_simps [simp]:
  "dec_from n [] = n"
  "dec_from n (d # ds) = dec_from (n * 10 + digit_val d) ds"
  by (simp_all add: dec_from_def)

lemma dec_from_append: "dec_from n (ds @ es) = dec_from (dec_from n ds) es"
  by (simp add: dec_from_def)

lemma isdigit_val: "isdigit c \<Longrightarrow> 0 \<le> digit_val c \<and> digit_val c \<le> 9"
  by (simp add: isdigit_def digit_val_def word_le_def)

lemma isdigit_not [simp]:
  "\<not> isdigit 0" "\<not> isdigit chr_colon" "\<not> isdigit chr_e" "\<not> isdigit chr_minus" "\<not> isdigit chr_i"
  "\<not> isdigit chr_l" "\<not> isdigit chr_d"
  by (simp_all add: isdigit_def)

lemma dec_from_mono: "0 \<le> n \<Longrightarrow> list_all isdigit ds \<Longrightarrow> n \<le> dec_from n ds"
proof (induction ds arbitrary: n)
  case Nil
  then show ?case by simp
next
  case (Cons d ds)
  then have "0 \<le> digit_val d" by (auto dest: isdigit_val)
  with Cons have "n * 10 + digit_val d \<le> dec_from (n * 10 + digit_val d) ds" by simp
  with Cons.prems(1) \<open>0 \<le> digit_val d\<close> show ?case by simp
qed

lemma digits_loop_post:
  assumes "0 \<le> pos" "pos \<le> len" "0 \<le> n" "n \<le> INT_MAX"
  shows "post (parse_ub string len)
    (\<lambda>m p. pos \<le> p \<and> p \<le> len \<and> p < int (length string) \<and> n \<le> m \<and> m \<le> INT_MAX \<and>
       list_all isdigit (bslice string pos p) \<and> m = dec_from n (bslice string pos p) \<and>
       (p = pos \<or> p < len))
    (digits_loop string len pos n)"
  using assms
proof (induction string len pos n rule: digits_loop.induct)
  case (1 string len pos n)
  let ?Q = "\<lambda>pos n m p. pos \<le> p \<and> p \<le> len \<and> p < int (length string) \<and> n \<le> m \<and> m \<le> INT_MAX \<and>
       list_all isdigit (bslice string pos p) \<and> m = dec_from n (bslice string pos p) \<and>
       (p = pos \<or> p < len)"
  show ?case
    unfolding digits_loop.simps [of string len pos n]
  proof (rule post_rbind)
    fix e assume "rd string pos = Inl e"
    then show "parse_ub string len e" using "1.prems" by (intro rd_ub)
  next
    fix c assume rd: "rd string pos = Inr c"
    then have c: "pos < int (length string)" "c = string ! nat pos" by (auto simp: rd_eq_Inr)
    let ?n = "n * 10 + digit_val c"
    have step: "post (parse_ub string len) (?Q pos n) (digits_loop string len (pos + 1) ?n)"
      if d: "isdigit c" "\<not> pos + 1 \<ge> len" "?n \<le> INT_MAX" "n * 10 \<le> INT_MAX"
    proof -
      have v: "0 \<le> digit_val c" using d(1) by (simp add: isdigit_val)
      then have "post (parse_ub string len) (?Q (pos + 1) ?n) (digits_loop string len (pos + 1) ?n)"
        using "1.prems" d rd by (intro "1.IH" [OF rd d(1)]) (auto simp: check_int_def)
      then show ?thesis
        by (rule post_weaken)
          (use "1.prems" d c v in \<open>auto simp: bslice_Cons\<close>)
    qed
    show "post (parse_ub string len) (?Q pos n) (if isdigit c then
       rbind (check_int (n * 10)) (\<lambda>m.
       rbind (check_int (m + digit_val c)) (\<lambda>n.
       if pos + 1 \<ge> len then fails (- 1) else digits_loop string len (pos + 1) n))
     else gives n pos)"
    proof (cases "isdigit c")
      case True
      have ov: "parse_ub string len SignedOverflow" by (simp add: parse_ub_def)
      from True ov step show ?thesis
        by (auto intro!: post_rbind simp: check_int_eq_Inl check_int_eq_Inr)
    next
      case False
      then show ?thesis using "1.prems" c by simp
    qed
  qed
qed

lemma copy_loop_post:
  assumes "0 \<le> pos" "pos \<le> len + 1"
  shows "post (parse_ub string len)
    (\<lambda>bs p. p = pos + int n \<and> p \<le> max pos len \<and> p \<le> max pos (int (length string)) \<and>
       length bs = n \<and> bs = bslice string pos p)
    (copy_loop string len pos n)"
  using assms
proof (induction n arbitrary: pos)
  case 0
  then show ?case by simp
next
  case (Suc n)
  show ?case
  proof (cases "pos \<ge> len")
    case True
    then show ?thesis by simp
  next
    case False
    have "post (parse_ub string len)
        (\<lambda>bs p. p = pos + int (Suc n) \<and> p \<le> max pos len \<and> p \<le> max pos (int (length string)) \<and>
           length bs = Suc n \<and> bs = bslice string pos p)
        (rbind (rd string pos) (\<lambda>c.
           pbind (copy_loop string len (pos + 1) n) (\<lambda>cs pos. gives (c # cs) pos)))"
    proof (rule post_rbind)
      fix e assume "rd string pos = Inl e"
      then show "parse_ub string len e" using Suc.prems False by (intro rd_ub) auto
    next
      fix c assume "rd string pos = Inr c"
      then have c: "pos < int (length string)" "c = string ! nat pos" by (auto simp: rd_eq_Inr)
      show "post (parse_ub string len)
        (\<lambda>bs p. p = pos + int (Suc n) \<and> p \<le> max pos len \<and> p \<le> max pos (int (length string)) \<and>
           length bs = Suc n \<and> bs = bslice string pos p)
        (pbind (copy_loop string len (pos + 1) n) (\<lambda>cs pos. gives (c # cs) pos))"
        by (rule post_pbind [OF Suc.IH])
          (use Suc.prems False c in \<open>auto simp: bslice_Cons\<close>)
    qed
    then show ?thesis using False by simp
  qed
qed

subsection \<open>Soundness, safety and termination of the decoder\<close>

text \<open>What a result at \<open>pos\<close> is: it uses up a word of the grammar, denotes the word's
  meaning, is well formed and records the word's first and last offset.\<close>

definition parsed :: "bytes \<Rightarrow> int \<Rightarrow> bencode_value \<Rightarrow> int \<Rightarrow> bool" where
  "parsed string pos v p \<longleftrightarrow>
     pos < p \<and> p \<le> int (length string) \<and> benc (bslice string pos p) (bv_abs v) \<and> bv_wf v \<and>
     bv_start v = pos \<and> bv_end v = p - 1"

lemma overflow_ub [simp]: "parse_ub string len SignedOverflow"
  by (simp add: parse_ub_def)

lemma b_parse_string_post:
  assumes pos: "0 \<le> pos" "pos < len" and c: "rd string pos = Inr c" "isdigit c"
  shows "post (parse_ub string len) (parsed string pos)
    (b_parse_string string len (pos + 1) c pos)"
  unfolding b_parse_string_def
proof (rule post_pbind [OF digits_loop_post])
  have v: "0 \<le> digit_val c" "digit_val c \<le> 9" using isdigit_val [OF c(2)] by simp_all
  show "0 \<le> pos + 1" "pos + 1 \<le> len" "0 \<le> digit_val c" "digit_val c \<le> INT_MAX"
    using pos v by simp_all
  fix n p
  assume "pos + 1 \<le> p \<and> p \<le> len \<and> p < int (length string) \<and> digit_val c \<le> n \<and> n \<le> INT_MAX \<and>
    list_all isdigit (bslice string (pos + 1) p) \<and>
    n = dec_from (digit_val c) (bslice string (pos + 1) p) \<and> (p = pos + 1 \<or> p < len)"
  then have d: "pos + 1 \<le> p" "p \<le> len" "p < int (length string)" "0 \<le> n"
      "list_all isdigit (bslice string (pos + 1) p)"
      "n = dec_from (digit_val c) (bslice string (pos + 1) p)"
    using v by auto
  show "post (parse_ub string len) (parsed string pos)
      (rbind (rd string p) (\<lambda>c. if c \<noteq> chr_colon then fails (- 2)
       else rbind (check_int (n + 1)) (\<lambda>_.
         pbind (copy_loop string len (p + 1) (nat n)) (\<lambda>parsed_str pos'.
         gives (BencString parsed_str pos (pos' - 1)) pos'))))"
  proof (rule post_rbind)
    fix e assume "rd string p = Inl e"
    then show "parse_ub string len e" using d pos by (simp add: rd_eq_Inl)
  next
    fix c' assume c': "rd string p = Inr c'"
    show "post (parse_ub string len) (parsed string pos)
      (if c' \<noteq> chr_colon then fails (- 2)
       else rbind (check_int (n + 1)) (\<lambda>_.
         pbind (copy_loop string len (p + 1) (nat n)) (\<lambda>parsed_str pos'.
         gives (BencString parsed_str pos (pos' - 1)) pos')))"
    proof (cases "c' = chr_colon \<and> n + 1 \<le> INT_MAX")
      case True
      let ?ds = "c # bslice string (pos + 1) p"
      have "post (parse_ub string len) (parsed string pos)
        (pbind (copy_loop string len (p + 1) (nat n)) (\<lambda>parsed_str pos'.
         gives (BencString parsed_str pos (pos' - 1)) pos'))"
      proof (rule post_pbind [OF copy_loop_post])
        show "0 \<le> p + 1" "p + 1 \<le> len + 1" using d pos by simp_all
        fix bs q
        assume "q = p + 1 + int (nat n) \<and> q \<le> max (p + 1) len \<and>
          q \<le> max (p + 1) (int (length string)) \<and> length bs = nat n \<and> bs = bslice string (p + 1) q"
        then have q: "q = p + 1 + n" "q \<le> int (length string)" "int (length bs) = n"
            "bs = bslice string (p + 1) q" using d by auto
        have "bslice string pos q = ?ds @ chr_colon # bs"
          using c c' True d q pos bslice_append [of "pos + 1" p q string]
          by (auto simp: bslice_Cons [of pos] bslice_Cons [of p] rd_eq_Inr)
        moreover have "benc (?ds @ chr_colon # bs) (AStr bs)"
          by (rule benc_string) (use c d q True in auto)
        ultimately show "post (parse_ub string len) (parsed string pos)
            (gives (BencString bs pos (q - 1)) q)"
          using d q True by (simp add: parsed_def)
      qed
      then show ?thesis using True d by simp
    next
      case False
      then show ?thesis using d by (auto simp: check_int_def)
    qed
  qed
qed

lemma b_parse_int_post:
  assumes pos: "0 \<le> pos" "pos < len" and c: "rd string pos = Inr chr_i"
  shows "post (parse_ub string len) (parsed string pos) (b_parse_int string len (pos + 1) pos)"
proof (cases "pos + 1 \<ge> len")
  case True
  then show ?thesis by (simp add: b_parse_int_def)
next
  case False
  let ?rest = "\<lambda>neg num p. let num = (if neg then num * (- 1) else num) in
      rbind (rd string p) (\<lambda>c. if c \<noteq> chr_e then fails (- 2)
        else gives (BencInteger num pos p) (p + 1))"
  have rest: "post (parse_ub string len) (parsed string pos) (?rest neg num p)"
    if d: "q \<le> p" "p < int (length string)" "0 \<le> num" "num \<le> INT_MAX"
      "list_all isdigit (bslice string q p)" "num = dec_from 0 (bslice string q p)"
      and q: "bslice string pos q = (if neg then [chr_i, chr_minus] else [chr_i])" "pos < q"
    for neg num p q
  proof (cases "string ! nat p = chr_e")
    case True
    have "bslice string pos (p + 1) = bslice string pos q @ bslice string q p @ [chr_e]"
      using pos d q True bslice_append [of pos q p string] by (simp add: bslice_snoc)
    then show ?thesis
      using True d q pos benc_int [of "bslice string q p"] benc_neg [of "bslice string q p"]
      by (auto simp: rd_def parsed_def)
  next
    case False
    then show ?thesis using d q pos by (simp add: rd_def Let_def)
  qed
  have dig: "post (parse_ub string len) (parsed string pos)
      (pbind (digits_loop string len q 0) (?rest neg))"
    if q: "bslice string pos q = (if neg then [chr_i, chr_minus] else [chr_i])" "pos < q" "q \<le> len"
    for neg q
  proof (rule post_pbind [OF digits_loop_post])
    fix num p
    assume "q \<le> p \<and> p \<le> len \<and> p < int (length string) \<and> 0 \<le> num \<and> num \<le> INT_MAX \<and>
      list_all isdigit (bslice string q p) \<and> num = dec_from 0 (bslice string q p) \<and>
      (p = q \<or> p < len)"
    with q show "post (parse_ub string len) (parsed string pos) (?rest neg num p)"
      by (intro rest [of q]) simp_all
  qed (use q pos in simp_all)
  show ?thesis
    unfolding b_parse_int_def using False
  proof (simp only: if_False, intro post_rbind)
    fix e assume "rd string (pos + 1) = Inl e"
    then show "parse_ub string len e" by (rule rd_ub) (use pos False in simp_all)
  next
    fix c' assume c': "rd string (pos + 1) = Inr c'"
    have s1: "bslice string pos (pos + 1) = [chr_i]"
      using c pos by (auto simp: rd_eq_Inr bslice_one)
    have s2: "bslice string pos (pos + 1 + 1) = [chr_i, c']"
      using c c' pos s1 bslice_snoc [of pos "pos + 1" string] by (auto simp: rd_eq_Inr)
    have "post (parse_ub string len) (parsed string pos)
       (pbind (digits_loop string len (if c' = chr_minus then pos + 1 + 1 else pos + 1) 0)
          (?rest (c' = chr_minus)))"
      by (rule dig) (use s1 s2 False in auto)
    then show "post (parse_ub string len) (parsed string pos)
       (let neg = c' = chr_minus; p = if neg then pos + 1 + 1 else pos + 1
        in pbind (digits_loop string len p 0) (?rest neg))"
      unfolding Let_def .
  qed
qed

lemma b_list_loop_post:
  assumes any: "\<And>q. pos \<le> q \<Longrightarrow> q < len \<Longrightarrow> post (parse_ub string len) (parsed string q) (any q)"
    and pos: "0 \<le> pos" "pos < len" and fuel: "nat (len - pos) < fuel"
  shows "post (parse_ub string len)
    (\<lambda>vs p. pos \<le> p \<and> p < int (length string) \<and> string ! nat p = chr_e \<and>
       (\<exists>us. vs = acc @ us \<and> list_all bv_wf us \<and> bencs (bslice string pos p) (map bv_abs us)))
    (b_list_loop any fuel string len pos acc)"
    (is "post ?E (?Q pos acc) _")
  using assms
proof (induction fuel arbitrary: pos acc)
  case 0
  then show ?case by simp
next
  case (Suc fuel)
  show ?case
    unfolding b_list_loop.simps
  proof (rule post_rbind)
    fix e assume "rd string pos = Inl e"
    then show "?E e" by (rule rd_ub) (use Suc.prems in simp_all)
  next
    fix c assume "rd string pos = Inr c"
    then have c: "pos < int (length string)" "c = string ! nat pos" by (auto simp: rd_eq_Inr)
    have "post ?E (?Q pos acc) (pbind (any pos) (\<lambda>elem p.
          if p \<ge> len then fails (- 1) else b_list_loop any fuel string len p (acc @ [elem])))"
    proof (rule post_pbind [OF Suc.prems(1)])
      fix v p assume v: "parsed string pos v p"
      have "post ?E (?Q pos acc) (b_list_loop any fuel string len p (acc @ [v]))" if "p < len"
      proof (rule post_weaken)
        show "post ?E (?Q p (acc @ [v])) (b_list_loop any fuel string len p (acc @ [v]))"
          by (rule Suc.IH) (use Suc.prems v that in \<open>auto simp: parsed_def\<close>)
        fix vs p' assume "?Q p (acc @ [v]) vs p'"
        then obtain us where us: "p \<le> p'" "p' < int (length string)" "string ! nat p' = chr_e"
            "vs = acc @ v # us" "list_all bv_wf us" "bencs (bslice string p p') (map bv_abs us)"
          by auto
        have "bencs (bslice string pos p @ bslice string p p') (bv_abs v # map bv_abs us)"
          using v us(6) by (intro bencs_Cons) (simp add: parsed_def)
        then show "?Q pos acc vs p'"
          using us v Suc.prems(2) by (auto simp: parsed_def bslice_append)
      qed
      then show "post ?E (?Q pos acc)
          (if p \<ge> len then fails (- 1) else b_list_loop any fuel string len p (acc @ [v]))"
        by simp
    qed (use Suc.prems in simp_all)
    then show "post ?E (?Q pos acc) (if c = chr_e then gives acc pos
      else pbind (any pos) (\<lambda>elem p.
        if p \<ge> len then fails (- 1) else b_list_loop any fuel string len p (acc @ [elem])))"
      using c by (simp add: bencs_Nil)
  qed
qed

text \<open>One round of the dictionary loop on tables and on abstract maps.\<close>

abbreviation dict_wf :: "bencode_dict \<Rightarrow> bool" where
  "dict_wf ht \<equiv> ht_wf c_string fnv_1a_hash_str strcmp ht \<and> (\<forall>v \<in> ran (ht_map ht). bv_wf v)"

text \<open>What a put that returns has done; it can also overflow a counter of the table.\<close>

abbreviation dict_putted :: "bencode_dict \<Rightarrow> bytes \<Rightarrow> bencode_value \<Rightarrow> bencode_dict \<Rightarrow> bool" where
  "dict_putted ht k v ht' \<equiv> dict_wf ht' \<and> ht_map ht' = (ht_map ht)(cstr k \<mapsto> v) \<and>
     ht_size ht' = ht_size ht + 1"

lemma dict_put:
  assumes "dict_wf ht" "bv_wf v"
  shows "hashtable_put ht (cstr k) v = Inl SignedOverflow \<or>
    (\<exists>ht' r. hashtable_put ht (cstr k) v = Inr (ht', r) \<and> dict_putted ht k v ht')"
proof -
  have "ht_wf c_string fnv_1a_hash_str strcmp ht" "c_string (cstr k)" using assms by auto
  from str_keys.put_cases [OF this, of v] show ?thesis
  proof (elim disjE exE conjE)
    fix ht'
    assume ht': "hashtable_put ht (cstr k) v = Inr (ht', if cstr k \<in> dom (ht_map ht) then 1 else 0)"
      "ht_wf c_string fnv_1a_hash_str strcmp ht'" "ht_map ht' = (ht_map ht)(cstr k \<mapsto> v)"
      "ht_size ht' = ht_size ht + 1"
    then have "\<forall>v \<in> ran (ht_map ht'). bv_wf v" using assms by (auto simp: ran_def)
    with ht' show ?thesis by blast
  qed simp
qed

lemma dict_put_room:
  assumes "dict_wf ht" "bv_wf v" "ht_room ht (Suc 0)"
  shows "\<exists>ht' r. hashtable_put ht (cstr k) v = Inr (ht', r) \<and> dict_putted ht k v ht'"
  using str_keys.put_correct [of ht "cstr k" 0 v] dict_put [OF assms(1,2), of k] assms(1,3) by auto

abbreviation dict_abs :: "bencode_dict \<Rightarrow> bytes \<rightharpoonup> bval" where
  "dict_abs ht \<equiv> map_option bv_abs \<circ> ht_map ht"

lemma dict_abs_upd:
  "ht_map ht' = (ht_map ht)(k \<mapsto> v) \<Longrightarrow> dict_abs ht' = (dict_abs ht)(k \<mapsto> bv_abs v)"
  by (auto simp: fun_eq_iff)

definition dict_post :: "bytes \<Rightarrow> int \<Rightarrow> bencode_dict \<Rightarrow> bencode_dict \<Rightarrow> int \<Rightarrow> bool" where
  "dict_post string pos ht ht' p \<longleftrightarrow>
     pos \<le> p \<and> p < int (length string) \<and> string ! nat p = chr_e \<and> dict_wf ht' \<and>
     (\<exists>kvs. dict_abs ht' = dict_abs ht ++ map_of (rev kvs) \<and> bencd (bslice string pos p) kvs \<and>
        ht_size ht' = ht_size ht + int (length kvs))"

lemma dict_post_Cons:
  assumes k: "parsed string pos (BencString k s e) q" and v: "parsed string q v p" "0 \<le> pos"
    and h1: "ht_map ht1 = (ht_map ht)(cstr k \<mapsto> v)" "ht_size ht1 = ht_size ht + 1"
    and rest: "dict_post string p ht1 ht' p'"
  shows "dict_post string pos ht ht' p'"
proof -
  obtain kvs where kvs: "p \<le> p'" "p' < int (length string)" "string ! nat p' = chr_e"
      "dict_wf ht'" "dict_abs ht' = dict_abs ht1 ++ map_of (rev kvs)"
      "bencd (bslice string p p') kvs" "ht_size ht' = ht_size ht1 + int (length kvs)"
    using rest unfolding dict_post_def by blast
  have "bencd (bslice string pos q @ bslice string q p @ bslice string p p')
      ((cstr k, bv_abs v) # kvs)"
    using k v kvs(6) by (intro bencd_Cons) (auto simp: parsed_def)
  moreover have "bslice string pos q @ bslice string q p @ bslice string p p' = bslice string pos p'"
    using k v kvs(1) by (simp add: parsed_def bslice_append)
  ultimately have "bencd (bslice string pos p') ((cstr k, bv_abs v) # kvs)" by simp
  moreover have "dict_abs ht' = dict_abs ht ++ map_of (rev ((cstr k, bv_abs v) # kvs))"
    using kvs(5) dict_abs_upd [OF h1(1)] by simp
  moreover have "ht_size ht' = ht_size ht + int (length ((cstr k, bv_abs v) # kvs))"
    using kvs(7) h1(2) by simp
  moreover have "pos \<le> p'" using k v kvs(1) by (simp add: parsed_def)
  ultimately show ?thesis unfolding dict_post_def using kvs(2-4) by blast
qed

lemma b_dict_loop_post:
  assumes "\<And>q. pos \<le> q \<Longrightarrow> q < len \<Longrightarrow> post (parse_ub string len) (parsed string q) (any q)"
    and "0 \<le> pos" "pos < len" and "nat (len - pos) < fuel" and "dict_wf ht"
  shows "post (parse_ub string len) (dict_post string pos ht)
    (b_dict_loop any fuel string len pos ht)"
  using assms
proof (induction fuel arbitrary: pos ht)
  case 0
  then show ?case by simp
next
  case (Suc fuel)
  let ?E = "parse_ub string len" and ?Q = "dict_post string pos ht"
  let ?store = "\<lambda>key val p. case key of
      BencString ptr _ _ \<Rightarrow> rbind (hashtable_put ht (cstr ptr) val) (\<lambda>(dict, _).
        b_dict_loop any fuel string len p dict)
    | _ \<Rightarrow> fails (- 2)"
  let ?val = "\<lambda>key q. pbind (any q) (\<lambda>val p. if p \<ge> len then fails (- 1) else ?store key val p)"
  have store: "post ?E ?Q (?store key v p)"
    if k: "parsed string pos key q" and v: "parsed string q v p" and p: "p < len" for key q v p
  proof (cases key)
    case (BencString k s e)
    have "bv_wf v" using v by (simp add: parsed_def)
    from dict_put [OF Suc.prems(5) this, of k] consider (ub) "hashtable_put ht (cstr k) v = Inl SignedOverflow"
      | (put) ht1 r where "hashtable_put ht (cstr k) v = Inr (ht1, r)" "dict_putted ht k v ht1"
      by blast
    then show ?thesis
    proof cases
      case ub
      then show ?thesis using BencString by simp
    next
      case (put ht1 r)
      then have h1: "hashtable_put ht (cstr k) v = Inr (ht1, r)" "dict_wf ht1"
          "ht_map ht1 = (ht_map ht)(cstr k \<mapsto> v)" "ht_size ht1 = ht_size ht + 1"
        by simp_all
      have "post ?E (dict_post string p ht1) (b_dict_loop any fuel string len p ht1)"
      by (rule Suc.IH) (use Suc.prems k v p h1(2) in \<open>auto simp: parsed_def\<close>)
      then have "post ?E ?Q (b_dict_loop any fuel string len p ht1)"
        by (rule post_weaken)
          (rule dict_post_Cons [OF k [unfolded BencString] v Suc.prems(2) h1(3,4)])
      then show ?thesis using h1(1) BencString by simp
    qed
  qed simp_all
  have val: "post ?E ?Q (?val key q)" if "parsed string pos key q" "q < len" for key q
    by (rule post_pbind [OF Suc.prems(1)]) (use that store in \<open>auto simp: parsed_def\<close>)
  have round: "post ?E ?Q (pbind (any pos) (\<lambda>key q. if q \<ge> len then fails (- 1) else ?val key q))"
    by (rule post_pbind [OF Suc.prems(1)]) (use Suc.prems val in auto)
  show ?case
    unfolding b_dict_loop.simps
  proof (rule post_rbind)
    fix e assume "rd string pos = Inl e"
    then show "?E e" by (rule rd_ub) (use Suc.prems in simp_all)
  next
    fix c assume c: "rd string pos = Inr c"
    have "?Q ht pos" if "c = chr_e"
      using c that Suc.prems(5)
      by (auto simp: dict_post_def rd_eq_Inr bencd_Nil intro!: exI [of _ "[]"])
    then show "post ?E ?Q (if c = chr_e then gives ht pos else
        pbind (any pos) (\<lambda>key q. if q \<ge> len then fails (- 1) else ?val key q))"
      using round by simp
  qed
qed

lemma b_parse_list_post:
  assumes any: "\<And>q. pos + 1 \<le> q \<Longrightarrow> q < len \<Longrightarrow> post (parse_ub string len) (parsed string q) (any q)"
    and pos: "0 \<le> pos" and c: "rd string pos = Inr chr_l"
  shows "post (parse_ub string len) (parsed string pos) (b_parse_list any string len (pos + 1) pos)"
proof (cases "pos + 1 \<ge> len")
  case True
  then show ?thesis by (simp add: b_parse_list_def)
next
  case False
  have "post (parse_ub string len) (parsed string pos)
      (pbind (b_list_loop any (Suc (nat (len - (pos + 1)))) string len (pos + 1) []) (\<lambda>list p.
         gives (BencList list pos p) (p + 1)))"
  proof (rule post_pbind [OF b_list_loop_post [OF any]])
    fix vs p
    assume "pos + 1 \<le> p \<and> p < int (length string) \<and> string ! nat p = chr_e \<and>
      (\<exists>us. vs = [] @ us \<and> list_all bv_wf us \<and>
         bencs (bslice string (pos + 1) p) (map bv_abs us))"
    then have p: "pos + 1 \<le> p" "p < int (length string)" "string ! nat p = chr_e"
      "list_all bv_wf vs" "bencs (bslice string (pos + 1) p) (map bv_abs vs)" by auto
    have "bslice string pos (p + 1) = chr_l # bslice string (pos + 1) p @ [chr_e]"
      using c p pos by (auto simp: rd_eq_Inr bslice_Cons [of pos] bslice_snoc)
    then show "post (parse_ub string len) (parsed string pos)
        (gives (BencList vs pos p) (p + 1))"
      using p benc_list [OF p(5)] by (simp add: parsed_def)
  qed (use pos False in simp_all)
  then show ?thesis using False by (simp add: b_parse_list_def)
qed

lemma b_parse_dict_post:
  assumes any: "\<And>q. pos + 1 \<le> q \<Longrightarrow> q < len \<Longrightarrow> post (parse_ub string len) (parsed string q) (any q)"
    and pos: "0 \<le> pos" and c: "rd string pos = Inr chr_d"
  shows "post (parse_ub string len) (parsed string pos) (b_parse_dict any string len (pos + 1) pos)"
proof (cases "pos + 1 \<ge> len")
  case True
  then show ?thesis by (simp add: b_parse_dict_def)
next
  case False
  let ?i = "hashtable_init fnv_1a_hash_str strcmp :: bencode_dict"
  have "post (parse_ub string len) (parsed string pos)
      (pbind (b_dict_loop any (Suc (nat (len - (pos + 1)))) string len (pos + 1) ?i) (\<lambda>dict p.
         gives (BencDict dict pos p) (p + 1)))"
  proof (rule post_pbind [OF b_dict_loop_post [OF any]])
    fix ht p assume "dict_post string (pos + 1) ?i ht p"
    then obtain kvs where p: "pos + 1 \<le> p" "p < int (length string)" "string ! nat p = chr_e"
      "dict_wf ht" "dict_abs ht = dict_abs ?i ++ map_of (rev kvs)"
      "bencd (bslice string (pos + 1) p) kvs" unfolding dict_post_def by blast
    have "dict_abs ?i = Map.empty" by (simp add: str_keys.init_map fun_eq_iff)
    with p(5) have "dict_abs ht = map_of (rev kvs)" by simp
    moreover have "bslice string pos (p + 1) = chr_d # bslice string (pos + 1) p @ [chr_e]"
      using c p pos by (auto simp: rd_eq_Inr bslice_Cons [of pos] bslice_snoc)
    ultimately show "post (parse_ub string len) (parsed string pos)
        (gives (BencDict ht pos p) (p + 1))"
      using p benc_dict [OF p(6)] by (simp add: parsed_def)
  qed (use pos False in \<open>simp_all add: str_keys.init_wf str_keys.init_map\<close>)
  then show ?thesis using False by (simp add: b_parse_dict_def)
qed

lemma b_parse_any_post:
  assumes "0 \<le> pos" "nat (len - pos) < fuel"
  shows "post (parse_ub string len) (parsed string pos) (b_parse_any fuel string len pos)"
  using assms
proof (induction fuel arbitrary: pos)
  case 0
  then show ?case by simp
next
  case (Suc fuel)
  let ?any = "b_parse_any fuel string len"
  show ?case
  proof (cases "pos \<ge> len")
    case True
    then show ?thesis by simp
  next
    case False
    have any: "post (parse_ub string len) (parsed string q) (?any q)" if "pos + 1 \<le> q" "q < len" for q
      using Suc.prems that by (intro Suc.IH) auto
    show ?thesis
      using False unfolding b_parse_any.simps
    proof (simp only: if_False, intro post_rbind)
      fix e assume "rd string pos = Inl e"
      then show "parse_ub string len e" by (rule rd_ub) (use Suc.prems False in simp_all)
    next
      fix c assume "rd string pos = Inr c"
      then show "post (parse_ub string len) (parsed string pos)
        (if c = chr_i then b_parse_int string len (pos + 1) pos
         else if c = chr_l then b_parse_list ?any string len (pos + 1) pos
         else if c = chr_d then b_parse_dict ?any string len (pos + 1) pos
         else if isdigit c then b_parse_string string len (pos + 1) c pos
         else fails (- 2))"
        using Suc.prems False b_parse_list_post [OF any Suc.prems(1)]
          b_parse_dict_post [OF any Suc.prems(1)] b_parse_int_post [of pos len string]
          b_parse_string_post [of pos len string c] by simp
    qed
  qed
qed

subsection \<open>Completeness of the decoder\<close>

lemma rd_append [simp]: "rd (pre @ c # rest) (int (length pre)) = Inr c"
  by (simp add: rd_def nth_append)

lemma digits_loop_complete:
  assumes "list_all isdigit ds" "\<not> isdigit c" "0 \<le> n" "dec_from n ds \<le> INT_MAX"
    and "ds = [] \<or> int (length pre + length ds) < len"
  shows "digits_loop (pre @ ds @ c # rest) len (int (length pre)) n =
    gives (dec_from n ds) (int (length pre + length ds))"
  using assms
proof (induction ds arbitrary: pre n)
  case Nil
  then show ?case by (simp add: digits_loop.simps [of _ len])
next
  case (Cons d ds)
  let ?n = "n * 10 + digit_val d"
  have v: "0 \<le> digit_val d" using Cons.prems(1) isdigit_val by auto
  have n: "?n \<le> INT_MAX"
    using Cons.prems(1,3,4) v dec_from_mono [of ?n ds] by simp
  have "digits_loop ((pre @ [d]) @ ds @ c # rest) len (int (length (pre @ [d]))) ?n =
      gives (dec_from ?n ds) (int (length (pre @ [d]) + length ds))"
    using Cons.prems v by (intro Cons.IH) auto
  then show ?case
    using Cons.prems v n
    by (simp add: digits_loop.simps [of "pre @ d # ds @ c # rest" len "int (length pre)"] add.commute)
qed

lemma copy_loop_complete:
  "int (length pre + length bs) \<le> len \<Longrightarrow>
     copy_loop (pre @ bs @ rest) len (int (length pre)) (length bs) =
       gives bs (int (length pre + length bs))"
proof (induction bs arbitrary: pre)
  case Nil
  then show ?case by simp
next
  case (Cons b bs)
  have "copy_loop ((pre @ [b]) @ bs @ rest) len (int (length (pre @ [b]))) (length bs) =
      gives bs (int (length (pre @ [b]) + length bs))"
    using Cons.prems by (intro Cons.IH) simp
  then show ?case using Cons.prems by (simp add: add.commute)
qed

lemma benc_first: "benc w v \<Longrightarrow> \<exists>c cs. w = c # cs \<and> c \<noteq> chr_e"
  by (cases rule: benc.cases) (auto simp: neq_Nil_conv list_all_iff isdigit_def)

lemma benc_length: "benc w v \<Longrightarrow> 2 \<le> length w"
  by (cases rule: benc.cases) (auto simp: neq_Nil_conv)

lemma benc_nonempty: "benc w v \<Longrightarrow> \<exists>n. length w = Suc n"
  using benc_first by fastforce

text \<open>How the decoder runs on a string and on an integer of the grammar.\<close>

lemma b_parse_string_complete:
  assumes "list_all isdigit (d # ds)" "dec_from 0 (d # ds) = int (length bs)"
    "int (length bs) < INT_MAX" "int (length pre + length (d # ds @ chr_colon # bs)) \<le> len"
  shows "b_parse_string (pre @ (d # ds @ chr_colon # bs) @ rest) len (int (length pre) + 1) d start =
    gives (BencString bs start (int (length pre + length (d # ds @ chr_colon # bs)) - 1))
      (int (length pre + length (d # ds @ chr_colon # bs)))"
proof -
  let ?pre = "pre @ [d]" and ?pre2 = "pre @ d # ds @ [chr_colon]"
  have d: "digits_loop (?pre @ ds @ chr_colon # bs @ rest) len (int (length ?pre)) (digit_val d) =
      gives (dec_from (digit_val d) ds) (int (length ?pre + length ds))"
    using assms isdigit_val [of d] by (intro digits_loop_complete) auto
  have c: "copy_loop (?pre2 @ bs @ rest) len (int (length ?pre2)) (length bs) =
      gives bs (int (length ?pre2 + length bs))"
    using assms by (intro copy_loop_complete) simp
  have r: "rd ((pre @ d # ds) @ chr_colon # bs @ rest) (int (length (pre @ d # ds))) = Inr chr_colon"
    by (rule rd_append)
  show ?thesis
    using d c r assms(2,3) by (simp add: b_parse_string_def add.commute add.left_commute)
qed

lemma b_parse_int_complete:
  assumes "list_all isdigit ds" "dec_from 0 ds \<le> INT_MAX"
    and m: "m = [] \<or> m = [chr_minus]"
    and len: "int (length pre + length (chr_i # m @ ds @ [chr_e])) \<le> len"
  shows "b_parse_int (pre @ (chr_i # m @ ds @ [chr_e]) @ rest) len (int (length pre) + 1) start =
    gives (BencInteger (if m = [] then dec_from 0 ds else - dec_from 0 ds) start
        (int (length pre + length (chr_i # m @ ds @ [chr_e])) - 1))
      (int (length pre + length (chr_i # m @ ds @ [chr_e])))"
proof -
  let ?pre = "pre @ chr_i # m"
  have d: "digits_loop (?pre @ ds @ chr_e # rest) len (int (length ?pre)) 0 =
      gives (dec_from 0 ds) (int (length ?pre + length ds))"
    using assms by (intro digits_loop_complete) auto
  have r: "rd ((?pre @ ds) @ chr_e # rest) (int (length (?pre @ ds))) = Inr chr_e"
    by (rule rd_append)
  obtain c cs where hd: "m @ ds @ chr_e # rest = c # cs" by (metis append_is_Nil_conv list.distinct(1) neq_Nil_conv)
  have neg: "c = chr_minus \<longleftrightarrow> m \<noteq> []"
    using hd m assms(1) by (cases ds) auto
  have "rd ((pre @ [chr_i]) @ c # cs) (int (length (pre @ [chr_i]))) = Inr c" by (rule rd_append)
  then have "rd (pre @ chr_i # m @ ds @ chr_e # rest) (int (length pre) + 1) = Inr c"
    using hd by (simp add: add.commute)
  then show ?thesis
    using d r m neg len
    by (cases "m = []") (auto simp: b_parse_int_def add.commute add.left_commute)
qed

text \<open>What it means for the decoder, its list loop and its dictionary loop to accept a word
  that stands anywhere in the first \<open>INT_MAX\<close> bytes of a buffer. An entry of a dictionary takes at
  least four bytes, so a table the loop has filled is far below \<open>PUT_LIMIT\<close>.\<close>

definition accepts :: "bytes \<Rightarrow> bval \<Rightarrow> bool" where
  "accepts w a \<longleftrightarrow>
     (\<forall>pre rest len fuel. int (length pre + length w) \<le> len \<longrightarrow>
        int (length pre + length w) \<le> INT_MAX \<longrightarrow> nat (len - int (length pre)) < fuel \<longrightarrow>
        (\<exists>v. b_parse_any fuel (pre @ w @ rest) len (int (length pre)) =
               gives v (int (length pre + length w)) \<and> bv_abs v = a \<and> bv_wf v))"

definition accepts_list :: "bytes \<Rightarrow> bval list \<Rightarrow> bool" where
  "accepts_list w as \<longleftrightarrow>
     (\<forall>pre rest len fuel lf acc. int (length pre + length w) < len \<longrightarrow>
        int (length pre + length w) \<le> INT_MAX \<longrightarrow>
        nat (len - int (length pre)) < fuel \<longrightarrow> nat (len - int (length pre)) < lf \<longrightarrow>
        (\<exists>vs. b_list_loop (b_parse_any fuel (pre @ w @ chr_e # rest) len) lf (pre @ w @ chr_e # rest)
                len (int (length pre)) acc = gives (acc @ vs) (int (length pre + length w)) \<and>
              map bv_abs vs = as))"

definition accepts_dict :: "bytes \<Rightarrow> (bytes \<times> bval) list \<Rightarrow> bool" where
  "accepts_dict w kvs \<longleftrightarrow>
     (\<forall>pre rest len fuel lf ht. int (length pre + length w) < len \<longrightarrow>
        int (length pre + length w) \<le> INT_MAX \<longrightarrow>
        nat (len - int (length pre)) < fuel \<longrightarrow> nat (len - int (length pre)) < lf \<longrightarrow> dict_wf ht \<longrightarrow>
        0 \<le> ht_size ht \<longrightarrow> 4 * ht_size ht \<le> int (length pre) \<longrightarrow>
        (\<exists>ht'. b_dict_loop (b_parse_any fuel (pre @ w @ chr_e # rest) len) lf (pre @ w @ chr_e # rest)
                len (int (length pre)) ht = gives ht' (int (length pre + length w)) \<and>
              dict_abs ht' = dict_abs ht ++ map_of (rev kvs)))"

lemma any_wf:
  "b_parse_any fuel string len pos = gives v p \<Longrightarrow> 0 \<le> pos \<Longrightarrow> nat (len - pos) < fuel \<Longrightarrow> bv_wf v"
  using b_parse_any_post [of pos len fuel string] by (simp add: parsed_def)

lemma accepts_string:
  assumes "ds \<noteq> []" "list_all isdigit ds" "dec_from 0 ds = int (length bs)" "int (length bs) < INT_MAX"
  shows "accepts (ds @ chr_colon # bs) (AStr bs)"
  unfolding accepts_def
proof (intro allI impI)
  fix pre rest :: bytes and len :: int and fuel :: nat
  assume len: "int (length pre + length (ds @ chr_colon # bs)) \<le> len"
    and max: "int (length pre + length (ds @ chr_colon # bs)) \<le> INT_MAX"
    and fuel: "nat (len - int (length pre)) < fuel"
  obtain d es where ds: "ds = d # es" using assms(1) by (auto simp: neq_Nil_conv)
  obtain f where f: "fuel = Suc f" using fuel by (cases fuel) auto
  have "isdigit d" using assms(2) ds by simp
  then have "d \<noteq> chr_i" "d \<noteq> chr_l" "d \<noteq> chr_d" by auto
  then show "\<exists>v. b_parse_any fuel (pre @ (ds @ chr_colon # bs) @ rest) len (int (length pre)) =
      gives v (int (length pre + length (ds @ chr_colon # bs))) \<and> bv_abs v = AStr bs \<and> bv_wf v"
    using b_parse_string_complete [of d es bs pre len rest "int (length pre)"] assms ds f len
      \<open>isdigit d\<close> by simp
qed

lemma accepts_int:
  assumes "list_all isdigit ds" "dec_from 0 ds \<le> INT_MAX" and m: "m = [] \<or> m = [chr_minus]"
  shows "accepts (chr_i # m @ ds @ [chr_e]) (AInt (if m = [] then dec_from 0 ds else - dec_from 0 ds))"
  unfolding accepts_def
proof (intro allI impI)
  fix pre rest :: bytes and len :: int and fuel :: nat
  assume len: "int (length pre + length (chr_i # m @ ds @ [chr_e])) \<le> len"
    and max: "int (length pre + length (chr_i # m @ ds @ [chr_e])) \<le> INT_MAX"
    and fuel: "nat (len - int (length pre)) < fuel"
  obtain f where f: "fuel = Suc f" using fuel by (cases fuel) auto
  have "0 \<le> dec_from 0 ds" using dec_from_mono [of 0 ds] assms(1) by simp
  then show "\<exists>v. b_parse_any fuel (pre @ (chr_i # m @ ds @ [chr_e]) @ rest) len (int (length pre)) =
      gives v (int (length pre + length (chr_i # m @ ds @ [chr_e]))) \<and>
      bv_abs v = AInt (if m = [] then dec_from 0 ds else - dec_from 0 ds) \<and> bv_wf v"
    using b_parse_int_complete [OF assms len, of rest "int (length pre)"] f len assms(2) by simp
qed

lemma accepts_list_bracket:
  assumes "accepts_list w vs"
  shows "accepts (chr_l # w @ [chr_e]) (AList vs)"
  unfolding accepts_def
proof (intro allI impI)
  fix pre rest :: bytes and len :: int and fuel :: nat
  assume len: "int (length pre + length (chr_l # w @ [chr_e])) \<le> len"
    and max: "int (length pre + length (chr_l # w @ [chr_e])) \<le> INT_MAX"
    and fuel: "nat (len - int (length pre)) < fuel"
  let ?s = "pre @ (chr_l # w @ [chr_e]) @ rest" and ?pre = "pre @ [chr_l]"
  obtain f where f: "fuel = Suc f" using fuel by (cases fuel) auto
  have "\<exists>us. b_list_loop (b_parse_any f (?pre @ w @ chr_e # rest) len)
      (Suc (nat (len - int (length ?pre)))) (?pre @ w @ chr_e # rest) len (int (length ?pre)) [] =
      gives ([] @ us) (int (length ?pre + length w)) \<and> map bv_abs us = vs"
    by (rule assms [unfolded accepts_list_def, rule_format]) (use len max fuel f in simp_all)
  then obtain us where us: "b_list_loop (b_parse_any f ?s len) (Suc (nat (len - (int (length pre) + 1))))
      ?s len (int (length pre) + 1) [] = gives us (int (length pre + length w) + 1)" "map bv_abs us = vs"
    by (auto simp: add.commute add.left_commute simp del: b_list_loop.simps)
  let ?v = "BencList us (int (length pre)) (int (length pre + length w) + 1)"
  have r: "b_parse_any fuel ?s len (int (length pre)) = gives ?v (int (length pre + length (chr_l # w @ [chr_e])))"
    using us(1) f len by (simp add: b_parse_list_def del: b_list_loop.simps)
  moreover have "bv_wf ?v" by (rule any_wf [OF r _ fuel]) simp
  moreover have "bv_abs ?v = AList vs" using us(2) by simp
  ultimately show "\<exists>v. b_parse_any fuel ?s len (int (length pre)) =
      gives v (int (length pre + length (chr_l # w @ [chr_e]))) \<and> bv_abs v = AList vs \<and> bv_wf v"
    by blast
qed

lemma accepts_dict_bracket:
  assumes "accepts_dict w kvs"
  shows "accepts (chr_d # w @ [chr_e]) (ADict (map_of (rev kvs)))"
  unfolding accepts_def
proof (intro allI impI)
  fix pre rest :: bytes and len :: int and fuel :: nat
  assume len: "int (length pre + length (chr_d # w @ [chr_e])) \<le> len"
    and max: "int (length pre + length (chr_d # w @ [chr_e])) \<le> INT_MAX"
    and fuel: "nat (len - int (length pre)) < fuel"
  let ?s = "pre @ (chr_d # w @ [chr_e]) @ rest" and ?pre = "pre @ [chr_d]"
  let ?i = "hashtable_init fnv_1a_hash_str strcmp :: bencode_dict"
  obtain f where f: "fuel = Suc f" using fuel by (cases fuel) auto
  have i: "dict_wf ?i" by (simp add: str_keys.init_wf str_keys.init_map)
  have z: "ht_size ?i = 0" by (simp add: hashtable_init_def)
  have e: "dict_abs ?i = Map.empty" by (simp add: str_keys.init_map fun_eq_iff)
  have "\<exists>ht. b_dict_loop (b_parse_any f (?pre @ w @ chr_e # rest) len)
      (Suc (nat (len - int (length ?pre)))) (?pre @ w @ chr_e # rest) len (int (length ?pre)) ?i =
      gives ht (int (length ?pre + length w)) \<and> dict_abs ht = dict_abs ?i ++ map_of (rev kvs)"
    by (rule assms [unfolded accepts_dict_def, rule_format]) (use i z len max fuel f in simp_all)
  then obtain ht where ht: "b_dict_loop (b_parse_any f ?s len) (Suc (nat (len - (int (length pre) + 1))))
      ?s len (int (length pre) + 1) ?i = gives ht (int (length pre + length w) + 1)"
      "dict_abs ht = map_of (rev kvs)"
    unfolding e by (auto simp: add.commute add.left_commute simp del: b_dict_loop.simps)
  let ?v = "BencDict ht (int (length pre)) (int (length pre + length w) + 1)"
  have r: "b_parse_any fuel ?s len (int (length pre)) = gives ?v (int (length pre + length (chr_d # w @ [chr_e])))"
    using ht(1) f len by (simp add: b_parse_dict_def del: b_dict_loop.simps)
  moreover have "bv_wf ?v" by (rule any_wf [OF r _ fuel]) simp
  moreover have "bv_abs ?v = ADict (map_of (rev kvs))" unfolding bv_abs_dict ht(2) ..
  ultimately show "\<exists>v. b_parse_any fuel ?s len (int (length pre)) =
      gives v (int (length pre + length (chr_d # w @ [chr_e]))) \<and>
      bv_abs v = ADict (map_of (rev kvs)) \<and> bv_wf v"
    by blast
qed

lemma accepts_list_Nil: "accepts_list [] []"
  unfolding accepts_list_def
proof (intro allI impI)
  fix pre rest :: bytes and len :: int and fuel lf :: nat and acc
  assume "nat (len - int (length pre)) < lf"
  then obtain f where "lf = Suc f" by (cases lf) auto
  then show "\<exists>vs. b_list_loop (b_parse_any fuel (pre @ [] @ chr_e # rest) len) lf
      (pre @ [] @ chr_e # rest) len (int (length pre)) acc =
      gives (acc @ vs) (int (length pre + length ([] :: bytes))) \<and> map bv_abs vs = []" by simp
qed

lemma accepts_list_Cons:
  assumes w: "benc w v" "accepts w v" and ws: "accepts_list ws vs"
  shows "accepts_list (w @ ws) (v # vs)"
  unfolding accepts_list_def
proof (intro allI impI)
  fix pre rest :: bytes and len :: int and fuel lf :: nat and acc
  assume len: "int (length pre + length (w @ ws)) < len"
    and max: "int (length pre + length (w @ ws)) \<le> INT_MAX"
    and fuel: "nat (len - int (length pre)) < fuel" and lf: "nat (len - int (length pre)) < lf"
  let ?s = "pre @ (w @ ws) @ chr_e # rest" and ?any = "\<lambda>s. b_parse_any fuel s len"
  obtain f where f: "lf = Suc f" using lf by (cases lf) auto
  obtain c cs where c: "w = c # cs" "c \<noteq> chr_e" using benc_first [OF w(1)] by auto
  obtain u where u: "?any (pre @ w @ ws @ chr_e # rest) (int (length pre)) =
      gives u (int (length pre + length w))" "bv_abs u = v"
    using w(2) [unfolded accepts_def, rule_format, of pre len fuel "ws @ chr_e # rest"] len max fuel
    by auto
  have "\<exists>us. b_list_loop (?any ((pre @ w) @ ws @ chr_e # rest)) f ((pre @ w) @ ws @ chr_e # rest) len
      (int (length (pre @ w))) (acc @ [u]) =
      gives ((acc @ [u]) @ us) (int (length (pre @ w) + length ws)) \<and> map bv_abs us = vs"
    by (rule ws [unfolded accepts_list_def, rule_format])
      (use len max fuel lf f benc_nonempty [OF w(1)] in auto)
  then obtain us where us: "b_list_loop (?any ?s) f ?s len (int (length pre + length w)) (acc @ [u]) =
      gives (acc @ u # us) (int (length pre + length (w @ ws)))" "map bv_abs us = vs"
    by (auto simp: add.assoc)
  have "rd ?s (int (length pre)) = Inr c" using c by simp
  then have "b_list_loop (?any ?s) lf ?s len (int (length pre)) acc =
      gives (acc @ u # us) (int (length pre + length (w @ ws)))"
    using f c(2) u(1) us(1) len by simp
  then show "\<exists>vs'. b_list_loop (?any ?s) lf ?s len (int (length pre)) acc =
      gives (acc @ vs') (int (length pre + length (w @ ws))) \<and> map bv_abs vs' = v # vs"
    using u(2) us(2) by (intro exI [of _ "u # us"]) simp
qed

lemma accepts_dict_Nil: "accepts_dict [] []"
  unfolding accepts_dict_def
proof (intro allI impI)
  fix pre rest :: bytes and len :: int and fuel lf :: nat and ht
  assume "nat (len - int (length pre)) < lf"
  then obtain f where "lf = Suc f" by (cases lf) auto
  then show "\<exists>ht'. b_dict_loop (b_parse_any fuel (pre @ [] @ chr_e # rest) len) lf
      (pre @ [] @ chr_e # rest) len (int (length pre)) ht =
      gives ht' (int (length pre + length ([] :: bytes))) \<and>
      dict_abs ht' = dict_abs ht ++ map_of (rev [])" by (intro exI [of _ ht]) simp
qed

lemma bv_abs_string: "bv_abs kv = AStr k \<Longrightarrow> \<exists>s e. kv = BencString k s e"
  by (cases kv) auto

lemma accepts_dict_Cons:
  assumes kw: "benc kw (AStr k)" "accepts kw (AStr k)" and w: "benc w v" "accepts w v"
    and ws: "accepts_dict ws kvs"
  shows "accepts_dict (kw @ w @ ws) ((cstr k, v) # kvs)"
  unfolding accepts_dict_def
proof (intro allI impI)
  fix pre rest :: bytes and len :: int and fuel lf :: nat and ht
  assume len: "int (length pre + length (kw @ w @ ws)) < len" and ht: "dict_wf ht"
    and max: "int (length pre + length (kw @ w @ ws)) \<le> INT_MAX"
    and size: "0 \<le> ht_size ht" "4 * ht_size ht \<le> int (length pre)"
    and fuel: "nat (len - int (length pre)) < fuel" and lf: "nat (len - int (length pre)) < lf"
  let ?s = "pre @ (kw @ w @ ws) @ chr_e # rest" and ?any = "\<lambda>s. b_parse_any fuel s len"
  obtain f where f: "lf = Suc f" using lf by (cases lf) auto
  obtain c cs where c: "kw = c # cs" "c \<noteq> chr_e" using benc_first [OF kw(1)] by auto
  have "\<exists>u. ?any (pre @ kw @ w @ ws @ chr_e # rest) (int (length pre)) =
      gives u (int (length pre + length kw)) \<and> bv_abs u = AStr k \<and> bv_wf u"
    by (rule kw(2) [unfolded accepts_def, rule_format]) (use len max fuel in auto)
  then obtain s e where u: "?any ?s (int (length pre)) =
      gives (BencString k s e) (int (length pre + length kw))"
    by (auto dest!: bv_abs_string)
  have "\<exists>x. ?any ((pre @ kw) @ w @ ws @ chr_e # rest) (int (length (pre @ kw))) =
      gives x (int (length (pre @ kw) + length w)) \<and> bv_abs x = v \<and> bv_wf x"
    by (rule w(2) [unfolded accepts_def, rule_format]) (use len max fuel in auto)
  then obtain x where x: "?any ?s (int (length pre + length kw)) =
      gives x (int (length pre + length kw + length w))" "bv_abs x = v" "bv_wf x" by auto
  obtain ht1 r where h1: "hashtable_put ht (cstr k) x = Inr (ht1, r)" "dict_wf ht1"
      "ht_map ht1 = (ht_map ht)(cstr k \<mapsto> x)" "ht_size ht1 = ht_size ht + 1"
    using dict_put_room [OF ht x(3), of k] size max by (auto simp: ht_room_def PUT_LIMIT_def)
  have "2 \<le> length kw" "2 \<le> length w" using benc_length kw(1) w(1) by blast+
  then have size1: "0 \<le> ht_size ht1" "4 * ht_size ht1 \<le> int (length (pre @ kw @ w))"
    using size h1(4) by simp_all
  have "\<exists>ht'. b_dict_loop (?any ((pre @ kw @ w) @ ws @ chr_e # rest)) f
      ((pre @ kw @ w) @ ws @ chr_e # rest) len (int (length (pre @ kw @ w))) ht1 =
      gives ht' (int (length (pre @ kw @ w) + length ws)) \<and>
      dict_abs ht' = dict_abs ht1 ++ map_of (rev kvs)"
    by (rule ws [unfolded accepts_dict_def, rule_format])
      (use len max fuel lf f h1(2) size1 benc_nonempty [OF w(1)] in auto)
  then obtain ht' where ht': "b_dict_loop (?any ?s) f ?s len (int (length pre + length kw + length w)) ht1 =
      gives ht' (int (length pre + length (kw @ w @ ws)))"
      "dict_abs ht' = dict_abs ht1 ++ map_of (rev kvs)"
    by (auto simp: add.assoc)
  have "rd ?s (int (length pre)) = Inr c" using c by simp
  then have "b_dict_loop (?any ?s) lf ?s len (int (length pre)) ht =
      gives ht' (int (length pre + length (kw @ w @ ws)))"
    using f c(2) u x(1) h1(1) ht'(1) len by simp
  moreover have "dict_abs ht' = dict_abs ht ++ map_of (rev ((cstr k, v) # kvs))"
    unfolding ht'(2) dict_abs_upd [OF h1(3)] x(2) by simp
  ultimately show "\<exists>ht'. b_dict_loop (?any ?s) lf ?s len (int (length pre)) ht =
      gives ht' (int (length pre + length (kw @ w @ ws))) \<and>
      dict_abs ht' = dict_abs ht ++ map_of (rev ((cstr k, v) # kvs))" by blast
qed

lemma benc_accepts:
  "benc w v \<Longrightarrow> accepts w v"
  "bencs ws vs \<Longrightarrow> accepts_list ws vs"
  "bencd kws kvs \<Longrightarrow> accepts_dict kws kvs"
proof (induction rule: benc_bencs_bencd.inducts)
  case (benc_string ds bs)
  then show ?case by (rule accepts_string)
next
  case (benc_int ds)
  then show ?case using accepts_int [of ds "[]"] by simp
next
  case (benc_neg ds)
  then show ?case using accepts_int [of ds "[chr_minus]"] by simp
next
  case (benc_list w vs)
  then show ?case by (intro accepts_list_bracket)
next
  case (benc_dict w kvs)
  then show ?case by (intro accepts_dict_bracket)
next
  case bencs_Nil
  then show ?case by (rule accepts_list_Nil)
next
  case (bencs_Cons w v ws vs)
  then show ?case by (intro accepts_list_Cons)
next
  case bencd_Nil
  then show ?case by (rule accepts_dict_Nil)
next
  case (bencd_Cons kw k w v ws kvs)
  then show ?case by (intro accepts_dict_Cons)
qed

lemma bencode_parse_complete:
  assumes "benc w a" "int (length w) \<le> len" "int (length w) \<le> INT_MAX"
  shows "\<exists>v. bencode_parse (w @ rest) len = gives v (int (length w)) \<and> bv_abs v = a \<and> bv_wf v"
  using benc_accepts(1) [OF assms(1), unfolded accepts_def, rule_format, of "[]" len "Suc (nat len)" rest]
    assms(2,3) by (simp add: bencode_parse_def del: b_parse_any.simps)

lemma bencode_parse_post:
  "0 \<le> len \<Longrightarrow> post (parse_ub string len) (parsed string 0) (bencode_parse string len)"
  unfolding bencode_parse_def by (rule b_parse_any_post) simp_all

lemma dict_exists:
  assumes "list_all (\<lambda>(k, v). c_string k \<and> bv_wf v) kvs" and "int (length kvs) \<le> PUT_LIMIT"
  shows "\<exists>ht :: bencode_dict. dict_wf ht \<and> ht_map ht = map_of (rev kvs)"
proof -
  have "\<exists>ht. rfold (\<lambda>(k, v) ht. rmap fst (hashtable_put ht k v)) kvs
      (hashtable_init fnv_1a_hash_str strcmp :: bencode_dict) = Inr ht \<and>
      ht_wf c_string fnv_1a_hash_str strcmp ht \<and>
      ht_map ht = ht_map (hashtable_init fnv_1a_hash_str strcmp) ++ map_of (rev kvs)"
    by (rule str_keys.put_all [OF str_keys.init_wf _ init_room [OF assms(2)]])
      (use assms(1) in \<open>auto simp: list_all_iff\<close>)
  then obtain ht :: bencode_dict where ht: "ht_wf c_string fnv_1a_hash_str strcmp ht" "ht_map ht = map_of (rev kvs)"
    by (auto simp: str_keys.init_map)
  then have "bv_wf v" if "v \<in> ran (ht_map ht)" for v
    using that assms(1) by (auto simp: ran_def list_all_iff dest!: map_of_SomeD)
  with ht show ?thesis by blast
qed

subsection \<open>Evaluation on concrete buffers\<close>

text \<open>The recursion equations with a numeral as bound.\<close>

lemmas parse_eval =
  b_parse_any.simps(2) [of "pred_numeral k" for k, folded numeral_eq_Suc]
  b_list_loop.simps(2) [of _ "pred_numeral k" for k, folded numeral_eq_Suc]
  b_dict_loop.simps(2) [of _ "pred_numeral k" for k, folded numeral_eq_Suc]
  copy_loop.simps(2) [of _ _ _ "pred_numeral k" for k, folded numeral_eq_Suc]
  bencode_parse_def b_parse_int_def b_parse_string_def b_parse_list_def b_parse_dict_def
  digits_loop.simps rd_def isdigit_def digit_val_def check_int_def Let_def

subsection \<open>Properties\<close>

text \<open>C13: The decoder ends on every buffer and every length. If it does something undefined,
  that is a signed overflow (of a decimal number, or of the counter or the capacity of a
  dictionary), or a read outside a buffer that has no NUL at
  index \<open>len\<close>; on a NUL-terminated buffer it never reads out of bounds. Otherwise it returns
  0 with a value, or one of the two error codes.\<close>

theorem bencode_parse_total:
  assumes "0 \<le> len"
  shows "(\<exists>v p. bencode_parse string len = gives v p) \<or>
    (\<exists>c \<in> {- 1, - 2}. bencode_parse string len = fails c) \<or>
    bencode_parse string len = Inl SignedOverflow \<or>
    (bencode_parse string len = Inl OutOfBounds \<and> \<not> terminated string len)"
  using bencode_parse_post [OF assms, of string]
  by (cases "bencode_parse string len" rule: parse_cases) (auto simp: parse_ub_def)

theorem bencode_parse_total_witness:
  "bencode_parse [chr_i, chr_minus, 0] 2 = fails (- 2) \<and> terminated [chr_i, chr_minus, 0] 2"
proof -
  have t: "terminated [chr_i, chr_minus, 0] 2" by (simp add: terminated_def)
  have "bencode_parse [chr_i, chr_minus, 0] 2 \<noteq> Inl OutOfBounds"
    using bencode_parse_total [of 2 "[chr_i, chr_minus, 0]"] t by auto
  moreover have "bencode_parse [chr_i, chr_minus, 0] 2 = fails (- 2)"
    by (simp add: parse_eval)
  ultimately show ?thesis using t by blast
qed

text \<open>C12: Soundness. When the decoder returns 0, the bytes it used up are a word of the bencode
  grammar, the value denotes that word, dictionaries inside it are well-formed tables, and the
  recorded \<open>start\<close> and \<open>end\<close> offsets are the first and the last byte of the word.\<close>

theorem bencode_parse_sound:
  assumes "0 \<le> len" and "bencode_parse string len = gives v p"
  shows "benc (take (nat p) string) (bv_abs v) \<and> bv_wf v \<and> 0 < p \<and> p \<le> int (length string) \<and>
    bv_start v = 0 \<and> bv_end v = p - 1"
  using bencode_parse_post [OF assms(1), of string] assms(2)
  by (simp add: parsed_def bslice_def)

theorem bencode_parse_sound_witness:
  "benc (take 3 [chr_i, 55, chr_e]) (AInt 7)"
proof -
  have "bencode_parse [chr_i, 55, chr_e] 3 = gives (BencInteger 7 0 2) 3"
    by (simp add: parse_eval)
  from bencode_parse_sound [OF _ this] show ?thesis by simp
qed

text \<open>C11: Completeness. On a buffer that begins with a word of the grammar, with \<open>len\<close> not
  smaller than the word, the decoder returns 0, the value the word denotes, and the position
  after the word, whatever follows it. (A word within \<open>len\<close> is no longer than \<open>INT_MAX\<close>: \<open>len\<close> is
  an \<open>int\<close>.)\<close>

theorem bencode_parse_accepts_grammar:
  assumes "benc w a" and "int (length w) \<le> len" and "int (length w) \<le> INT_MAX"
  shows "\<exists>v. bencode_parse (w @ rest) len = gives v (int (length w)) \<and> bv_abs v = a \<and> bv_wf v"
  using assms by (rule bencode_parse_complete)

theorem bencode_parse_accepts_grammar_witness:
  "\<exists>v. bencode_parse ([51, chr_colon, 97, 98, 99] @ []) 5 = gives v 5 \<and> bv_abs v = AStr [97, 98, 99]"
proof -
  have "benc ([51] @ chr_colon # [97, 98, 99]) (AStr [97, 98, 99])"
    by (rule benc_string) (simp_all add: isdigit_def digit_val_def)
  then have "benc [51, chr_colon, 97, 98, 99] (AStr [97, 98, 99])" by simp
  from bencode_parse_accepts_grammar [OF this, of 5 "[]"] show ?thesis by auto
qed

text \<open>A buffer without a terminating NUL, which is what the torrent loader passes, can make
  the decoder read past its end: the one-byte input \<open>5\<close> and the two-byte input \<open>i-\<close> do.\<close>

lemma bencode_parse_overreads:
  "bencode_parse [53] 1 = Inl OutOfBounds \<and> bencode_parse [chr_i, chr_minus] 2 = Inl OutOfBounds"
  by (simp add: parse_eval)

text \<open>A decimal number above \<open>INT_MAX\<close> overflows the \<open>int\<close> accumulator although
  \<open>bencode_integer\<close> is a \<open>long long\<close>: \<open>i2147483648e\<close> is an example.\<close>

lemma bencode_parse_overflows:
  "bencode_parse [chr_i, 50, 49, 52, 55, 52, 56, 51, 54, 52, 56, chr_e, 0] 12 = Inl SignedOverflow"
  by (simp add: parse_eval)

end
