(* ===== verification/Flood_Bencode_Print.thy ===== *)
theory Flood_Bencode_Print
  imports Flood_Bencode
begin

section \<open>The bencode encoder and the debug printer (src/util/bencode.c)\<close>

text \<open>
  \<open>bencode_to_string\<close> first computes the length of the output (\<open>b_to_string_len\<close>),
  allocates that many bytes plus one, and then writes into the buffer (\<open>b_to_string\<close>), which
  the model keeps as the pair of the buffer and the write index; each write is checked against
  the buffer. The keys of a dictionary are collected into an array of \<open>hashtable_size\<close>
  pointers and passed to \<open>qsort\<close>. The comparison function given to \<open>qsort\<close> is \<open>strcmp\<close>,
  which receives the addresses of the array elements and so compares the bytes of the pointers
  and not the strings: the order is not a function of the keys. The model takes the sorting
  step as a parameter \<open>qs\<close>, of which the theorems only assume what \<open>qsort\<close> documents, that
  it rearranges the array.
  The main result is that encoding a well-formed value whose tables count their entries exactly
  fills the buffer exactly, and that decoding the result gives back the same abstract value.
\<close>

subsection \<open>Decimal output\<close>

fun dec_nat :: "nat \<Rightarrow> bytes" where
  "dec_nat n = (if n < 10 then [of_nat (48 + n)] else dec_nat (n div 10) @ [of_nat (48 + n mod 10)])"

declare dec_nat.simps [simp del]

text \<open>The conversion \<open>%d\<close> of \<open>printf\<close>.\<close>

definition show_int :: "int \<Rightarrow> bytes" where
  "show_int n = (if n < 0 then chr_minus # dec_nat (nat (- n)) else dec_nat (nat n))"

definition itoa :: "int \<Rightarrow> bytes" where
  "itoa n = show_int n"

function declen_loop :: "int \<Rightarrow> int \<Rightarrow> int" where
  "declen_loop n c = (if n > 0 then declen_loop (n div 10) (c + 1) else c)"
  by pat_completeness auto
termination
  by (relation "measure (\<lambda>(n, c). nat n)") auto

declare declen_loop.simps [simp del]

definition declen :: "int \<Rightarrow> int res" where
  "declen n =
     (if n = 0 then Inr 1
      else if n < 0 then rbind (check_int (- n)) (\<lambda>n. Inr (declen_loop n 1))
      else Inr (declen_loop n 0))"

subsection \<open>What makes the recursion end\<close>

lemma rfold_cong [fundef_cong]:
  "xs = ys \<Longrightarrow> s = t \<Longrightarrow> (\<And>x s. x \<in> set ys \<Longrightarrow> f x s = g x s) \<Longrightarrow> rfold f xs s = rfold g ys t"
proof (induction xs arbitrary: ys s t)
  case Nil
  then show ?case by auto
next
  case (Cons x xs)
  have "rfold f xs s' = rfold g xs s'" for s'
    by (rule Cons.IH [OF refl refl]) (use Cons.prems in auto)
  then have "rfold f xs = rfold g xs" ..
  with Cons.prems show ?case by auto
qed

lemma rd_mem: "rd buf i = Inr x \<Longrightarrow> x \<in> set buf"
  by (auto simp: rd_eq_Inr)

lemma iter_scan_set:
  "iter_scan cap t i nxt = Inr (i', c) \<Longrightarrow> set nxt \<subseteq> set (concat t) \<Longrightarrow> set c \<subseteq> set (concat t)"
proof (induction cap t i nxt rule: iter_scan.induct)
  case (1 cap t i nxt)
  show ?case
  proof (cases "i < cap")
    case True
    then obtain ch where ch: "rd t i = Inr ch"
        "(if ch = [] then iter_scan cap t (i + 1) [] else Inr (i + 1, ch)) = Inr (i', c)"
      using "1.prems"(1) by (auto simp: iter_scan.simps [of cap t i] rbind_eq_Inr)
    then have "set ch \<subseteq> set (concat t)" by (auto dest: rd_mem)
    with ch True "1.IH" show ?thesis by (auto split: if_splits)
  next
    case False
    with "1.prems" show ?thesis by (simp add: iter_scan.simps [of cap t i])
  qed
qed

lemma iter_next_set:
  assumes "hashtable_iter_next iter = Inr (iter', r)" "set (it_next iter) \<subseteq> set (ht_entries (it_ht iter))"
  shows "it_ht iter' = it_ht iter \<and> set (it_next iter') \<subseteq> set (ht_entries (it_ht iter)) \<and>
    set_option r \<subseteq> set (ht_entries (it_ht iter))"
proof (cases "it_next iter")
  case Nil
  with assms show ?thesis by (auto simp: hashtable_iter_next_def)
next
  case (Cons e rest)
  then have sub: "set (e # rest) \<subseteq> set (concat (ht_table (it_ht iter)))"
    using assms(2) by (simp add: ht_entries_def)
  show ?thesis
  proof (cases "rest = []")
    case True
    then obtain i c where sc: "iter_scan (ht_cap (it_ht iter)) (ht_table (it_ht iter)) (it_index iter) [] = Inr (i, c)"
        "iter' = iter\<lparr>it_index := i, it_next := c\<rparr>" "r = Some e"
      using assms(1) Cons by (auto simp: hashtable_iter_next_def rbind_eq_Inr)
    have "set c \<subseteq> set (concat (ht_table (it_ht iter)))" using iter_scan_set [OF sc(1)] by simp
    with sc sub show ?thesis by (simp add: ht_entries_def)
  next
    case False
    with assms(1) Cons sub show ?thesis by (auto simp: hashtable_iter_next_def ht_entries_def)
  qed
qed

lemma iter_pairs_set:
  "iter_pairs fuel iter = Inr es \<Longrightarrow> set (it_next iter) \<subseteq> set (ht_entries (it_ht iter)) \<Longrightarrow>
     set es \<subseteq> set (ht_entries (it_ht iter))"
proof (induction fuel arbitrary: iter es)
  case 0
  then show ?case by simp
next
  case (Suc fuel)
  show ?case
  proof (cases "hashtable_iter_has_next iter")
    case True
    then obtain iter' e es' where "hashtable_iter_next iter = Inr (iter', Some e)"
        "iter_pairs fuel iter' = Inr es'" "es = e # es'"
      using Suc.prems(1) by (auto simp: rbind_eq_Inr rmap_def split: option.splits)
    with iter_next_set [OF this(1) Suc.prems(2)] Suc.IH [of iter' es'] show ?thesis by auto
  next
    case False
    with Suc.prems show ?thesis by simp
  qed
qed

lemma hashtable_pairs_set:
  "hashtable_pairs ht = Inr es \<Longrightarrow> set es \<subseteq> set (ht_entries ht)"
proof -
  assume "hashtable_pairs ht = Inr es"
  then obtain iter where iter: "hashtable_iterator ht = Inr iter"
      "iter_pairs (Suc (length (ht_entries ht))) iter = Inr es"
    by (auto simp: hashtable_pairs_def rbind_eq_Inr)
  from iter(1) obtain i c where sc: "iter_scan (ht_cap ht) (ht_table ht) 0 [] = Inr (i, c)"
      "iter = \<lparr>it_ht = ht, it_index = i, it_next = c\<rparr>"
    by (auto simp: hashtable_iterator_def rbind_eq_Inr)
  have "set c \<subseteq> set (concat (ht_table ht))" using iter_scan_set [OF sc(1)] by simp
  then show ?thesis using iter_pairs_set [OF iter(2)] sc(2) by (simp add: ht_entries_def)
qed

lemma chain_get_set: "chain_get cf k c = Some v \<Longrightarrow> v \<in> snd ` set c"
  by (induction c) (auto split: if_splits)

lemma hashtable_get_set:
  assumes "hashtable_get ht k = Inr (r, Some v)"
  shows "v \<in> snd ` set (ht_entries ht)"
proof -
  obtain i c where "rd (ht_table ht) i = Inr c" "chain_get (ht_cmp_func ht) k c = Some v"
    using assms by (auto simp: hashtable_get_def rbind_eq_Inr split: if_splits option.splits)
  then show ?thesis
    by (force simp: ht_entries_def dest!: chain_get_set rd_mem)
qed

lemma size_elem: "v \<in> set vs \<Longrightarrow> size v < size (BencList vs s e)"
  by (induction vs) auto

lemma size_entry:
  assumes "v \<in> snd ` set (ht_entries ht)"
  shows "size v < size (BencDict ht s e)"
proof (cases ht)
  case (Hashtable n cap t hf cf m)
  have c: "v \<in> snd ` set c \<Longrightarrow> size v < size_list (size_prod (\<lambda>_. 0) size) c"
    for c :: "(bytes \<times> bencode_value) list"
  proof (induction c)
    case Nil
    then show ?case by simp
  next
    case (Cons x c)
    then show ?case by (cases x) fastforce
  qed
  have "v \<in> snd ` set (concat t)" using assms Hashtable by (simp add: ht_entries_def)
  then have "size v < size_list (size_list (size_prod (\<lambda>_. 0) size)) t"
  proof (induction t)
    case Nil
    then show ?case by simp
  next
    case (Cons x t)
    then consider "v \<in> snd ` set x" | "v \<in> snd ` set (concat t)"
      by (auto simp only: concat.simps set_append image_Un)
    then show ?case using c [of x] Cons.IH by cases simp_all
  qed
  then show ?thesis using Hashtable by simp
qed

lemma size_pair:
  "hashtable_pairs ht = Inr es \<Longrightarrow> (k, v) \<in> set es \<Longrightarrow> size v < size (BencDict ht s e)"
  by (rule size_entry) (force dest: hashtable_pairs_set)

lemma size_get: "hashtable_get ht k = Inr (r, Some v) \<Longrightarrow> size v < size (BencDict ht s e)"
  by (rule size_entry) (rule hashtable_get_set)

lemmas size_parts = size_elem [simplified] size_pair [simplified] size_get [simplified]

subsection \<open>Encoding\<close>

text \<open>Copying bytes to \<open>dst + *i\<close> and advancing \<open>*i\<close>.\<close>

definition put_bytes :: "bytes \<Rightarrow> bytes \<times> int \<Rightarrow> (bytes \<times> int) res" where
  "put_bytes bs st = (case st of (dst, i) \<Rightarrow>
     rbind (wrs dst i bs) (\<lambda>dst. Inr (dst, i + int (length bs))))"

definition write_num :: "int \<Rightarrow> bytes \<times> int \<Rightarrow> (bytes \<times> int) res" where
  "write_num num st = put_bytes (itoa num) st"

function b_to_string_len :: "bencode_value \<Rightarrow> int res" where
  "b_to_string_len (BencString bs _ _) =
     rbind (declen (int (length bs))) (\<lambda>d.
     check_int (d + 1 + int (length bs)))"
| "b_to_string_len (BencInteger n _ _) =
     rbind (declen (to_int32 n)) (\<lambda>d. check_int (1 + d + 1))"
| "b_to_string_len (BencList vs _ _) =
     rbind (rfold (\<lambda>elem sum.
        rbind (b_to_string_len elem) (\<lambda>elem_len. check_int (sum + elem_len))) vs 0) (\<lambda>sum.
     check_int (1 + sum + 1))"
| "b_to_string_len (BencDict ht _ _) =
     rbind (hashtable_pairs ht) (\<lambda>es.
     rbind (rfold (\<lambda>e sum.
        let key_len = to_int32 (int (length (fst e))) in
        rbind (b_to_string_len (snd e)) (\<lambda>val_len.
        rbind (declen key_len) (\<lambda>d.
        rbind (check_int (d + 1 + key_len)) (\<lambda>a.
        rbind (check_int (a + val_len)) (\<lambda>pair_len.
        check_int (sum + pair_len)))))) es 0) (\<lambda>sum.
     check_int (1 + sum + 1)))"
  by pat_completeness auto
termination
  by (relation "measure size")
    (auto intro: size_parts)

text \<open>\<open>b_to_string\<close>, with the sorting step \<open>qs\<close>. The array \<open>keys\<close> has \<open>hashtable_size\<close>
  slots: one key more is a write out of bounds, a slot that no key fills is read
  uninitialised by \<open>qsort\<close>.\<close>

function b_to_string ::
  "(bytes list \<Rightarrow> bytes list) \<Rightarrow> bencode_value \<Rightarrow> bytes \<times> int \<Rightarrow> (bytes \<times> int) res" where
  "b_to_string qs (BencString bs _ _) st =
     rbind (put_bytes (itoa (int (length bs))) st) (\<lambda>st.
     rbind (put_bytes [chr_colon] st) (put_bytes bs))"
| "b_to_string qs (BencInteger n _ _) st =
     rbind (put_bytes [chr_i] st) (\<lambda>st.
     rbind (put_bytes (itoa (to_int32 n)) st) (put_bytes [chr_e]))"
| "b_to_string qs (BencList vs _ _) st =
     rbind (put_bytes [chr_l] st) (\<lambda>st.
     rbind (rfold (b_to_string qs) vs st) (put_bytes [chr_e]))"
| "b_to_string qs (BencDict ht _ _) st =
     rbind (put_bytes [chr_d] st) (\<lambda>st.
     rbind (hashtable_pairs ht) (\<lambda>es.
     let keys_len = hashtable_size ht in
     if int (length es) > keys_len then Inl OutOfBounds
     else if int (length es) < keys_len then Inl UninitRead
     else rbind (rfold (\<lambda>key st.
            rbind (write_num (to_int32 (int (length key))) st) (\<lambda>st.
            rbind (put_bytes [chr_colon] st) (\<lambda>st.
            rbind (put_bytes key st) (\<lambda>st.
            rbind (hashtable_get ht key) (\<lambda>r.
            case snd r of None \<Rightarrow> Inl UninitRead
            | Some pair_val \<Rightarrow> b_to_string qs pair_val st)))))
            (qs (map fst es)) st) (put_bytes [chr_e])))"
  by pat_completeness auto
termination
  by (relation "measure (\<lambda>(qs, v, st). size v)")
    (auto intro: size_parts)

definition bencode_to_string ::
  "(bytes list \<Rightarrow> bytes list) \<Rightarrow> bencode_value \<Rightarrow> (bytes \<times> int) res" where
  "bencode_to_string qs val =
     rbind (b_to_string_len val) (\<lambda>len.
     rbind (check_int (len + 1)) (\<lambda>size.
     rbind (b_to_string qs val (replicate (nat size) 0, 0)) (\<lambda>(str, i).
     Inr (str, len))))"

subsection \<open>Debug output\<close>

definition isprint :: "byte \<Rightarrow> bool" where
  "isprint c \<longleftrightarrow> 32 \<le> c \<and> c \<le> 126"

definition safe_print :: "bytes \<Rightarrow> nat \<Rightarrow> bytes res" where
  "safe_print str len = rmap (map (\<lambda>c. if isprint c then c else 63)) (rds str 0 len)"

definition spaces :: "int \<Rightarrow> bytes" where
  "spaces n = replicate (nat n) 32"

text \<open>\<open>b_debug\<close> appends what it prints to the text printed so far.\<close>

function b_debug :: "bencode_value \<Rightarrow> int \<Rightarrow> bytes \<Rightarrow> bytes res" where
  "b_debug (BencString bs _ _) lvl out =
     (let len = (if length bs > 50 then 50 else length bs) in
      rbind (safe_print bs len) (\<lambda>txt.
      Inr (out @ spaces (lvl * 4) @ lit ''STRING (len='' @ show_int (int (length bs)) @ lit ''): '' @ txt @
           (if length bs > 50 then lit ''...'' else []) @ [10])))"
| "b_debug (BencInteger n _ _) lvl out =
     Inr (out @ spaces (lvl * 4) @ lit ''INTEGER: '' @ show_int n @ [10])"
| "b_debug (BencList vs _ _) lvl out =
     rfold (\<lambda>v. b_debug v (lvl + 1)) vs
       (out @ spaces (lvl * 4) @ lit ''LIST (len='' @ show_int (int (length vs)) @ lit ''):'' @ [10])"
| "b_debug (BencDict ht _ _) lvl out =
     rbind (hashtable_pairs ht) (\<lambda>es.
     rfold (\<lambda>e out. b_debug (snd e) (lvl + 2)
              (out @ spaces ((lvl + 1) * 4) @ fst e @ lit '' ->'' @ [10])) es
       (out @ spaces (lvl * 4) @ lit ''DICT (len='' @ show_int (hashtable_size ht) @ lit ''):'' @ [10]))"
  by pat_completeness auto
termination
  by (relation "measure (\<lambda>(v, lvl, out). size v)")
    (auto intro: size_parts)

definition bencode_debug :: "bencode_value \<Rightarrow> bytes res" where
  "bencode_debug val = b_debug val 0 []"

subsection \<open>Decimal output is what the decoder reads\<close>

lemma dec_nat_digits: "list_all isdigit (dec_nat n) \<and> dec_nat n \<noteq> [] \<and> dec_from 0 (dec_nat n) = int n"
proof (induction n rule: dec_nat.induct)
  case (1 n)
  have d: "isdigit (word_of_nat (48 + m)) \<and> digit_val (word_of_nat (48 + m)) = int m" if "m < 10" for m
  proof -
    have "m = 0 \<or> m = 1 \<or> m = 2 \<or> m = 3 \<or> m = 4 \<or> m = 5 \<or> m = 6 \<or> m = 7 \<or> m = 8 \<or> m = 9"
      using that by presburger
    then show ?thesis by (elim disjE) (simp_all add: isdigit_def digit_val_def)
  qed
  show ?case
  proof (cases "n < 10")
    case True
    then show ?thesis using d [of n] by (simp add: dec_nat.simps [of n])
  next
    case False
    have "int (n div 10) * 10 + int (n mod 10) = int n" by presburger
    with False show ?thesis using 1 d [of "n mod 10"]
      by (simp add: dec_nat.simps [of n] dec_from_append)
  qed
qed

lemma declen_loop_length: "0 < n \<Longrightarrow> declen_loop (int n) c = c + int (length (dec_nat n))"
proof (induction n arbitrary: c rule: dec_nat.induct)
  case (1 n)
  show ?case
  proof (cases "n < 10")
    case True
    with 1 show ?thesis
      by (simp add: declen_loop.simps [of "int n"] declen_loop.simps [of 0] dec_nat.simps [of n])
  next
    case False
    then have "0 < n div 10" and div: "int n div 10 = int (n div 10)" by auto
    with 1(1) False have "declen_loop (int (n div 10)) (c + 1) = c + 1 + int (length (dec_nat (n div 10)))"
      by blast
    with 1(2) False show ?thesis
      unfolding declen_loop.simps [of "int n"] div by (simp add: dec_nat.simps [of n])
  qed
qed

lemma declen_itoa: "INT_MIN < n \<Longrightarrow> n \<le> INT_MAX \<Longrightarrow> declen n = Inr (int (length (itoa n)))"
  using declen_loop_length [of "nat n" 0] declen_loop_length [of "nat (- n)" 1]
  by (cases n "0 :: int" rule: linorder_cases)
    (simp_all add: declen_def itoa_def show_int_def dec_nat.simps [of 0])

subsection \<open>Writers\<close>

text \<open>\<open>writes f w\<close>: from any position with room, \<open>f\<close> stores \<open>w\<close>, touches nothing else, and
  advances the index behind it.\<close>

definition writes :: "(bytes \<times> int \<Rightarrow> (bytes \<times> int) res) \<Rightarrow> bytes \<Rightarrow> bool" where
  "writes f w \<longleftrightarrow> (\<forall>pre mid post. length mid = length w \<longrightarrow>
     f (pre @ mid @ post, int (length pre)) = Inr (pre @ w @ post, int (length (pre @ w))))"

lemma writes_put [wf_intros]: "writes (put_bytes bs) bs"
  by (simp add: writes_def put_bytes_def)

lemma writes_seq [wf_intros]:
  assumes "writes f w" "writes g u"
  shows "writes (\<lambda>st. rbind (f st) g) (w @ u)"
  unfolding writes_def
proof (intro allI impI)
  fix pre mid post :: bytes
  assume len: "length mid = length (w @ u)"
  let ?a = "take (length w) mid" and ?b = "drop (length w) mid"
  have split: "pre @ mid @ post = pre @ ?a @ ?b @ post" by (metis append_take_drop_id append.assoc)
  have "f (pre @ ?a @ ?b @ post, int (length pre)) = Inr (pre @ w @ ?b @ post, int (length (pre @ w)))"
    using assms(1) [unfolded writes_def, rule_format, of ?a pre "?b @ post"] len by simp
  moreover have "g ((pre @ w) @ ?b @ post, int (length (pre @ w))) =
      Inr ((pre @ w) @ u @ post, int (length ((pre @ w) @ u)))"
    using assms(2) [unfolded writes_def, rule_format, of ?b "pre @ w" post] len by simp
  ultimately show "rbind (f (pre @ mid @ post, int (length pre))) g =
      Inr (pre @ (w @ u) @ post, int (length (pre @ w @ u)))"
    unfolding split by simp
qed

lemma writes_fold [wf_intros]:
  "(\<And>x. x \<in> set xs \<Longrightarrow> writes (f x) (h x)) \<Longrightarrow> writes (rfold f xs) (concat (map h xs))"
proof (induction xs)
  case Nil
  have "rfold f [] = Inr" by (rule ext) simp
  then show ?case by (simp add: writes_def)
next
  case (Cons x xs)
  have "rfold f (x # xs) = (\<lambda>st. rbind (f x st) (rfold f xs))" by (rule ext) simp
  with Cons writes_seq [of "f x" "h x" "rfold f xs"] show ?case by simp
qed

subsection \<open>Checked sums\<close>

lemma rfold_sum:
  assumes "\<And>x s. x \<in> set xs \<Longrightarrow> 0 \<le> s \<Longrightarrow> s \<le> INT_MAX \<Longrightarrow> f x s = check_int (s + int (g x))"
    and "0 \<le> s" "s \<le> INT_MAX"
  shows "rfold f xs s = check_int (s + int (sum_list (map g xs)))"
  using assms
proof (induction xs arbitrary: s)
  case Nil
  then show ?case by simp
next
  case (Cons x xs)
  show ?case
  proof (cases "s + int (g x) \<le> INT_MAX")
    case True
    have "rfold f xs (s + int (g x)) = check_int (s + int (g x) + int (sum_list (map g xs)))"
      by (rule Cons.IH) (use Cons.prems True in auto)
    with Cons.prems True show ?thesis by (simp add: algebra_simps)
  next
    case False
    with Cons.prems show ?thesis by (simp add: check_int_def)
  qed
qed

subsection \<open>The encoder produces a word of the grammar\<close>

text \<open>The counters of all tables inside the value are exact, and keys have lengths the decoder
  can produce.\<close>

primrec bv_exact :: "bencode_value \<Rightarrow> bool" where
  "bv_exact (BencString bs s e) \<longleftrightarrow> True"
| "bv_exact (BencInteger n s e) \<longleftrightarrow> True"
| "bv_exact (BencList vs s e) \<longleftrightarrow> list_all id (map bv_exact vs)"
| "bv_exact (BencDict ht s e) \<longleftrightarrow>
     ht_exact ht \<and> (\<forall>(k, v) \<in> set (ht_entries ht). int (length k) < INT_MAX) \<and>
     pred_hashtable_t id (map_hashtable_t bv_exact ht)"

definition encodes :: "(bytes list \<Rightarrow> bytes list) \<Rightarrow> bencode_value \<Rightarrow> bytes \<Rightarrow> bool" where
  "encodes qs v w \<longleftrightarrow>
     benc w (bv_abs v) \<and> b_to_string_len v = check_int (int (length w)) \<and> writes (b_to_string qs v) w"

lemma encodes_string:
  assumes "int (length bs) < INT_MAX"
  shows "encodes qs (BencString bs s e) (itoa (int (length bs)) @ chr_colon # bs)"
proof -
  have "writes (b_to_string qs (BencString bs s e)) (itoa (int (length bs)) @ [chr_colon] @ bs)"
    unfolding b_to_string.simps by (intro wf_intros)
  moreover have "benc (itoa (int (length bs)) @ chr_colon # bs) (AStr bs)"
    using assms dec_nat_digits [of "length bs"]
    by (intro benc_string) (simp_all add: itoa_def show_int_def)
  ultimately show ?thesis
    using assms by (simp add: encodes_def declen_itoa algebra_simps)
qed

lemma encodes_int:
  assumes "\<bar>n\<bar> \<le> INT_MAX"
  shows "encodes qs (BencInteger n s e) (chr_i # itoa n @ [chr_e])"
proof -
  have n: "to_int32 n = n" using assms by (intro to_int32_id) auto
  have "writes (b_to_string qs (BencInteger n s e)) ([chr_i] @ itoa n @ [chr_e])"
    unfolding b_to_string.simps n by (intro wf_intros)
  moreover have "benc (chr_i # itoa n @ [chr_e]) (AInt n)"
    using assms dec_nat_digits [of "nat n"] dec_nat_digits [of "nat (- n)"]
      benc_int [of "dec_nat (nat n)"] benc_neg [of "dec_nat (nat (- n))"]
    by (auto simp: itoa_def show_int_def)
  ultimately show ?thesis
    using assms n by (simp add: encodes_def declen_itoa algebra_simps)
qed

lemma bencs_concat: "(\<And>v. v \<in> set vs \<Longrightarrow> benc (h v) (f v)) \<Longrightarrow> bencs (concat (map h vs)) (map f vs)"
  by (induction vs) (auto intro: benc_bencs_bencd.intros)

lemma encodes_list:
  assumes "\<And>v. v \<in> set vs \<Longrightarrow> encodes qs v (h v)"
  shows "encodes qs (BencList vs s e) (chr_l # concat (map h vs) @ [chr_e])"
proof -
  have "writes (b_to_string qs (BencList vs s e)) ([chr_l] @ concat (map h vs) @ [chr_e])"
    unfolding b_to_string.simps by (intro wf_intros) (use assms in \<open>simp add: encodes_def\<close>)
  moreover have "rfold (\<lambda>elem sum.
        rbind (b_to_string_len elem) (\<lambda>elem_len. check_int (sum + elem_len))) vs 0 =
      check_int (0 + int (sum_list (map (\<lambda>v. length (h v)) vs)))"
    by (rule rfold_sum) (use assms in \<open>auto simp: encodes_def check_int_def\<close>)
  then have "b_to_string_len (BencList vs s e) = check_int (int (length (chr_l # concat (map h vs) @ [chr_e])))"
    by (auto simp: check_int_def length_concat comp_def)
  moreover have "benc (chr_l # concat (map h vs) @ [chr_e]) (AList (map bv_abs vs))"
    using assms by (intro benc_list bencs_concat) (simp add: encodes_def)
  ultimately show ?thesis by (simp add: encodes_def)
qed

text \<open>The bytes written for one key and its value.\<close>

definition pair_word :: "(bencode_value \<Rightarrow> bytes) \<Rightarrow> bencode_dict \<Rightarrow> bytes \<Rightarrow> bytes" where
  "pair_word h ht k = itoa (int (length k)) @ [chr_colon] @ k @ h (the (ht_map ht k))"

lemma bencd_concat:
  assumes "\<And>k. k \<in> set ks \<Longrightarrow> int (length k) < INT_MAX \<and> c_string k \<and> benc (h (the (ht_map ht k))) (f k)"
  shows "bencd (concat (map (pair_word h ht) ks)) (map (\<lambda>k. (k, f k)) ks)"
  using assms
proof (induction ks)
  case Nil
  then show ?case by (simp add: bencd_Nil)
next
  case (Cons k ks)
  have k: "int (length k) < INT_MAX" "c_string k" "benc (h (the (ht_map ht k))) (f k)"
    using Cons.prems [of k] by simp_all
  have "benc (itoa (int (length k)) @ chr_colon # k) (AStr k)"
    using encodes_string [OF k(1)] by (simp add: encodes_def)
  from bencd_Cons [OF this k(3) Cons.IH] Cons.prems k(2) show ?case by (simp add: pair_word_def)
qed

lemma pair_len_checked:
  assumes "b_to_string_len v = check_int (int (length w))" "int (length k) < INT_MAX" "0 \<le> s"
  shows "(let key_len = to_int32 (int (length k)) in
      rbind (b_to_string_len v) (\<lambda>val_len.
      rbind (declen key_len) (\<lambda>d.
      rbind (check_int (d + 1 + key_len)) (\<lambda>a.
      rbind (check_int (a + val_len)) (\<lambda>pair_len.
      check_int (s + pair_len)))))) =
    check_int (s + int (length (itoa (int (length k)) @ [chr_colon] @ k @ w)))"
  using assms by (auto simp: to_int32_id declen_itoa check_int_def Let_def)

lemma dict_map_of:
  assumes "distinct ks" "set ks = dom m"
  shows "map_of (rev (map (\<lambda>k. (k, f (the (m k)))) ks)) = map_option f \<circ> m"
proof -
  have "map_of (rev (map (\<lambda>k. (k, f (the (m k)))) ks)) = map_of (map (\<lambda>k. (k, f (the (m k)))) ks)"
    by (rule map_of_same_set) (use assms in \<open>auto simp: rev_map comp_def\<close>)
  also have "\<dots> = map_option f \<circ> m"
    by (rule ext) (auto simp: map_of_map_restrict restrict_map_def assms(2) domIff)
  finally show ?thesis .
qed

lemma dict_key_valid:
  assumes "ht_wf valid hf cf ht" "k \<in> dom (ht_map ht)"
  shows "valid k"
proof -
  from assms(2) obtain v where "map_of (concat (ht_table ht)) k = Some v"
    by (auto simp: ht_map_def ht_entries_def)
  from table_wf_keys [OF _ map_of_SomeD [OF this]] assms(1) show ?thesis by (auto simp: ht_wf_def)
qed

lemma dict_len:
  assumes wf: "ht_wf c_string fnv_1a_hash_str strcmp ht" and ks: "mset ks = mset (map fst (ht_entries ht))"
    and len: "\<And>k. k \<in> dom (ht_map ht) \<Longrightarrow> int (length k) < INT_MAX"
    and h: "\<And>v. v \<in> ran (ht_map ht) \<Longrightarrow> b_to_string_len v = check_int (int (length (h v)))"
  shows "b_to_string_len (BencDict ht s e) =
    check_int (int (length (chr_d # concat (map (pair_word h ht) ks) @ [chr_e])))"
proof -
  let ?es = "ht_entries ht" and ?g = "\<lambda>k. length (pair_word h ht k)"
  have t: "hashtable_pairs ht = Inr ?es" "distinct (map fst ?es)"
    using wf hashtable_pairs_entries [of ht] table_wf_distinct [of c_string fnv_1a_hash_str "ht_table ht"]
    by (simp_all add: ht_wf_def ht_entries_def)
  let ?f = "\<lambda>p sum. let key_len = to_int32 (int (length (fst p))) in
      rbind (b_to_string_len (snd p)) (\<lambda>val_len. rbind (declen key_len) (\<lambda>d.
      rbind (check_int (d + 1 + key_len)) (\<lambda>a. rbind (check_int (a + val_len)) (\<lambda>pair_len.
      check_int (sum + pair_len)))))"
  have "?f p s = check_int (s + int (?g (fst p)))" if "p \<in> set ?es" "0 \<le> s" for p s
  proof -
    have v: "ht_map ht (fst p) = Some (snd p)" using that(1) t(2) by (simp add: ht_map_def)
    then have "b_to_string_len (snd p) = check_int (int (length (h (snd p))))" "int (length (fst p)) < INT_MAX"
      using h [of "snd p"] len [of "fst p"] by (auto intro: ranI)
    from pair_len_checked [OF this that(2)] v show ?thesis by (simp add: pair_word_def)
  qed
  then have "rfold ?f ?es 0 = check_int (0 + int (sum_list (map (\<lambda>p. ?g (fst p)) ?es)))"
    by (intro rfold_sum) simp_all
  moreover have "sum_list (map (\<lambda>p. ?g (fst p)) ?es) = sum_list (map ?g ks)"
    using ks by (metis (no_types, lifting) map_map comp_def mset_map sum_mset_sum_list map_eq_conv)
  ultimately show ?thesis
    using t(1) by (auto simp: check_int_def length_concat comp_def)
qed

lemma encodes_dict:
  assumes qs: "\<And>ks. mset (qs ks) = mset ks"
    and wf: "ht_wf c_string fnv_1a_hash_str strcmp ht" and exact: "ht_exact ht"
    and len: "\<And>k. k \<in> dom (ht_map ht) \<Longrightarrow> int (length k) < INT_MAX"
    and h: "\<And>v. v \<in> ran (ht_map ht) \<Longrightarrow> encodes qs v (h v)"
  shows "encodes qs (BencDict ht s e)
    (chr_d # concat (map (pair_word h ht) (qs (map fst (ht_entries ht)))) @ [chr_e])"
proof -
  let ?es = "ht_entries ht" and ?ks = "qs (map fst (ht_entries ht))"
  have t: "hashtable_pairs ht = Inr ?es" "distinct (map fst ?es)"
    using wf hashtable_pairs_entries [of ht] table_wf_distinct [of c_string fnv_1a_hash_str "ht_table ht"]
    by (simp_all add: ht_wf_def ht_entries_def)
  have dom: "set ?ks = dom (ht_map ht)" "distinct ?ks"
    using mset_eq_setD [OF qs, of "map fst ?es"] mset_eq_imp_distinct_iff [OF qs, of "map fst ?es"] t(2)
    by (simp_all add: ht_map_def dom_map_of_conv_image_fst)
  have str: "c_string k" if "k \<in> dom (ht_map ht)" for k
    using dict_key_valid [OF wf that] .
  have get: "hashtable_get ht k = Inr (1, ht_map ht k)" if "k \<in> dom (ht_map ht)" for k
    using str_keys.get_correct [OF wf str [OF that]] that by (auto split: option.split)
  have enc: "encodes qs (the (ht_map ht k)) (h (the (ht_map ht k)))" if "k \<in> dom (ht_map ht)" for k
    by (rule h) (use that in \<open>auto simp: ran_def\<close>)
  let ?put = "\<lambda>key st. rbind (write_num (to_int32 (int (length key))) st) (\<lambda>st.
      rbind (put_bytes [chr_colon] st) (\<lambda>st. rbind (put_bytes key st) (\<lambda>st.
      rbind (hashtable_get ht key) (\<lambda>r. case snd r of None \<Rightarrow> Inl UninitRead
      | Some pair_val \<Rightarrow> b_to_string qs pair_val st))))"
  have "writes (?put k) (pair_word h ht k)" if k: "k \<in> dom (ht_map ht)" for k
  proof -
    have "?put k = (\<lambda>st. rbind (put_bytes (itoa (int (length k))) st) (\<lambda>st.
        rbind (put_bytes [chr_colon] st) (\<lambda>st. rbind (put_bytes k st) (b_to_string qs (the (ht_map ht k))))))"
      using k len [OF k] by (auto simp: get write_num_def to_int32_id)
    then show ?thesis using enc [OF k] by (auto simp only: pair_word_def encodes_def intro!: wf_intros)
  qed
  then have "writes (\<lambda>st. rbind (put_bytes [chr_d] st) (\<lambda>st. rbind (rfold ?put ?ks st) (put_bytes [chr_e])))
      ([chr_d] @ concat (map (pair_word h ht) ?ks) @ [chr_e])"
    by (intro wf_intros) (simp only: dom)
  then have "writes (b_to_string qs (BencDict ht s e)) ([chr_d] @ concat (map (pair_word h ht) ?ks) @ [chr_e])"
    using exact unfolding b_to_string.simps t(1) rbind_simps Let_def ht_exact_def hashtable_size_def by simp
  moreover have "benc (chr_d # concat (map (pair_word h ht) ?ks) @ [chr_e])
      (ADict (map_of (rev (map (\<lambda>k. (k, bv_abs (the (ht_map ht k)))) ?ks))))"
    using len str enc by (intro benc_dict bencd_concat) (auto simp only: dom encodes_def)
  moreover have "b_to_string_len (BencDict ht s e) =
      check_int (int (length (chr_d # concat (map (pair_word h ht) ?ks) @ [chr_e])))"
    by (rule dict_len) (use t(2) qs wf len h in \<open>auto simp: encodes_def\<close>)
  ultimately show ?thesis by (simp only: encodes_def dict_map_of [OF dom(2,1)] bv_abs_dict append.simps)
qed

lemma bv_exact_simps [simp]:
  "bv_exact (BencList vs s e) \<longleftrightarrow> list_all bv_exact vs"
  "bv_exact (BencDict ht s e) \<longleftrightarrow>
     ht_exact ht \<and> (\<forall>(k, v) \<in> set (ht_entries ht). int (length k) < INT_MAX \<and> bv_exact v)"
  by (force simp: list_all_iff hashtable_t.pred_set ht_set_entries ht_entries_map)+

declare bv_exact.simps(3,4) [simp del]

lemma encodes_value:
  assumes qs: "\<And>ks. mset (qs ks) = mset ks"
  shows "bv_wf v \<Longrightarrow> bv_exact v \<Longrightarrow> \<exists>w. encodes qs v w"
proof (induction v)
  case (BencString bs s e)
  then show ?case using encodes_string [of bs qs s e] by auto
next
  case (BencInteger n s e)
  then show ?case using encodes_int [of n qs s e] by auto
next
  case (BencList vs s e)
  then have "\<forall>v \<in> set vs. \<exists>w. encodes qs v w" by (auto simp: list_all_iff)
  then obtain h where "\<forall>v \<in> set vs. encodes qs v (h v)" by metis
  then show ?case by (meson encodes_list)
next
  case (BencDict ht s e)
  have wf: "ht_wf c_string fnv_1a_hash_str strcmp ht" using BencDict.prems(1) by simp
  have set: "set_hashtable_t ht = ran (ht_map ht)" by (rule ht_wf_set [OF wf])
  have ex: "bv_exact v" if "v \<in> ran (ht_map ht)" for v
    using that BencDict.prems(2) by (force simp: ran_def ht_map_def dest: map_of_SomeD)
  then have "\<forall>v \<in> ran (ht_map ht). \<exists>w. encodes qs v w"
    using BencDict.IH BencDict.prems(1) by (simp add: set)
  then obtain h where h: "\<forall>v \<in> ran (ht_map ht). encodes qs v (h v)" by metis
  have "int (length k) < INT_MAX" if "k \<in> dom (ht_map ht)" for k
    using that BencDict.prems(2) by (force simp: ht_map_def dest: map_of_SomeD)
  then show ?case
    using encodes_dict [OF qs wf, of h s e] BencDict.prems(2) h by auto
qed

lemma bencode_to_string_encodes:
  assumes "encodes qs v w"
  shows "bencode_to_string qs v =
    (if int (length w) < INT_MAX then Inr (w @ [0], int (length w)) else Inl SignedOverflow)"
proof (cases "int (length w) < INT_MAX")
  case True
  then have "nat (int (length w) + 1) = length w + 1" by simp
  moreover have "b_to_string qs v ([] @ replicate (length w) 0 @ [0], int (length ([] :: bytes))) =
      Inr ([] @ w @ [0], int (length ([] @ w)))"
    using assms unfolding encodes_def writes_def by (metis length_replicate)
  ultimately show ?thesis
    using assms True by (simp add: encodes_def bencode_to_string_def replicate_append_same flip: replicate_Suc)
next
  case False
  with assms show ?thesis by (auto simp: encodes_def bencode_to_string_def check_int_def)
qed

lemma dec_nat_length: "n < 10 ^ k \<Longrightarrow> 0 < k \<Longrightarrow> length (dec_nat n) \<le> k"
proof (induction n arbitrary: k rule: dec_nat.induct)
  case (1 n)
  show ?case
  proof (cases "n < 10")
    case True
    with 1 show ?thesis by (simp add: dec_nat.simps [of n])
  next
    case False
    with 1(2,3) have "k \<noteq> 1" by (intro notI) simp
    with 1(3) obtain k' where k': "k = Suc k'" "0 < k'" by (cases k) auto
    then have "n div 10 < 10 ^ k'" using 1(2) by auto
    with 1(1) [OF False, of k'] k' False show ?thesis by (simp add: dec_nat.simps [of n])
  qed
qed

lemma rfold_appends:
  fixes nl :: byte
  assumes "\<And>x out. x \<in> set xs \<Longrightarrow> \<exists>txt. f x out = Inr (out @ txt @ [nl])"
  shows "\<exists>txt. rfold f xs (out @ pre @ [nl]) = Inr (out @ txt @ [nl])"
  using assms
proof (induction xs arbitrary: pre)
  case Nil
  then show ?case by simp
next
  case (Cons x xs)
  obtain t where "f x (out @ pre @ [nl]) = Inr (out @ (pre @ [nl] @ t) @ [nl])"
    using Cons.prems [of x "out @ pre @ [nl]"] by auto
  moreover have "\<exists>txt2. rfold f xs (out @ (pre @ [nl] @ t) @ [nl]) = Inr (out @ txt2 @ [nl])"
    by (rule Cons.IH) (simp add: Cons.prems)
  ultimately show ?case by simp
qed

lemma b_debug_appends: "bv_wf v \<Longrightarrow> \<exists>txt. b_debug v lvl out = Inr (out @ txt @ [10])"
proof (induction v arbitrary: lvl out)
  case (BencString bs s e)
  then show ?case by (simp add: safe_print_def rds_def)
next
  case (BencInteger n s e)
  then show ?case by simp
next
  case (BencList vs s e)
  have "\<exists>txt. b_debug v (lvl + 1) out = Inr (out @ txt @ [10])" if "v \<in> set vs" for v out
    using BencList that by (auto simp: list_all_iff)
  from rfold_appends [where xs = vs and out = out and pre =
      "spaces (lvl * 4) @ lit ''LIST (len='' @ show_int (int (length vs)) @ lit ''):''", OF this]
  show ?case by simp
next
  case (BencDict ht s e)
  have wf: "ht_wf c_string fnv_1a_hash_str strcmp ht" using BencDict.prems by simp
  have pairs: "hashtable_pairs ht = Inr (ht_entries ht)"
    using wf by (intro hashtable_pairs_entries) (simp add: ht_wf_def)
  have "\<exists>txt. b_debug (snd p) (lvl + 2) (out @ spaces ((lvl + 1) * 4) @ fst p @ lit '' ->'' @ [10]) =
      Inr (out @ txt @ [10])" if "p \<in> set (ht_entries ht)" for p out
  proof -
    have v: "snd p \<in> set_hashtable_t ht" using that by (simp add: ht_set_entries)
    then have "bv_wf (snd p)" using BencDict.prems ht_wf_set [OF wf] by simp
    from BencDict.IH [OF v this, of "lvl + 2" "out @ spaces ((lvl + 1) * 4) @ fst p @ lit '' ->'' @ [10]"]
    show ?thesis by auto
  qed
  from rfold_appends [where xs = "ht_entries ht" and out = out and pre =
      "spaces (lvl * 4) @ lit ''DICT (len='' @ show_int (hashtable_size ht) @ lit ''):''", OF this]
  show ?case by (simp add: pairs)
qed

subsection \<open>Properties\<close>

text \<open>C1: Round trip. Encoding a well-formed value whose tables count exactly, with any sorting
  step that rearranges its input, yields some bytes \<open>w\<close> of the grammar and their length; the
  buffer is filled exactly and closed by the NUL that \<open>calloc\<close> left. If the length does
  not fit, an addition overflows. Decoding the buffer gives a well-formed value with the same
  contents.\<close>

theorem bencode_roundtrip:
  assumes "\<And>ks. mset (qs ks) = mset ks" and "bv_wf v" and "bv_exact v"
  shows "\<exists>w. benc w (bv_abs v) \<and>
    (if int (length w) < INT_MAX then
       bencode_to_string qs v = Inr (w @ [0], int (length w)) \<and>
       (\<exists>v'. bencode_parse (w @ [0]) (int (length w)) = gives v' (int (length w)) \<and>
          bv_abs v' = bv_abs v \<and> bv_wf v')
     else bencode_to_string qs v = Inl SignedOverflow)"
proof -
  obtain w where w: "encodes qs v w" using encodes_value assms by blast
  then have "benc w (bv_abs v)" by (simp add: encodes_def)
  from this bencode_parse_complete [OF this, of "int (length w)" "[0]"] bencode_to_string_encodes [OF w]
  show ?thesis by auto
qed

theorem bencode_roundtrip_witness:
  "\<exists>w v'. bencode_to_string rev (BencList [BencInteger (- 7) 0 0, BencDict (hashtable_init fnv_1a_hash_str strcmp) 0 0] 0 0) =
      Inr (w @ [0], int (length w)) \<and>
    bencode_parse (w @ [0]) (int (length w)) = gives v' (int (length w)) \<and>
    bv_abs v' = AList [AInt (- 7), ADict Map.empty]"
proof -
  let ?ht = "hashtable_init fnv_1a_hash_str strcmp :: bencode_dict"
  let ?v = "BencList [BencInteger (- 7) 0 0, BencDict ?ht 0 0] 0 0"
  have m: "ht_map ?ht = Map.empty" by (rule str_keys.init_map)
  have "bv_wf ?v" using str_keys.init_wf by (simp add: m)
  moreover have "bv_exact ?v" by (simp add: ht_exact_def ht_entries_def hashtable_init_def)
  moreover have "bv_abs ?v = AList [AInt (- 7), ADict Map.empty]" by (simp add: m)
  moreover have "bencode_to_string rev ?v \<noteq> Inl SignedOverflow"
  proof -
    have "hashtable_pairs ?ht = Inr []"
      by (subst hashtable_pairs_entries) (simp_all add: hashtable_init_def INIT_CAP_def ht_entries_def)
    then have len: "b_to_string_len ?v = Inr 8"
      by (simp add: declen_itoa [of "- 7"] itoa_def show_int_def dec_nat.simps to_int32_id)
    obtain w where w: "encodes rev ?v w" using encodes_value [of rev ?v] calculation by (metis mset_rev)
    then have "length w = 8" using len by (auto simp: encodes_def check_int_def split: if_splits)
    then show ?thesis using bencode_to_string_encodes [OF w] by simp
  qed
  ultimately show ?thesis using bencode_roundtrip [of rev ?v] by (metis mset_rev)
qed

text \<open>Encoding a dictionary in which a key was stored twice reads an uninitialised pointer.
  The table's counter was exact before the second \<open>hashtable_put\<close> of the key and one too
  high after it, so the array of keys has a slot that is never written. The decoder performs
  such puts on inputs with duplicate keys.\<close>

lemma b_to_string_duplicate_key:
  assumes "ht_wf c_string fnv_1a_hash_str strcmp ht" and "ht_exact ht" and "k \<in> dom (ht_map ht)"
    and "hashtable_put ht k v = Inr (ht', r)" and "0 \<le> i" and "i < int (length dst)"
  shows "b_to_string qs (BencDict ht' s e) (dst, i) = Inl UninitRead"
proof -
  have "ht_wf c_string fnv_1a_hash_str strcmp ht'" "ht_size ht' = ht_size ht + 1"
      "length (ht_entries ht') = length (ht_entries ht)"
    using str_keys.put_cases [OF assms(1) dict_key_valid [OF assms(1,3)], of v] assms(3,4) by auto
  moreover from this(1) have "hashtable_pairs ht' = Inr (ht_entries ht')"
    by (intro hashtable_pairs_entries) (simp add: ht_wf_def)
  ultimately show ?thesis
    using assms(2,5,6) by (simp add: put_bytes_def wrs_def ht_exact_def hashtable_size_def)
qed

lemma b_to_string_duplicate_key_witness:
  "\<exists>ht' r. rbind (hashtable_put (hashtable_init fnv_1a_hash_str strcmp) [97] (BencInteger 1 0 0)) (\<lambda>(ht, _).
      hashtable_put ht [97] (BencInteger 2 0 0)) = Inr (ht', r) \<and>
    b_to_string id (BencDict ht' 0 0) (replicate 20 0, 0) = Inl UninitRead"
proof -
  let ?h0 = "hashtable_init fnv_1a_hash_str strcmp :: bencode_dict"
  have "ht_exact ?h0" by (simp add: ht_exact_def ht_entries_def hashtable_init_def)
  moreover have "ht_size ?h0 = 0" by (simp add: hashtable_init_def)
  moreover have "ht_room ?h0 (Suc 0)" by (rule init_room) (simp add: PUT_LIMIT_def)
  ultimately obtain h1 where h1: "hashtable_put ?h0 [97] (BencInteger 1 0 0) = Inr (h1, 0)"
      "ht_wf c_string fnv_1a_hash_str strcmp h1" "ht_exact h1" "[97] \<in> dom (ht_map h1)"
      "ht_size h1 = 1"
    using str_keys.put_correct [OF str_keys.init_wf, of "[97]" 0 "BencInteger 1 0 0"]
    by (auto simp: str_keys.init_map ht_exact_def)
  then obtain h2 r where h2: "hashtable_put h1 [97] (BencInteger 2 0 0) = Inr (h2, r)"
    using str_keys.put_correct [OF h1(2), of "[97]" 0 "BencInteger 2 0 0"]
    by (auto simp: ht_room_def PUT_LIMIT_def)
  have "b_to_string id (BencDict h2 0 0) (replicate 20 0, 0) = Inl UninitRead"
    by (rule b_to_string_duplicate_key [OF h1(2-4) h2]) simp_all
  with h1(1) h2 show ?thesis by simp
qed

text \<open>\<open>declen\<close> is the length of what \<open>itoa\<close> prints, which with its NUL fits the 19
  bytes \<open>itoa\<close> allocates, for every \<open>int\<close> except the smallest, whose negation overflows.\<close>

lemma declen_correct:
  assumes "INT_MIN \<le> n" and "n \<le> INT_MAX"
  shows "declen n = (if n = INT_MIN then Inl SignedOverflow else Inr (int (length (itoa n)))) \<and>
    length (itoa n) + 1 \<le> 19"
proof -
  have "length (dec_nat (nat (- n))) \<le> 10" if "n < 0"
    by (rule dec_nat_length) (use assms that in auto)
  moreover have "length (dec_nat (nat n)) \<le> 10"
    by (rule dec_nat_length) (use assms in auto)
  ultimately have "length (itoa n) \<le> 11" by (auto simp: itoa_def show_int_def)
  then show ?thesis using assms declen_itoa [of n] by (auto simp: declen_def check_int_def)
qed

lemma declen_correct_witness: "declen (- 120) = Inr 4 \<and> length (itoa (- 120)) = 4"
  using declen_correct [of "- 120"] by (simp add: itoa_def show_int_def dec_nat.simps)

text \<open>The debug printer ends on every well-formed value, reads nothing out of bounds, and
  its text ends with a newline.\<close>

lemma bencode_debug_total:
  assumes "bv_wf v"
  shows "\<exists>txt. bencode_debug v = Inr (txt @ [10])"
  using b_debug_appends [OF assms, of 0 "[]"] by (simp add: bencode_debug_def)

lemma bencode_debug_total_witness:
  "\<exists>txt. bencode_debug (BencList [BencString [1, 2] 0 0] 0 0) = Inr (txt @ [10])"
  by (rule bencode_debug_total) simp

end
