(* ===== verification/Flood_Torrent.thy ===== *)
theory Flood_Torrent
  imports Flood_Bencode_Print
begin

section \<open>Loading a torrent (src/torrent.c)\<close>

text \<open>
  \<open>torrent_init_from_file\<close> reads a file, decodes it, hashes the bytes of its info section and
  fills a \<open>torrent_t\<close>. A file is its contents and whether it can be positioned; the SHA-1 of
  OpenSSL is a parameter. A structure field that was never assigned is \<open>None\<close>. The members of
  a bencode value are accessed through the checked projections \<open>as_dict\<close>, \<open>as_list\<close>,
  \<open>as_string\<close> and \<open>as_int\<close>, because the source reads the union without looking at the type:
  reading the wrong member is the outcome \<open>TypeConfusion\<close>. A \<open>char*\<close> taken from a string
  value is the C string it points to.
  The main results: the hash that is computed is that of the exact encoding of the info value
  inside the file, and the tracker URLs are the first ones of the announce lists followed by
  the announce URL, without a write outside the array.
\<close>

subsection \<open>Data\<close>

record cfile =
  cf_content :: bytes
  cf_seekable :: bool

record file_info_t =
  fi_length :: "int option"
  fi_path :: "bytes list option"

text \<open>\<open>mode\<close> and the union behind it: the length of a single file, or the array of files.\<close>

datatype info_files = FilesUnset | SingleFile "int option" | MultiFile "file_info_t list"

record info_section_t =
  info_piece_length :: "int option"
  info_pieces :: "bytes option"
  info_file_name :: "bytes option"
  info_mode :: info_files

record torrent_t =
  t_info_hash :: "bytes option"
  t_info :: info_section_t
  t_tracker_count :: int
  t_tracker_urls :: "bytes option list"

subsection \<open>Reading\<close>

text \<open>\<open>read_file\<close> of \<open>src/util/util.c\<close>: the length and the bytes, without a NUL behind them.\<close>

definition read_file :: "cfile \<Rightarrow> int \<times> bytes" where
  "read_file file =
     (if \<not> cf_seekable file then (- 1, [])
      else (int (length (cf_content file)), cf_content file))"

fun as_dict :: "bencode_value \<Rightarrow> bencode_dict res" where
  "as_dict (BencDict ht _ _) = Inr ht"
| "as_dict _ = Inl TypeConfusion"

fun as_list :: "bencode_value \<Rightarrow> bencode_value list res" where
  "as_list (BencList vs _ _) = Inr vs"
| "as_list _ = Inl TypeConfusion"

fun as_string :: "bencode_value \<Rightarrow> bytes res" where
  "as_string (BencString bs _ _) = Inr (cstr bs)"
| "as_string _ = Inl TypeConfusion"

fun as_int :: "bencode_value \<Rightarrow> int res" where
  "as_int (BencInteger n _ _) = Inr n"
| "as_int _ = Inl TypeConfusion"

definition dict_get :: "bencode_dict \<Rightarrow> string \<Rightarrow> bencode_value option res" where
  "dict_get dict key = rmap snd (hashtable_get dict (lit key))"

subsection \<open>Trackers\<close>

text \<open>The loop over \<open>announce-list\<close>. \<open>list_get\<close> on an empty sublist fails and leaves the
  pointer at the invalid address 3.\<close>

fun tracker_loop :: "bencode_value list \<Rightarrow> int \<Rightarrow> bytes option list \<Rightarrow> bytes option list res" where
  "tracker_loop [] i urls = Inr urls"
| "tracker_loop (b_sublist # rest) i urls =
     rbind (as_list b_sublist) (\<lambda>sublist.
     case sublist of [] \<Rightarrow> Inl NullDeref
     | tracker # _ \<Rightarrow>
         rbind (as_string tracker) (\<lambda>url.
         rbind (wrs urls i [Some url]) (\<lambda>urls.
         tracker_loop rest (i + 1) urls)))"

definition prepare_trackers :: "bencode_value \<Rightarrow> torrent_t \<Rightarrow> torrent_t res" where
  "prepare_trackers bencode t =
     rbind (as_dict bencode) (\<lambda>dict.
     rbind (dict_get dict ''announce-list'') (\<lambda>announce_list.
     rbind (case announce_list of
         Some al \<Rightarrow>
           rbind (as_list al) (\<lambda>items.
           let tracker_count = int (length items) in
           rbind (wrs (replicate (length items + 1) None) tracker_count [None]) (\<lambda>urls.
           rbind (tracker_loop items 0 urls) (\<lambda>urls.
           Inr (tracker_count, urls))))
       | None \<Rightarrow> Inr (0, [None])) (\<lambda>(tracker_count, urls).
     rbind (dict_get dict ''announce'') (\<lambda>announce.
     rbind (case announce of
         Some a \<Rightarrow>
           rbind (as_string a) (\<lambda>announce_str.
           rbind (wrs urls tracker_count [Some announce_str]) (\<lambda>urls.
           Inr (tracker_count + 1, urls)))
       | None \<Rightarrow> Inr (tracker_count, urls)) (\<lambda>(tracker_count, urls).
     Inr (t\<lparr>t_tracker_count := tracker_count, t_tracker_urls := urls\<rparr>))))))"

subsection \<open>The info section\<close>

fun rmaps :: "('a \<Rightarrow> 'b res) \<Rightarrow> 'a list \<Rightarrow> 'b list res" where
  "rmaps f [] = Inr []"
| "rmaps f (x # xs) = rbind (f x) (\<lambda>y. rmap ((#) y) (rmaps f xs))"

text \<open>The loop over \<open>files\<close>: the array as far as it was filled, and the value returned.\<close>

fun files_loop :: "bencode_value list \<Rightarrow> int \<Rightarrow> file_info_t list \<Rightarrow> (file_info_t list \<times> int) res" where
  "files_loop [] file_idx files = Inr (files, 0)"
| "files_loop (b_curr_file # rest) file_idx files =
     rbind (as_dict b_curr_file) (\<lambda>d.
     rbind (dict_get d ''length'') (\<lambda>b_file_length.
     case b_file_length of None \<Rightarrow> Inr (files, - 1)
     | Some b_file_length \<Rightarrow>
         rbind (as_int b_file_length) (\<lambda>n.
         rbind (rd files file_idx) (\<lambda>file_info.
         let file_info = file_info\<lparr>fi_length := Some (to_int32 n)\<rparr> in
         rbind (wrs files file_idx [file_info]) (\<lambda>files.
         rbind (dict_get d ''path'') (\<lambda>b_path_list.
         case b_path_list of None \<Rightarrow> Inr (files, - 1)
         | Some b_path_list \<Rightarrow>
             rbind (as_list b_path_list) (\<lambda>segs.
             if length segs = 0 then Inr (files, - 1)
             else
               rbind (rmaps as_string segs) (\<lambda>path.
               rbind (wrs files file_idx [file_info\<lparr>fi_path := Some path\<rparr>]) (\<lambda>files.
               files_loop rest (file_idx + 1) files)))))))))"

text \<open>What \<open>prepare_info_section\<close> prints before anything else.\<close>

definition info_section_text :: "bencode_value \<Rightarrow> bytes res" where
  "info_section_text bencode = rmap (\<lambda>dbg. lit ''INFO SECTION:'' @ [10] @ dbg) (bencode_debug bencode)"

text \<open>The condition on \<open>piece length\<close> is as in the source: the value is used when the lookup
  failed, and then the pointer was never set.\<close>

definition prepare_info_section :: "bencode_value \<Rightarrow> torrent_t \<Rightarrow> (torrent_t \<times> int) res" where
  "prepare_info_section bencode t =
     rbind (info_section_text bencode) (\<lambda>_.
     let info = (t_info t)\<lparr>info_file_name := None, info_pieces := None\<rparr> in
     rbind (as_dict bencode) (\<lambda>dict.
     rbind (dict_get dict ''info'') (\<lambda>b_info.
     case b_info of None \<Rightarrow> Inr (t\<lparr>t_info := info\<rparr>, - 1)
     | Some b_info \<Rightarrow>
         rbind (as_dict b_info) (\<lambda>d.
         rbind (dict_get d ''piece length'') (\<lambda>b_piece_length.
         if b_piece_length = None then Inl UninitRead
         else
           rbind (dict_get d ''name'') (\<lambda>b_name.
           rbind (case b_name of None \<Rightarrow> Inr info
             | Some v \<Rightarrow> rmap (\<lambda>s. info\<lparr>info_file_name := Some s\<rparr>) (as_string v)) (\<lambda>info.
           rbind (dict_get d ''files'') (\<lambda>b_files.
           case b_files of
             Some b_files \<Rightarrow>
               rbind (as_list b_files) (\<lambda>items.
               rbind (files_loop items 0 (replicate (length items) \<lparr>fi_length = None, fi_path = None\<rparr>)) (\<lambda>(files, ret).
               Inr (t\<lparr>t_info := info\<lparr>info_mode := MultiFile files\<rparr>\<rparr>, ret)))
           | None \<Rightarrow>
               rbind (dict_get d ''length'') (\<lambda>b_file_length.
               case b_file_length of
                 None \<Rightarrow> Inr (t\<lparr>t_info := info\<lparr>info_mode := SingleFile None\<rparr>\<rparr>, - 1)
               | Some b_file_length \<Rightarrow>
                   rbind (as_int b_file_length) (\<lambda>n.
                   Inr (t\<lparr>t_info := info\<lparr>info_mode := SingleFile (Some (to_int32 n))\<rparr>\<rparr>, 0)))))))))))"

definition torrent_init_from_file ::
  "(bytes \<Rightarrow> bytes) \<Rightarrow> cfile option \<Rightarrow> torrent_t \<Rightarrow> (torrent_t \<times> int) res" where
  "torrent_init_from_file sha file t =
     (case file of None \<Rightarrow> Inr (t, - 1)
      | Some file \<Rightarrow>
          (case read_file file of (data_len, data) \<Rightarrow>
           if data_len < 0 then Inr (t, - 1)
           else
             rbind (bencode_parse data (to_int32 data_len)) (\<lambda>r.
             case r of Inl code \<Rightarrow> Inr (t, - 1)
             | Inr (bencode, _) \<Rightarrow>
                 rbind (as_dict bencode) (\<lambda>dict.
                 rbind (dict_get dict ''info'') (\<lambda>info_sect.
                 case info_sect of None \<Rightarrow> Inr (t, - 1)
                 | Some info_sect \<Rightarrow>
                     rbind (rds data (bv_start info_sect) (nat (bv_end info_sect - bv_start info_sect + 1))) (\<lambda>bs.
                     let t = t\<lparr>t_info_hash := Some (sha bs)\<rparr> in
                     rbind (prepare_trackers bencode t) (\<lambda>t.
                     rbind (prepare_info_section bencode t) (\<lambda>(t, _).
                     Inr (t, 0)))))))))"

text \<open>What a load prints to the standard output: the text of \<open>prepare_info_section\<close>, when it gets
  there. The error messages go to \<open>stderr\<close>.\<close>

definition load_text :: "cfile option \<Rightarrow> bytes res" where
  "load_text file =
     (case file of None \<Rightarrow> Inr []
      | Some file \<Rightarrow>
          (case read_file file of (data_len, data) \<Rightarrow>
           if data_len < 0 then Inr []
           else
             rbind (bencode_parse data (to_int32 data_len)) (\<lambda>r.
             case r of Inl code \<Rightarrow> Inr []
             | Inr (bencode, _) \<Rightarrow>
                 rbind (as_dict bencode) (\<lambda>dict.
                 rbind (dict_get dict ''info'') (\<lambda>info_sect.
                 case info_sect of None \<Rightarrow> Inr []
                 | Some _ \<Rightarrow> info_section_text bencode)))))"

subsection \<open>Offsets of the values of a dictionary\<close>

text \<open>The recorded offsets delimit the encoding of the value in the buffer.\<close>

definition spans :: "bytes \<Rightarrow> bencode_value \<Rightarrow> bool" where
  "spans string v \<longleftrightarrow> 0 \<le> bv_start v \<and> bv_start v \<le> bv_end v \<and> bv_end v < int (length string) \<and>
     benc (bslice string (bv_start v) (bv_end v + 1)) (bv_abs v)"

lemma parsed_spans: "parsed string q v p \<Longrightarrow> 0 \<le> q \<Longrightarrow> spans string v"
  by (auto simp: parsed_def spans_def)

lemma pbind_eq_gives: "pbind m f = gives x p \<longleftrightarrow> (\<exists>y q. m = gives y q \<and> f y q = gives x p)"
  by (cases m rule: parse_cases) simp_all

lemma b_dict_loop_values:
  assumes any: "\<And>q v p. 0 < q \<Longrightarrow> any q = gives v p \<Longrightarrow> Q v \<and> q < p"
  shows "b_dict_loop any fuel string len pos ht = gives ht' p \<Longrightarrow> 0 < pos \<Longrightarrow>
    ht_wf c_string fnv_1a_hash_str strcmp ht \<Longrightarrow> \<forall>v \<in> ran (ht_map ht). Q v \<Longrightarrow> \<forall>v \<in> ran (ht_map ht'). Q v"
proof (induction fuel arbitrary: pos ht)
  case 0
  then show ?case by simp
next
  case (Suc fuel)
  obtain c where c: "rd string pos = Inr c" using Suc.prems(1) by (cases "rd string pos") auto
  show ?case
  proof (cases "c = chr_e")
    case True
    with Suc.prems c show ?thesis by simp
  next
    case False
    with Suc.prems(1) c obtain key q where key: "any pos = gives key q" "q < len"
      by (cases "any pos" rule: parse_cases) (auto split: if_splits)
    then obtain val r where val: "any q = gives val r" "r < len"
      using Suc.prems(1) c False by (cases "any q" rule: parse_cases) (auto split: if_splits)
    have q: "0 < q" using any [OF Suc.prems(2) key(1)] Suc.prems(2) by simp
    have Q: "Q val" "0 < r" using any [OF q val(1)] q by auto
    from Suc.prems(1) c False key val obtain k s e where k: "key = BencString k s e" by (cases key) auto
    obtain ht1 x where h1: "hashtable_put ht (cstr k) val = Inr (ht1, x)"
        "ht_wf c_string fnv_1a_hash_str strcmp ht1" "ht_map ht1 = (ht_map ht)(cstr k \<mapsto> val)"
      using str_keys.put_cases [OF Suc.prems(3), of "cstr k" val] Suc.prems(1) c False key val k
      by (auto split: if_splits)
    have "b_dict_loop any fuel string len r ht1 = gives ht' p"
      using Suc.prems(1) c False key val k h1(1) by simp
    then show ?thesis
      by (rule Suc.IH) (use Q h1 Suc.prems(4) in \<open>auto simp: ran_def split: if_splits\<close>)
  qed
qed

lemma bencode_parse_dict_spans:
  assumes "0 \<le> len" "bencode_parse string len = gives (BencDict ht s e) p" "v \<in> ran (ht_map ht)"
  shows "spans string v"
proof -
  let ?any = "b_parse_any (nat len) string len" and ?i = "hashtable_init fnv_1a_hash_str strcmp :: bencode_dict"
  have any: "spans string v \<and> q < p" if "0 < q" "?any q = gives v p" for q v p
  proof (cases "q < len")
    case True
    have "post (parse_ub string len) (parsed string q) (?any q)"
      by (rule b_parse_any_post) (use True that in simp_all)
    then have "parsed string q v p" using that by simp
    then show ?thesis using parsed_spans that(1) by (auto simp: parsed_def)
  next
    case False
    then show ?thesis using that by (cases "nat len") auto
  qed
  have pos: "0 < len" using assms(2) by (cases "0 < len") (auto simp: bencode_parse_def)
  then obtain c where c: "rd string 0 = Inr c"
    using assms(2) by (cases "rd string 0") (auto simp: bencode_parse_def)
  have "b_parse_dict ?any string len 1 0 = gives (BencDict ht s e) p"
    using assms(2) pos c
    by (auto simp: bencode_parse_def b_parse_int_def b_parse_list_def b_parse_string_def Let_def
        rbind_eq_Inr pbind_eq_gives split: if_splits)
  then have "b_dict_loop ?any (Suc (nat (len - 1))) string len 1 ?i = gives ht (p - 1)"
    by (auto simp: b_parse_dict_def pbind_eq_gives simp del: b_dict_loop.simps split: if_splits)
  from b_dict_loop_values [where Q = "spans string", OF any this] show ?thesis
    using assms(3) by (auto simp: str_keys.init_wf str_keys.init_map)
qed

subsection \<open>Lookups and trackers\<close>

lemma dict_get_eq:
  assumes "ht_wf c_string fnv_1a_hash_str strcmp ht" "c_string (lit key)"
  shows "dict_get ht key = Inr (ht_map ht (lit key))"
  using str_keys.get_correct [OF assms] by (simp add: dict_get_def split: option.split)

text \<open>The C strings of the keys the loader looks up.\<close>

lemma torrent_keys:
  "c_string (lit ''announce-list'')" "c_string (lit ''announce'')" "c_string (lit ''info'')"
  "c_string (lit ''piece length'')" "c_string (lit ''name'')" "c_string (lit ''files'')"
  "c_string (lit ''length'')" "c_string (lit ''path'')"
  by (simp_all add: lit_def)

text \<open>The URL the loader takes from a sublist of \<open>announce-list\<close>.\<close>

fun first_url :: "bencode_value \<Rightarrow> bytes option" where
  "first_url (BencList (BencString u _ _ # _) _ _) = Some (cstr u)"
| "first_url _ = None"

lemma first_urlE:
  assumes "first_url v \<noteq> None"
  obtains u s e rest s' e' where "v = BencList (BencString u s e # rest) s' e'"
  using assms by (cases v rule: first_url.cases) auto

lemma tracker_loop_ok:
  assumes "list_all (\<lambda>v. first_url v \<noteq> None) items" "length mid = length items"
  shows "tracker_loop items (int (length pre)) (pre @ mid @ back) = Inr (pre @ map first_url items @ back)"
  using assms
proof (induction items arbitrary: pre mid)
  case Nil
  then show ?case by simp
next
  case (Cons v items)
  obtain m mid' where mid: "mid = m # mid'" "length mid' = length items" using Cons.prems(2) by (cases mid) auto
  have "first_url v \<noteq> None" using Cons.prems(1) by simp
  then obtain u s e rest s' e' where v: "v = BencList (BencString u s e # rest) s' e'" by (rule first_urlE)
  have "wrs (pre @ [m] @ mid' @ back) (int (length pre)) [Some (cstr u)] = Inr (pre @ [Some (cstr u)] @ mid' @ back)"
    by (rule wrs_at_end) simp
  moreover have "tracker_loop items (int (length (pre @ [Some (cstr u)]))) ((pre @ [Some (cstr u)]) @ mid' @ back) =
      Inr ((pre @ [Some (cstr u)]) @ map first_url items @ back)"
    using Cons.prems(1) mid(2) by (intro Cons.IH) simp_all
  ultimately show ?case by (simp add: v mid(1) add.commute)
qed

subsection \<open>Files\<close>

text \<open>An entry of \<open>files\<close> with a length and a non-empty path of strings, and the record it
  becomes.\<close>

definition file_ok :: "bencode_value \<Rightarrow> file_info_t \<Rightarrow> bool" where
  "file_ok v fi \<longleftrightarrow> (\<exists>d s e n s1 e1 segs s2 e2 path.
     v = BencDict d s e \<and> ht_wf c_string fnv_1a_hash_str strcmp d \<and>
     ht_map d (lit ''length'') = Some (BencInteger n s1 e1) \<and>
     ht_map d (lit ''path'') = Some (BencList segs s2 e2) \<and> segs \<noteq> [] \<and>
     rmaps as_string segs = Inr path \<and> fi = \<lparr>fi_length = Some (to_int32 n), fi_path = Some path\<rparr>)"

lemma files_loop_ok:
  assumes "list_all2 file_ok items fis" "length mid = length items" "\<forall>m \<in> set mid. m = \<lparr>fi_length = None, fi_path = None\<rparr>"
  shows "files_loop items (int (length pre)) (pre @ mid @ back) = Inr (pre @ fis @ back, 0)"
  using assms
proof (induction items fis arbitrary: pre mid rule: list_all2_induct)
  case Nil
  then show ?case by simp
next
  case (Cons v items fi fis)
  obtain m mid' where mid: "mid = m # mid'" "length mid' = length items" "m = \<lparr>fi_length = None, fi_path = None\<rparr>"
    using Cons.prems by (cases mid) auto
  obtain d s e n s1 e1 segs s2 e2 path where v: "v = BencDict d s e" "ht_wf c_string fnv_1a_hash_str strcmp d"
     "ht_map d (lit ''length'') = Some (BencInteger n s1 e1)" "ht_map d (lit ''path'') = Some (BencList segs s2 e2)"
     "segs \<noteq> []" "rmaps as_string segs = Inr path" "fi = \<lparr>fi_length = Some (to_int32 n), fi_path = Some path\<rparr>"
    using Cons.hyps(1) unfolding file_ok_def by blast
  have w: "wrs (pre @ x # mid' @ back) (int (length pre)) [y] = Inr (pre @ y # mid' @ back)" for x y
    by (simp add: wrs_def)
  have r: "rd (pre @ m # mid' @ back) (int (length pre)) = Inr m" by simp
  have "files_loop items (int (length (pre @ [fi]))) ((pre @ [fi]) @ mid' @ back) = Inr ((pre @ [fi]) @ fis @ back, 0)"
  proof (rule Cons.IH)
    show "length mid' = length items" by (rule mid(2))
    show "\<forall>m \<in> set mid'. m = \<lparr>fi_length = None, fi_path = None\<rparr>"
      using Cons.prems(2) unfolding mid(1) by simp
  qed
  moreover have "files_loop (v # items) (int (length pre)) (pre @ m # mid' @ back) =
      files_loop items (int (length pre) + 1) (pre @ fi # mid' @ back)"
    unfolding v(1,7) files_loop.simps as_dict.simps rbind_simps dict_get_eq [OF v(2) torrent_keys(7)]
      dict_get_eq [OF v(2) torrent_keys(8)] v(3,4) r by (simp add: w v(5,6) mid(3) Let_def)
  ultimately show ?case by (simp add: mid(1) add.commute)
qed

lemma info_section_text_ok:
  assumes "bv_wf v"
  shows "\<exists>dbg. bencode_debug v = Inr dbg \<and> info_section_text v = Inr (lit ''INFO SECTION:'' @ [10] @ dbg)"
  using b_debug_appends [OF assms, of 0 "[]"] by (auto simp: bencode_debug_def info_section_text_def)

lemma debug_ok: "bv_wf v \<Longrightarrow> rbind (info_section_text v) (\<lambda>_. r) = r"
  by (drule info_section_text_ok) auto

text \<open>A torrent whose hash has 20 bytes, whose tracker count says how many URLs are set, and whose
  mode is set.\<close>

definition torrent_typed :: "torrent_t \<Rightarrow> bool" where
  "torrent_typed t \<longleftrightarrow> (\<exists>h. t_info_hash t = Some h \<and> length h = 20) \<and>
     (\<exists>us rest. t_tracker_urls t = map Some us @ rest \<and> t_tracker_count t = int (length us)) \<and>
     info_mode (t_info t) \<noteq> FilesUnset"

lemma tracker_loop_inv:
  "tracker_loop items i urls = Inr urls' \<Longrightarrow> list_all (\<lambda>v. first_url v \<noteq> None) items"
proof (induction items i urls rule: tracker_loop.induct)
  case (2 b_sublist rest i urls)
  then obtain vs s e where b: "b_sublist = BencList vs s e" by (cases b_sublist) auto
  with 2 obtain v vs' where vs: "vs = v # vs'" by (cases vs) auto
  with 2 b obtain u s' e' where "v = BencString u s' e'" by (cases v) auto
  with 2 b vs show ?case by (auto simp: rbind_eq_Inr)
qed simp

lemma prepare_trackers_typed:
  assumes "prepare_trackers v t = Inr t'"
  shows "(\<exists>us rest. t_tracker_urls t' = map Some us @ rest \<and> t_tracker_count t' = int (length us)) \<and> t_info t' = t_info t"
proof -
  have loop: "\<exists>us. urls = map Some us @ [None] \<and> length us = length items"
    if r: "tracker_loop items 0 (replicate (length items) None @ [None]) = Inr urls" for items urls
  proof -
    have "list_all (\<lambda>v. first_url v \<noteq> None) items" using tracker_loop_inv [OF r] .
    moreover from this have "map first_url items = map Some (map (\<lambda>v. the (first_url v)) items)" by (auto simp: list_all_iff)
    ultimately show ?thesis
      using tracker_loop_ok [of items "replicate (length items) None" "[]" "[None]"] r
      by (intro exI [of _ "map (\<lambda>v. the (first_url v)) items"]) simp
  qed
  have last: "\<exists>us' rest. urls' = map Some us' @ rest \<and> int (length us) + 1 = int (length us')"
    if "wrs (map Some us @ [None]) (int (length us)) [Some a] = Inr urls'" for us :: "bytes list" and a urls'
    using that wrs_at_end [of "[Some a]" "[None]" "map Some us" "[]"]
    by (intro exI [of _ "us @ [a]"] exI [of _ "[]"]) simp
  have wrs0: "wrs (None # replicate n None) (int n) [None] = Inr (replicate n None @ [None])" for n
    using wrs_at_end [of "[None]" "[None]" "replicate n None" "[]"] by (simp add: replicate_append_same)
  let ?first = "\<lambda>al. case al of Some al \<Rightarrow>
           rbind (as_list al) (\<lambda>items.
           let tracker_count = int (length items) in
           rbind (wrs (replicate (length items + 1) None) tracker_count [None]) (\<lambda>urls.
           rbind (tracker_loop items 0 urls) (\<lambda>urls.
           Inr (tracker_count, urls))))
       | None \<Rightarrow> Inr (0, [None])"
  have first: "\<exists>us. urls = map Some us @ [None] \<and> cnt = int (length us)" if "?first al = Inr (cnt, urls)" for al cnt urls
    using that by (cases al) (force simp: rbind_eq_Inr Let_def wrs0 dest!: loop)+
  obtain al cnt urls an where al: "?first al = Inr (cnt, urls)" and an: "(case an of
         Some a \<Rightarrow>
           rbind (as_string a) (\<lambda>announce_str.
           rbind (wrs urls cnt [Some announce_str]) (\<lambda>urls.
           Inr (cnt + 1, urls)))
       | None \<Rightarrow> Inr (cnt, urls)) = Inr (t_tracker_count t', t_tracker_urls t')" and "t_info t' = t_info t"
    using assms unfolding prepare_trackers_def rbind_eq_Inr by (elim exE conjE) (auto simp: rbind_eq_Inr)
  obtain us where us: "urls = map Some us @ [None]" "cnt = int (length us)" using first [OF al] by blast
  have "\<exists>us rest. t_tracker_urls t' = map Some us @ rest \<and> t_tracker_count t' = int (length us)"
  proof (cases an)
    case None
    then show ?thesis using an us by (intro exI [of _ us] exI [of _ "[None]"]) simp
  next
    case (Some a)
    then obtain str where "wrs (map Some us @ [None]) (int (length us)) [Some str] = Inr (t_tracker_urls t')"
        "t_tracker_count t' = int (length us) + 1"
      using an us by (auto simp: rbind_eq_Inr)
    then show ?thesis using last [of us str] by auto
  qed
  then show ?thesis using \<open>t_info t' = t_info t\<close> by blast
qed

lemma prepare_info_typed:
  assumes "prepare_info_section v t = Inr (t', r)" "as_dict v = Inr dict" "dict_get dict ''info'' = Inr (Some info)"
  shows "info_mode (t_info t') \<noteq> FilesUnset \<and> t_tracker_urls t' = t_tracker_urls t \<and> t_tracker_count t' = t_tracker_count t"
  using assms
  by (auto simp: prepare_info_section_def Let_def rbind_eq_Inr split: option.splits if_splits)

lemma prepare_keep_hash:
  "prepare_trackers v t = Inr t' \<Longrightarrow> t_info_hash t' = t_info_hash t"
  "prepare_info_section v t = Inr (t', r) \<Longrightarrow> t_info_hash t' = t_info_hash t"
  by (auto simp: prepare_trackers_def prepare_info_section_def Let_def rbind_eq_Inr
      split: option.splits if_splits)

text \<open>The stages of a load that succeeded.\<close>

lemma load_phases:
  assumes "torrent_init_from_file sha (Some file) t = Inr (t', 0)"
  obtains v p dict info bs t1 r where
    "bencode_parse (cf_content file) (to_int32 (int (length (cf_content file)))) = gives v p" "as_dict v = Inr dict"
    "dict_get dict ''info'' = Inr (Some info)"
    "rds (cf_content file) (bv_start info) (nat (bv_end info - bv_start info + 1)) = Inr bs"
    "prepare_trackers v (t\<lparr>t_info_hash := Some (sha bs)\<rparr>) = Inr t1" "prepare_info_section v t1 = Inr (t', r)"
proof -
  let ?data = "cf_content file" and ?len = "to_int32 (int (length (cf_content file)))"
  have seek: "cf_seekable file"
    using assms by (cases "cf_seekable file") (simp_all add: torrent_init_from_file_def read_file_def)
  obtain v p where vp: "bencode_parse ?data ?len = gives v p"
    using assms seek
    by (cases "bencode_parse ?data ?len" rule: parse_cases) (simp_all add: torrent_init_from_file_def read_file_def)
  then obtain dict where dict: "as_dict v = Inr dict"
    using assms seek by (cases "as_dict v") (simp_all add: torrent_init_from_file_def read_file_def)
  obtain info where "dict_get dict ''info'' = Inr (Some info)"
    using assms seek vp dict
    by (auto simp: torrent_init_from_file_def read_file_def rbind_eq_Inr split: option.splits)
  with vp dict show ?thesis
    using assms seek that by (auto simp: torrent_init_from_file_def read_file_def Let_def rbind_eq_Inr)
qed

lemma loaded_typed:
  assumes "torrent_init_from_file sha cf junk = Inr (t, 0)" "\<And>bs. length (sha bs) = 20"
  shows "torrent_typed t"
proof -
  obtain f where "cf = Some f" using assms(1) by (cases cf) (simp_all add: torrent_init_from_file_def)
  with assms(1) obtain v p dict info bs t1 r where r: "bencode_parse (cf_content f) (to_int32 (int (length (cf_content f)))) = gives v p"
      "as_dict v = Inr dict" "dict_get dict ''info'' = Inr (Some info)"
      "prepare_trackers v (junk\<lparr>t_info_hash := Some (sha bs)\<rparr>) = Inr t1" "prepare_info_section v t1 = Inr (t, r)"
    by (auto elim: load_phases)
  have "t_info_hash t = Some (sha bs)" using prepare_keep_hash(1) [OF r(4)] prepare_keep_hash(2) [OF r(5)] by simp
  then show ?thesis
    using prepare_trackers_typed [OF r(4)] prepare_info_typed [OF r(5,2,3)] assms(2) by (simp add: torrent_typed_def)
qed

lemma as_dict_eq_Inr: "as_dict v = Inr ht \<longleftrightarrow> (\<exists>s e. v = BencDict ht s e)"
  by (cases v) auto

lemma nested_dict_wf:
  assumes "bv_wf (BencDict ht s e)" "ht_map ht k = Some (BencDict d s1 e1)"
  shows "ht_wf c_string fnv_1a_hash_str strcmp d"
proof -
  have "\<forall>v \<in> ran (ht_map ht). bv_wf v" using assms(1) by simp
  then have "bv_wf (BencDict d s1 e1)" by (rule bspec) (rule ranI [of "ht_map ht" k, OF assms(2)])
  then show ?thesis by simp
qed

lemma bv_abs_int: "bv_abs v = AInt n \<Longrightarrow> \<exists>s e. v = BencInteger n s e"
  by (cases v) auto

lemma bv_abs_is_dict: "bv_abs v = ADict d \<Longrightarrow> \<exists>ht s e. v = BencDict ht s e \<and> d = dict_abs ht"
  by (cases v) auto

lemma spans_rds:
  "spans string v \<Longrightarrow> \<exists>bs. rds string (bv_start v) (nat (bv_end v - bv_start v + 1)) = Inr bs"
  by (auto simp: spans_def rds_def)

lemma single_info_section:
  assumes "bv_wf (BencDict ht s e)" "ht_map ht (lit ''info'') = Some (BencDict d s1 e1)"
    "ht_map d (lit ''piece length'') \<noteq> None" "ht_map d (lit ''name'') = Some (BencString nm s2 e2)"
    "ht_map d (lit ''files'') = None" "ht_map d (lit ''length'') = Some (BencInteger n s3 e3)"
  shows "prepare_info_section (BencDict ht s e) t =
    Inr (t\<lparr>t_info := (t_info t)\<lparr>info_file_name := Some (cstr nm), info_pieces := None,
           info_mode := SingleFile (Some (to_int32 n))\<rparr>\<rparr>, 0)"
proof -
  have wf: "ht_wf c_string fnv_1a_hash_str strcmp ht" and d: "ht_wf c_string fnv_1a_hash_str strcmp d"
    using nested_dict_wf [OF assms(1,2)] assms(1) by simp_all
  show ?thesis
    using assms(2-6) unfolding prepare_info_section_def debug_ok [OF assms(1)]
    by (auto simp: dict_get_eq [OF wf] dict_get_eq [OF d] torrent_keys Let_def)
qed

lemma single_tracker:
  assumes "ht_wf c_string fnv_1a_hash_str strcmp ht" "ht_map ht (lit ''announce-list'') = None"
    "ht_map ht (lit ''announce'') = Some (BencString u s1 e1)"
  shows "prepare_trackers (BencDict ht s e) t =
    Inr (t\<lparr>t_tracker_count := 1, t_tracker_urls := [Some (cstr u)]\<rparr>)"
  using assms(2,3) unfolding prepare_trackers_def
  by (simp add: dict_get_eq [OF assms(1)] torrent_keys wrs_def)

text \<open>A small torrent file, for use in examples: one tracker, one file of three bytes.\<close>

abbreviation estr :: "bytes \<Rightarrow> bytes" where
  "estr bs \<equiv> itoa (int (length bs)) @ chr_colon # bs"

definition sample_torrent :: bytes where
  "sample_torrent = chr_d # (estr (lit ''announce'') @ estr (lit ''udp://t'') @
     estr (lit ''info'') @ (chr_d # (estr (lit ''length'') @ (chr_i # [51] @ [chr_e]) @
        estr (lit ''name'') @ estr (lit ''n'') @ estr (lit ''piece length'') @ (chr_i # [49] @ [chr_e]) @ []) @ [chr_e]) @ []) @ [chr_e]"

definition sample_info :: "bytes \<rightharpoonup> bval" where
  "sample_info = map_of (rev [(lit ''length'', AInt 3), (lit ''name'', AStr (lit ''n'')), (lit ''piece length'', AInt 1)])"

lemma benc_estr: "int (length bs) < INT_MAX \<Longrightarrow> benc (estr bs) (AStr bs)"
  using encodes_string [of bs id 0 0] by (simp add: encodes_def)

lemma bencd_pair:
  "benc w v \<Longrightarrow> bencd ws kvs \<Longrightarrow> c_string k \<Longrightarrow> int (length k) < INT_MAX \<Longrightarrow> bencd (estr k @ w @ ws) ((k, v) # kvs)"
  using bencd_Cons [OF benc_estr [of k]] by simp

lemma sample_torrent_benc:
  "benc sample_torrent (ADict (map_of (rev [(lit ''announce'', AStr (lit ''udp://t'')), (lit ''info'', ADict sample_info)])))"
proof -
  have i: "benc (chr_i # [51] @ [chr_e]) (AInt 3)" "benc (chr_i # [49] @ [chr_e]) (AInt 1)"
    using benc_int [of "[51]"] benc_int [of "[49]"] by (simp_all add: isdigit_def digit_val_def)
  show ?thesis
    unfolding sample_torrent_def sample_info_def
    by (intro benc_dict bencd_pair bencd_Nil benc_estr i) (simp_all add: lit_def)
qed

lemma load_single_file:
  assumes "benc w (ADict dict)" and "cf_content f = w @ rest" and "cf_seekable f"
    and "int (length (w @ rest)) \<le> INT_MAX"
    and "dict (lit ''announce-list'') = None" and "dict (lit ''announce'') = Some (AStr u)"
    and "dict (lit ''info'') = Some (ADict info)" and "info (lit ''piece length'') \<noteq> None"
    and "info (lit ''name'') = Some (AStr nm)" and "info (lit ''length'') = Some (AInt n)"
    and "info (lit ''files'') = None" and "\<And>bs. length (sha bs) = 20"
  shows "\<exists>h. length h = 20 \<and> torrent_init_from_file sha (Some f) t =
    Inr (t\<lparr>t_info_hash := Some h, t_tracker_count := 1, t_tracker_urls := [Some (cstr u)],
      t_info := (t_info t)\<lparr>info_file_name := Some (cstr nm), info_pieces := None,
         info_mode := SingleFile (Some (to_int32 n))\<rparr>\<rparr>, 0)"
proof -
  let ?len = "int (length (w @ rest))"
  have len: "to_int32 ?len = ?len" using assms(4) by (intro to_int32_id) simp_all
  obtain v where v: "bencode_parse (w @ rest) ?len = gives v (int (length w))" "bv_abs v = ADict dict" "bv_wf v"
    using bencode_parse_complete [OF assms(1), of ?len rest] assms(4) by auto
  then obtain ht s e where ht: "v = BencDict ht s e" "dict = dict_abs ht" using bv_abs_is_dict by blast
  obtain iv where iv: "ht_map ht (lit ''info'') = Some iv" "bv_abs iv = ADict info" using assms(7) ht(2) by auto
  obtain d s1 e1 where d: "iv = BencDict d s1 e1" "info = dict_abs d" using bv_abs_is_dict [OF iv(2)] by blast
  obtain s2 e2 where u: "ht_map ht (lit ''announce'') = Some (BencString u s2 e2)"
    using assms(6) ht(2) by (auto dest: bv_abs_string)
  obtain s3 e3 where nm: "ht_map d (lit ''name'') = Some (BencString nm s3 e3)"
    using assms(9) d(2) by (auto dest: bv_abs_string)
  obtain s4 e4 where n: "ht_map d (lit ''length'') = Some (BencInteger n s4 e4)"
    using assms(10) d(2) by (auto dest: bv_abs_int)
  have wf: "bv_wf (BencDict ht s e)" "ht_wf c_string fnv_1a_hash_str strcmp ht" using v(3) ht(1) by simp_all
  have "spans (w @ rest) iv"
    by (rule bencode_parse_dict_spans [of ?len _ ht s e "int (length w)"])
      (use v(1) ht(1) iv(1) in \<open>auto intro: ranI\<close>)
  then obtain bs where bs: "rds (w @ rest) (bv_start iv) (nat (bv_end iv - bv_start iv + 1)) = Inr bs"
    using spans_rds by blast
  have "ht_map ht (lit ''announce-list'') = None" using assms(5) ht(2) by simp
  note tr = single_tracker [OF wf(2) this u]
  have inf: "prepare_info_section (BencDict ht s e) t' =
    Inr (t'\<lparr>t_info := (t_info t')\<lparr>info_file_name := Some (cstr nm), info_pieces := None,
           info_mode := SingleFile (Some (to_int32 n))\<rparr>\<rparr>, 0)" for t'
    by (rule single_info_section [OF wf(1) iv(1) [unfolded d(1)] _ nm _ n]) (use assms(8,11) d(2) in auto)
  have "torrent_init_from_file sha (Some f) t =
    Inr (t\<lparr>t_info_hash := Some (sha bs), t_tracker_count := 1, t_tracker_urls := [Some (cstr u)],
      t_info := (t_info t)\<lparr>info_file_name := Some (cstr nm), info_pieces := None,
         info_mode := SingleFile (Some (to_int32 n))\<rparr>\<rparr>, 0)"
    using v(1) bs iv(1) assms(2,3) len
    by (simp add: torrent_init_from_file_def read_file_def ht(1) dict_get_eq [OF wf(2)] torrent_keys Let_def tr inf)
  then show ?thesis using assms(12) by blast
qed

lemma load_text_parsed:
  assumes "benc w (ADict dict)" "cf_content f = w @ rest" "cf_seekable f" "int (length (w @ rest)) \<le> INT_MAX"
    and "dict (lit ''info'') \<noteq> None"
  shows "\<exists>v dbg. bencode_parse (w @ rest) (int (length (w @ rest))) = gives v (int (length w)) \<and>
    bencode_debug v = Inr dbg \<and> load_text (Some f) = Inr (lit ''INFO SECTION:'' @ [10] @ dbg)"
proof -
  have len: "to_int32 (int (length (w @ rest))) = int (length (w @ rest))" using assms(4) by (intro to_int32_id) simp_all
  obtain v where v: "bencode_parse (w @ rest) (int (length (w @ rest))) = gives v (int (length w))"
      "bv_abs v = ADict dict" "bv_wf v"
    using bencode_parse_complete [OF assms(1), of "int (length (w @ rest))" rest] assms(4) by auto
  then obtain ht s e where ht: "v = BencDict ht s e" "dict = dict_abs ht" using bv_abs_is_dict by blast
  obtain dbg where dbg: "bencode_debug v = Inr dbg" "info_section_text v = Inr (lit ''INFO SECTION:'' @ [10] @ dbg)"
    using info_section_text_ok [OF v(3)] by blast
  have "ht_wf c_string fnv_1a_hash_str strcmp ht" using v(3) ht(1) by simp
  then have "dict_get ht ''info'' = Inr (ht_map ht (lit ''info''))" "ht_map ht (lit ''info'') \<noteq> None"
    using dict_get_eq torrent_keys(3) assms(5) ht(2) by auto
  then have "load_text (Some f) = Inr (lit ''INFO SECTION:'' @ [10] @ dbg)"
    using v(1) assms(2,3) len dbg(2) ht(1) by (auto simp: load_text_def read_file_def)
  then show ?thesis using v(1) dbg(1) by blast
qed

definition blank_torrent :: torrent_t where
  "blank_torrent = \<lparr>t_info_hash = None, t_info = \<lparr>info_piece_length = None, info_pieces = None,
     info_file_name = None, info_mode = FilesUnset\<rparr>, t_tracker_count = 0, t_tracker_urls = []\<rparr>"

lemma sample_facts:
  "int (length (sample_torrent @ [])) \<le> INT_MAX"
  "to_int32 3 = 3" "cstr (lit ''n'') = lit ''n''" "cstr (lit ''udp://t'') = lit ''udp://t''"
  "length (take 20 (bs @ replicate 20 0)) = 20" for bs :: bytes
proof -
  show "int (length (sample_torrent @ [])) \<le> INT_MAX"
    by (simp add: sample_torrent_def lit_def itoa_def show_int_def dec_nat.simps)
qed (simp_all add: lit_def to_int32_id min_def)

lemma sample_lookup:
  "map_of (rev [(lit ''announce'', AStr (lit ''udp://t'')), (lit ''info'', ADict sample_info)]) (lit ''announce-list'') = None"
  "map_of (rev [(lit ''announce'', AStr (lit ''udp://t'')), (lit ''info'', ADict sample_info)]) (lit ''announce'') = Some (AStr (lit ''udp://t''))"
  "map_of (rev [(lit ''announce'', AStr (lit ''udp://t'')), (lit ''info'', ADict sample_info)]) (lit ''info'') = Some (ADict sample_info)"
  "sample_info (lit ''piece length'') \<noteq> None" "sample_info (lit ''name'') = Some (AStr (lit ''n''))"
  "sample_info (lit ''length'') = Some (AInt 3)" "sample_info (lit ''files'') = None"
  by (simp_all add: sample_info_def lit_def)

subsection \<open>Properties\<close>

text \<open>C28: Tracker URLs. For a dictionary whose \<open>announce-list\<close> is a list of non-empty lists of
  strings, the URLs are the first string of each sublist, followed by the string of
  \<open>announce\<close> when it is there; \<open>tracker_count\<close> is their number, and no write is outside the
  array. Only the two tracker fields change.\<close>

theorem prepare_trackers_correct:
  assumes "ht_wf c_string fnv_1a_hash_str strcmp ht"
    and "ht_map ht (lit ''announce-list'') = Some (BencList items s e)"
    and "list_all (\<lambda>v. first_url v \<noteq> None) items"
    and "ht_map ht (lit ''announce'') = Some (BencString u s' e') \<or> ht_map ht (lit ''announce'') = None"
  shows "prepare_trackers (BencDict ht s0 e0) t =
    Inr (case ht_map ht (lit ''announce'') of
        None \<Rightarrow> t\<lparr>t_tracker_count := int (length items), t_tracker_urls := map first_url items @ [None]\<rparr>
      | Some _ \<Rightarrow> t\<lparr>t_tracker_count := int (length items) + 1,
                   t_tracker_urls := map first_url items @ [Some (cstr u)]\<rparr>)"
proof -
  let ?n = "length items"
  have rep: "replicate (?n + 1) None = (replicate ?n None @ [None] :: bytes option list)"
    by (simp add: replicate_append_same)
  have w: "wrs (replicate (?n + 1) None) (int ?n) [None] = (Inr (replicate ?n None @ [None]) :: bytes option list res)"
    unfolding rep by (simp add: wrs_def)
  have "tracker_loop items (int (length ([] :: bytes option list))) ([] @ replicate ?n None @ [None]) =
      Inr ([] @ map first_url items @ [None])"
    by (rule tracker_loop_ok) (use assms(3) in simp_all)
  then have l: "tracker_loop items 0 (replicate ?n None @ [None]) = Inr (map first_url items @ [None])" by simp
  have a: "wrs (map first_url items @ [None]) (int ?n) [Some (cstr u)] = Inr (map first_url items @ [Some (cstr u)])"
    by (simp add: wrs_def)
  show ?thesis
    using assms(2,4) w l a unfolding prepare_trackers_def
    by (auto simp: dict_get_eq [OF assms(1)] torrent_keys Let_def)
qed

theorem prepare_trackers_correct_witness:
  "\<exists>ht. prepare_trackers (BencDict ht 0 0)
      \<lparr>t_info_hash = None, t_info = \<lparr>info_piece_length = None, info_pieces = None, info_file_name = None,
         info_mode = FilesUnset\<rparr>, t_tracker_count = 0, t_tracker_urls = []\<rparr> =
    Inr \<lparr>t_info_hash = None, t_info = \<lparr>info_piece_length = None, info_pieces = None, info_file_name = None,
         info_mode = FilesUnset\<rparr>, t_tracker_count = 1, t_tracker_urls = [Some [97], None]\<rparr>"
proof -
  let ?v = "BencList [BencString [97] 0 0] 0 0"
  obtain ht where ht: "dict_wf ht" "ht_map ht = [lit ''announce-list'' \<mapsto> BencList [?v] 0 0]"
    using dict_exists [of "[(lit ''announce-list'', BencList [?v] 0 0)]"] torrent_keys(1)
    by (auto simp: PUT_LIMIT_def)
  have "lit ''announce'' \<noteq> lit ''announce-list''" by (simp add: lit_def)
  then have m: "ht_map ht (lit ''announce-list'') = Some (BencList [?v] 0 0)" "ht_map ht (lit ''announce'') = None"
    using ht(2) by simp_all
  have "list_all (\<lambda>v. first_url v \<noteq> None) [?v]" by simp
  from prepare_trackers_correct [OF conjunct1 [OF ht(1)] m(1) this, of _ _ _ 0 0] m(2) show ?thesis
    by (intro exI [of _ ht]) simp
qed

text \<open>C29: Multi-file torrents. For a well-formed value with an \<open>info\<close> dictionary that has a
  piece length, a name and a list of well-shaped files, \<open>prepare_info_section\<close> returns 0 and
  records the name and, in order, the length and path of every file.\<close>

theorem prepare_info_multi_file:
  assumes "bv_wf (BencDict ht s e)" and "ht_map ht (lit ''info'') = Some (BencDict d s1 e1)"
    and "ht_map d (lit ''piece length'') \<noteq> None" and "ht_map d (lit ''name'') = Some (BencString nm s2 e2)"
    and "ht_map d (lit ''files'') = Some (BencList items s3 e3)" and "list_all2 file_ok items fis"
  shows "prepare_info_section (BencDict ht s e) t =
    Inr (t\<lparr>t_info := (t_info t)\<lparr>info_file_name := Some (cstr nm), info_pieces := None, info_mode := MultiFile fis\<rparr>\<rparr>, 0)"
proof -
  have wf: "ht_wf c_string fnv_1a_hash_str strcmp ht" and d: "ht_wf c_string fnv_1a_hash_str strcmp d"
    using nested_dict_wf [OF assms(1,2)] assms(1) by simp_all
  let ?mid = "replicate (length items) \<lparr>fi_length = None, fi_path = None\<rparr>"
  have "files_loop items (int (length ([] :: file_info_t list))) ([] @ ?mid @ []) = Inr ([] @ fis @ [], 0)"
    by (rule files_loop_ok [OF assms(6)]) simp_all
  then have f: "files_loop items 0 ?mid = Inr (fis, 0)" by simp
  show ?thesis
    using assms(2-5) f unfolding prepare_info_section_def debug_ok [OF assms(1)]
    by (auto simp: dict_get_eq [OF wf] dict_get_eq [OF d] torrent_keys Let_def)
qed

theorem prepare_info_multi_file_witness:
  "\<exists>ht d. list_all2 file_ok [BencDict d 0 0] [\<lparr>fi_length = Some 42, fi_path = Some [[97], [98]]\<rparr>] \<and>
     (\<forall>t. prepare_info_section (BencDict ht 0 0) t =
       Inr (t\<lparr>t_info := (t_info t)\<lparr>info_file_name := Some [110], info_pieces := None,
         info_mode := MultiFile [\<lparr>fi_length = Some 42, fi_path = Some [[97], [98]]\<rparr>]\<rparr>\<rparr>, 0))"
proof -
  let ?path = "BencList [BencString [97] 0 0, BencString [98] 0 0] 0 0" and ?n = "BencInteger 42 0 0"
  let ?fi = "\<lparr>fi_length = Some 42, fi_path = Some [[97], [98]]\<rparr>"
  have k: "lit ''piece length'' \<noteq> lit ''name''" "lit ''piece length'' \<noteq> lit ''files''"
      "lit ''name'' \<noteq> lit ''files''" "lit ''length'' \<noteq> lit ''path''"
    by (simp_all add: lit_def)
  obtain fd where fd: "dict_wf fd" "ht_map fd = map_of (rev [(lit ''length'', ?n), (lit ''path'', ?path)])"
    using dict_exists [of "[(lit ''length'', ?n), (lit ''path'', ?path)]"] torrent_keys(7,8)
    by (auto simp: PUT_LIMIT_def)
  obtain d where d: "dict_wf d" "ht_map d = map_of (rev [(lit ''piece length'', BencInteger 1 0 0),
      (lit ''name'', BencString [110] 0 0), (lit ''files'', BencList [BencDict fd 0 0] 0 0)])"
    using dict_exists [of "[(lit ''piece length'', BencInteger 1 0 0),
      (lit ''name'', BencString [110] 0 0), (lit ''files'', BencList [BencDict fd 0 0] 0 0)]"]
      torrent_keys(4-6) fd(1) by (auto simp: PUT_LIMIT_def)
  obtain ht where ht: "dict_wf ht" "ht_map ht = [lit ''info'' \<mapsto> BencDict d 0 0]"
    using dict_exists [of "[(lit ''info'', BencDict d 0 0)]"] torrent_keys(3) d(1)
    by (auto simp: PUT_LIMIT_def)
  have "file_ok (BencDict fd 0 0) ?fi"
    using fd k(4) by (auto simp: file_ok_def to_int32_id cstr_def)
  then have fs: "list_all2 file_ok [BencDict fd 0 0] [?fi]" by simp
  have "prepare_info_section (BencDict ht 0 0) t =
     Inr (t\<lparr>t_info := (t_info t)\<lparr>info_file_name := Some (cstr [110]), info_pieces := None, info_mode := MultiFile [?fi]\<rparr>\<rparr>, 0)" for t
    by (rule prepare_info_multi_file [where d = d, OF _ _ _ _ _ fs]) (use ht d k in simp_all)
  with fs show ?thesis by (intro exI [of _ ht] exI [of _ fd]) (simp add: cstr_def)
qed

text \<open>C39: The test on \<open>piece length\<close> is inverted. Without that key, an indeterminate pointer is
  dereferenced; with it, the value is never stored: every run that returns leaves
  \<open>piece_length\<close> as it was before.\<close>

theorem piece_length_inverted:
  assumes "bv_wf (BencDict ht s e)" and "ht_map ht (lit ''info'') = Some (BencDict d s1 e1)"
  shows "(ht_map d (lit ''piece length'') = None \<longrightarrow>
      prepare_info_section (BencDict ht s e) t = Inl UninitRead) \<and>
    (\<forall>t' r. prepare_info_section (BencDict ht s e) t = Inr (t', r) \<longrightarrow>
      info_piece_length (t_info t') = info_piece_length (t_info t))"
proof -
  have wf: "ht_wf c_string fnv_1a_hash_str strcmp ht" and d: "ht_wf c_string fnv_1a_hash_str strcmp d"
    using nested_dict_wf [OF assms] assms(1) by simp_all
  have "prepare_info_section (BencDict ht s e) t = Inr (t', r) \<Longrightarrow>
      info_piece_length (t_info t') = info_piece_length (t_info t)" for t' r
    using assms(2) unfolding prepare_info_section_def debug_ok [OF assms(1)]
    by (auto simp: dict_get_eq [OF wf] dict_get_eq [OF d] torrent_keys Let_def rbind_eq_Inr rmap_def
        split: option.splits if_splits)
  then show ?thesis
    using assms(2) unfolding prepare_info_section_def debug_ok [OF assms(1)]
    by (auto simp: dict_get_eq [OF wf] dict_get_eq [OF d] torrent_keys Let_def)
qed

theorem piece_length_inverted_witness:
  "\<exists>ht. \<forall>t. prepare_info_section (BencDict ht 0 0) t = Inl UninitRead"
proof -
  let ?i = "hashtable_init fnv_1a_hash_str strcmp :: bencode_dict"
  have i: "bv_wf (BencDict ?i 0 0)" using str_keys.init_wf by (simp add: str_keys.init_map)
  then obtain ht where ht: "dict_wf ht" "ht_map ht = [lit ''info'' \<mapsto> BencDict ?i 0 0]"
    using dict_exists [of "[(lit ''info'', BencDict ?i 0 0)]"] torrent_keys(3)
    by (auto simp: PUT_LIMIT_def)
  then have "bv_wf (BencDict ht 0 0)" by simp
  from piece_length_inverted [OF this, of ?i 0 0] ht show ?thesis by (auto simp: str_keys.init_map)
qed

lemma loaded_info_hash:
  assumes "torrent_init_from_file sha (Some file) t = Inr (t', 0)"
    and "int (length (cf_content file)) \<le> INT_MAX"
  shows "\<exists>w dict pre part back info.
    benc w (ADict dict) \<and> (\<exists>rest. cf_content file = w @ rest) \<and> dict (lit ''info'') = Some info \<and>
    cf_content file = pre @ part @ back \<and> benc part info \<and> t_info_hash t' = Some (sha part)"
proof -
  let ?data = "cf_content file" and ?len = "int (length (cf_content file))"
  have len: "to_int32 ?len = ?len" using assms(2) by (intro to_int32_id) simp_all
  obtain v p dict info bs t1 where run: "bencode_parse ?data ?len = gives v p" "as_dict v = Inr dict"
      "dict_get dict ''info'' = Inr (Some info)"
      "rds ?data (bv_start info) (nat (bv_end info - bv_start info + 1)) = Inr bs"
      "prepare_trackers v (t\<lparr>t_info_hash := Some (sha bs)\<rparr>) = Inr t1" "\<exists>r. prepare_info_section v t1 = Inr (t', r)"
    using load_phases [OF assms(1), unfolded len] by metis
  obtain s e where v: "v = BencDict dict s e" using run(2) by (auto simp: as_dict_eq_Inr)
  have sound: "parsed ?data 0 v p" using bencode_parse_post [of ?len ?data] run(1) by simp
  then have wf: "ht_wf c_string fnv_1a_hash_str strcmp dict" by (simp add: parsed_def v)
  have info: "ht_map dict (lit ''info'') = Some info"
    using run(3) by (simp add: dict_get_eq [OF wf] torrent_keys)
  have "spans ?data info"
    by (rule bencode_parse_dict_spans [of ?len _ dict s e p]) (use run(1) v info in \<open>auto intro: ranI\<close>)
  then have "bs = bslice ?data (bv_start info) (bv_end info + 1)" and part: "benc bs (bv_abs info)"
    using run(4) by (auto simp: spans_def rds_def bslice_def algebra_simps split: if_splits)
  moreover have "?data = take (nat (bv_start info)) ?data @ bs @ drop (nat (bv_start info) + length bs) ?data"
    using run(4) by (auto simp: rds_def split: if_splits) (metis append_take_drop_id drop_drop add.commute)
  moreover have "t_info_hash t' = Some (sha bs)" using run(5,6) prepare_keep_hash by fastforce
  moreover have "benc (take (nat p) ?data) (ADict (dict_abs dict))"
    using sound by (simp add: parsed_def v bslice_def)
  moreover have "?data = take (nat p) ?data @ drop (nat p) ?data" by simp
  moreover have "dict_abs dict (lit ''info'') = Some (bv_abs info)" by (simp add: info)
  ultimately show ?thesis using part by blast
qed

text \<open>C3: The info hash. When loading a file of at most \<open>INT_MAX\<close> bytes succeeds, the file
  begins with a dictionary of the grammar, and the hash stored is the SHA-1 of a contiguous part
  of the file that is exactly an encoding of the value of its \<open>info\<close> key.\<close>

theorem torrent_info_hash:
  assumes "torrent_init_from_file sha (Some file) t = Inr (t', 0)"
    and "int (length (cf_content file)) \<le> INT_MAX"
  shows "\<exists>w dict pre part back info.
    benc w (ADict dict) \<and> (\<exists>rest. cf_content file = w @ rest) \<and> dict (lit ''info'') = Some info \<and>
    cf_content file = pre @ part @ back \<and> benc part info \<and> t_info_hash t' = Some (sha part)"
  using assms by (rule loaded_info_hash)

theorem torrent_info_hash_witness:
  "\<exists>h. (\<exists>t'. torrent_init_from_file (\<lambda>bs. take 20 (bs @ replicate 20 0))
       (Some \<lparr>cf_content = sample_torrent, cf_seekable = True\<rparr>) blank_torrent = Inr (t', 0) \<and> t_info_hash t' = Some h) \<and>
     (\<exists>pre part back info. sample_torrent = pre @ part @ back \<and> benc part info \<and> h = take 20 (part @ replicate 20 0))"
proof -
  let ?f = "\<lparr>cf_content = sample_torrent, cf_seekable = True\<rparr>"
  obtain t' where run: "torrent_init_from_file (\<lambda>bs. take 20 (bs @ replicate 20 0)) (Some ?f) blank_torrent = Inr (t', 0)"
    using load_single_file [where sha = "\<lambda>bs. take 20 (bs @ replicate 20 0)" and t = blank_torrent and f = ?f,
        OF sample_torrent_benc _ _ sample_facts(1) sample_lookup sample_facts(5)]
    by auto
  have "int (length (cf_content ?f)) \<le> INT_MAX" using sample_facts(1) by simp
  from torrent_info_hash [OF run this] run show ?thesis by auto
qed

text \<open>C21: Single-file torrents load. A file that begins with the encoding of a dictionary with an
  announce URL (and no announce list) and an info dictionary with a piece length, a name and a
  length loads with result 0: one tracker, the name, the length (as an \<open>int\<close>) and the info
  hash of 20 bytes when SHA-1 yields 20 bytes.\<close>

theorem torrent_load_single_file:
  assumes "benc w (ADict dict)" and "cf_content f = w @ rest" and "cf_seekable f"
    and "int (length (w @ rest)) \<le> INT_MAX"
    and "dict (lit ''announce-list'') = None" and "dict (lit ''announce'') = Some (AStr u)"
    and "dict (lit ''info'') = Some (ADict info)" and "info (lit ''piece length'') \<noteq> None"
    and "info (lit ''name'') = Some (AStr nm)" and "info (lit ''length'') = Some (AInt n)"
    and "info (lit ''files'') = None" and "\<And>bs. length (sha bs) = 20"
  shows "\<exists>h. length h = 20 \<and> torrent_init_from_file sha (Some f) t =
    Inr (t\<lparr>t_info_hash := Some h, t_tracker_count := 1, t_tracker_urls := [Some (cstr u)],
      t_info := (t_info t)\<lparr>info_file_name := Some (cstr nm), info_pieces := None,
         info_mode := SingleFile (Some (to_int32 n))\<rparr>\<rparr>, 0)"
  using assms by (rule load_single_file)

theorem torrent_load_single_file_witness:
  "\<exists>h. torrent_init_from_file (\<lambda>bs. take 20 (bs @ replicate 20 0)) (Some \<lparr>cf_content = sample_torrent, cf_seekable = True\<rparr>)
      blank_torrent =
    Inr (blank_torrent\<lparr>t_info_hash := Some h, t_tracker_count := 1, t_tracker_urls := [Some (lit ''udp://t'')],
      t_info := (t_info blank_torrent)\<lparr>info_file_name := Some (lit ''n''), info_pieces := None,
        info_mode := SingleFile (Some 3)\<rparr>\<rparr>, 0)"
  using torrent_load_single_file [where sha = "\<lambda>bs. take 20 (bs @ replicate 20 0)" and t = blank_torrent
      and f = "\<lparr>cf_content = sample_torrent, cf_seekable = True\<rparr>",
      OF sample_torrent_benc _ _ sample_facts(1) sample_lookup sample_facts(5)]
  unfolding sample_facts by auto

end
