(* ===== verification/Flood_Util.thy ===== *)
theory Flood_Util
  imports Flood_Bencode_Print
begin

section \<open>Peer ids (src/util/util.c)\<close>

text \<open>
  The table of client names and the two functions that read a 20-byte peer id of the form
  \<open>-XXnnnn-\<close>. A result of \<open>None\<close> stands for the return value -1. The loop over the table does
  not stop at a match, so the last entry with the code of the id gives the name; the reference
  is the map in which later entries take precedence.
\<close>

definition peer_client_lookup :: "(string \<times> string) list" where
  "peer_client_lookup = [
    (''7T'', ''aTorrent Android''), (''AB'', ''AnyAvent::BitTorrent''), (''AG'', ''Ares''),
    (''A~'', ''Ares''), (''AR'', ''Arctic''), (''AV'', ''Avicora''), (''AT'', ''Artemis''),
    (''AX'', ''BitPump''), (''AZ'', ''Azureus''), (''BB'', ''BitBuddy''), (''BC'', ''BitComet''),
    (''BE'', ''Baretorrent''), (''BF'', ''Bitflu''), (''BG'', ''BTG''),
    (''BL'', ''BitCometLite''), (''BL'', ''BitBlinder''), (''BP'', ''BitTorrent Pro''),
    (''BR'', ''BitRocket''), (''BS'', ''BRSlave''), (''BT'', ''mainline BitTorrent''),
    (''Bt'', ''Bt''), (''BX'', ''~Bittorrent X''), (''CD'', ''Enhanced CTorrent''),
    (''CT'', ''CTorrent''), (''DE'', ''DelugeTorrent''), (''DP'', ''Propagate Data Client''),
    (''EB'', ''EBit''), (''ES'', ''electric sheep''), (''FC'', ''FileCroc''),
    (''FD'', ''Free Download Manager''), (''FT'', ''FoxTorrent''),
    (''FX'', ''Freebox BitTorrent''), (''GS'', ''GSTorrent''), (''HK'', ''Hekate''),
    (''HL'', ''Halite''), (''HM'', ''hMule''), (''HN'', ''Hydranode''), (''IL'', ''iLivid''),
    (''JS'', ''Justseed.it client''), (''JT'', ''JavaTorrent''), (''KG'', ''KGet''),
    (''KT'', ''KTorrent''), (''LC'', ''LeechCraft''), (''LH'', ''LH-ABC''), (''LP'', ''Lphant''),
    (''LT'', ''libtorrent''), (''lt'', ''libtorrent''), (''LW'', ''LimeWire''),
    (''MK'', ''Meerkat''), (''MO'', ''MonoTorrent''), (''MP'', ''MooPolice''),
    (''MR'', ''Miro''), (''MT'', ''MoonlightTorrent''), (''NB'', ''Net::BitTorrent''),
    (''NX'', ''Net Transport''), (''OS'', ''OneSwarm''), (''OT'', ''OmegaTorrent''),
    (''PB'', ''Protocol::BitTorrent''), (''PD'', ''Pando''), (''PI'', ''PicoTorrent''),
    (''PT'', ''PHPTracker''), (''qB'', ''qBittorrent''), (''QD'', ''QQDownload''),
    (''QT'', ''Qt 4 Torrent example''), (''RT'', ''Retriever''), (''RZ'', ''RezTorrent''),
    (''S~'', ''Shareaza''), (''SB'', ''~Swiftbit''), (''SD'', ''Thunder''), (''SM'', ''SoMud''),
    (''SP'', ''BitSpirit''), (''SS'', ''SwarmScope''), (''ST'', ''SymTorrent''),
    (''st'', ''sharktorrent''), (''SZ'', ''Shareaza''), (''TB'', ''Torch''),
    (''TE'', ''terasaur Seed Bank''), (''TL'', ''Tribler''), (''TN'', ''TorrentDotNET''),
    (''TR'', ''Transmission''), (''TS'', ''Torrentstorm''), (''TT'', ''TuoTu''),
    (''UL'', ''uLeecher''), (''UM'', ''uTorrent Mac''), (''UT'', ''uTorrent''),
    (''VG'', ''Vagaa''), (''WD'', ''WebTorrent Desktop''), (''WT'', ''BitLet''),
    (''WW'', ''WebTorrent''), (''WY'', ''FireTorrent''), (''XF'', ''Xfplay''),
    (''XL'', ''Xunlei''), (''XS'', ''XSwifter''), (''XT'', ''XanTorrent''),
    (''XX'', ''Xtorrent''), (''ZT'', ''ZipTorrent'')]"

text \<open>The loop over the table; \<open>found\<close> is the name assigned so far.\<close>

fun lookup_loop :: "(string \<times> string) list \<Rightarrow> byte \<Rightarrow> byte \<Rightarrow> string option \<Rightarrow> string option res" where
  "lookup_loop [] c1 c2 found = Inr found"
| "lookup_loop ((shortname, longname) # rest) c1 c2 found =
     rbind (rd (lit shortname @ [0]) 0) (\<lambda>a.
     rbind (if a = c1 then rmap (\<lambda>b. b = c2) (rd (lit shortname @ [0]) 1) else Inr False) (\<lambda>m.
     lookup_loop rest c1 c2 (if m then Some longname else found)))"

definition is_dig :: "byte \<Rightarrow> bool" where
  "is_dig c \<longleftrightarrow> 48 \<le> c \<and> c \<le> 57"

text \<open>\<open>all_digs\<close> is the conjunction over \<open>id[3]\<close> to \<open>id[6]\<close>, evaluated from the left.\<close>

fun all_digs :: "bytes \<Rightarrow> int list \<Rightarrow> bool res" where
  "all_digs pid [] = Inr True"
| "all_digs pid (i # is) = rbind (rd pid i) (\<lambda>c. if is_dig c then all_digs pid is else Inr False)"

definition peer_id_analysis :: "bytes \<Rightarrow> (string \<times> int \<times> int \<times> int) option res" where
  "peer_id_analysis pid =
     rbind (rd pid 0) (\<lambda>a.
     if a \<noteq> chr_minus then Inr None
     else rbind (rd pid 7) (\<lambda>b.
     if b \<noteq> chr_minus then Inr None
     else rbind (all_digs pid [3, 4, 5, 6]) (\<lambda>digs.
     if \<not> digs then Inr None
     else rbind (rd pid 1) (\<lambda>c1. rbind (rd pid 2) (\<lambda>c2.
     rbind (lookup_loop peer_client_lookup c1 c2 None) (\<lambda>found.
     case found of None \<Rightarrow> Inr None
     | Some client_name \<Rightarrow>
         rbind (rd pid 3) (\<lambda>major. rbind (rd pid 4) (\<lambda>minor. rbind (rd pid 5) (\<lambda>patch.
         Inr (Some (client_name, digit_val major, digit_val minor, digit_val patch)))))))))))"

definition peer_id_friendly :: "bytes \<Rightarrow> bytes option res" where
  "peer_id_friendly pid =
     rmap (map_option (\<lambda>(client, major, minor, patch).
       lit client @ [32] @ show_int major @ [46] @ show_int minor @ [46] @ show_int patch))
     (peer_id_analysis pid)"

subsection \<open>The reference\<close>

definition client_names :: "bytes \<rightharpoonup> string" where
  "client_names = map_of (rev (map (\<lambda>(s, l). (lit s, l)) peer_client_lookup))"

lemma lookup_loop_last:
  "list_all (\<lambda>(s, l). length s = 2) tbl \<Longrightarrow>
     lookup_loop tbl c1 c2 found =
       Inr (case map_of (rev (map (\<lambda>(s, l). (lit s, l)) tbl)) [c1, c2] of Some l \<Rightarrow> Some l | None \<Rightarrow> found)"
proof (induction tbl arbitrary: found)
  case Nil
  then show ?case by simp
next
  case (Cons e tbl)
  obtain s l where e: "e = (s, l)" by (cases e)
  then obtain a b where s: "s = [a, b]" using Cons.prems by (auto simp: length_Suc_conv numeral_2_eq_2)
  have "lit s = [of_char a, of_char b]" by (simp add: s lit_def)
  then show ?case using Cons e by (auto simp: rd_def map_add_def split: option.split)
qed

lemma lookup_table_codes: "list_all (\<lambda>(s, l). length s = 2) peer_client_lookup"
  by (simp add: peer_client_lookup_def)

text \<open>The code \<open>BL\<close> occurs twice; only the second name is ever reported.\<close>

lemma shadowed_entry:
  "(''BL'', ''BitCometLite'') \<in> set peer_client_lookup \<and> client_names (lit ''BL'') = Some ''BitBlinder''"
  by (simp add: client_names_def peer_client_lookup_def lit_def)

definition well_shaped_id :: "bytes \<Rightarrow> bool" where
  "well_shaped_id pid \<longleftrightarrow> pid ! 0 = chr_minus \<and> pid ! 7 = chr_minus \<and> list_all is_dig [pid ! 3, pid ! 4, pid ! 5, pid ! 6]"

lemma analysis_eq:
  assumes "length pid = 20"
  shows "peer_id_analysis pid =
    Inr (if well_shaped_id pid
         then map_option (\<lambda>l. (l, digit_val (pid ! 3), digit_val (pid ! 4), digit_val (pid ! 5))) (client_names [pid ! 1, pid ! 2])
         else None)"
proof -
  have r: "rd pid i = Inr (pid ! nat i)" if "0 \<le> i" "i < 20" for i using that assms by (simp add: rd_def)
  show ?thesis
    by (auto simp: peer_id_analysis_def r lookup_loop_last [OF lookup_table_codes] well_shaped_id_def
        client_names_def [symmetric] split: option.split)
qed

lemma peer_id_friendly_total: "length pid = 20 \<Longrightarrow> \<exists>r. peer_id_friendly pid = Inr r"
  by (simp add: peer_id_friendly_def analysis_eq)

subsection \<open>Properties\<close>

text \<open>C34: For every peer id of 20 bytes, the analysis reads only these bytes and yields the name
  and version exactly for ids of the form \<open>-XXnnnn-\<close> with a code \<open>XX\<close> of the table: the name of
  the last entry with that code, and the first three digits. All other ids give -1. The friendly
  name is the name and the dotted version.\<close>

theorem peer_id_analysis_exact:
  assumes "length pid = 20"
  shows "peer_id_analysis pid =
      Inr (if well_shaped_id pid
           then map_option (\<lambda>l. (l, digit_val (pid ! 3), digit_val (pid ! 4), digit_val (pid ! 5))) (client_names [pid ! 1, pid ! 2])
           else None) \<and>
    (\<forall>l. well_shaped_id pid \<and> client_names [pid ! 1, pid ! 2] = Some l \<longrightarrow>
      peer_id_friendly pid = Inr (Some (lit l @ [32] @ show_int (digit_val (pid ! 3)) @ [46] @
        show_int (digit_val (pid ! 4)) @ [46] @ show_int (digit_val (pid ! 5)))))"
proof -
  from analysis_eq [OF assms] show ?thesis by (auto simp: peer_id_friendly_def)
qed

theorem peer_id_analysis_exact_witness:
  "peer_id_friendly (lit ''-TR2940-abcdefghijkl'') = Inr (Some (lit ''Transmission 2.9.4''))"
proof -
  let ?pid = "lit ''-TR2940-abcdefghijkl''"
  have len: "length ?pid = 20" by (simp add: lit_def)
  have "well_shaped_id ?pid" by (simp add: well_shaped_id_def is_dig_def lit_def)
  moreover have "client_names [?pid ! 1, ?pid ! 2] = Some ''Transmission''"
    by (simp add: client_names_def peer_client_lookup_def lit_def)
  ultimately show ?thesis
    using peer_id_analysis_exact [OF len] by (simp add: digit_val_def show_int_def dec_nat.simps lit_def)
qed

end
