(* ===== verification/Flood_Client.thy ===== *)
theory Flood_Client
  imports Flood_List Flood_Peer Flood_Peer_Protocol Flood_Torrent Flood_Util
begin

section \<open>The client: peer list, peer sessions, swarm availability (src/client.c)\<close>

text \<open>
  The client keeps a list of pointers to peers. The model has both levels: the list of
  \<open>src/util/list.c\<close> holding 64-bit pointers, and the memory from pointers to \<open>peer_t\<close>. The
  address that \<open>malloc\<close> returns is an argument of \<open>client_find_peer\<close>. The loops over the
  list use its iterator under the mutex (\<open>safe_find\<close> for the two loops that stop at the first
  match, \<open>safe_collect\<close> for the full ones).
  \<open>client_find_peer\<close> copies a list element, a pointer of eight bytes, into a \<open>peer_t\<close>
  variable: its \<open>ip_address\<close> is then the low half of the pointer.
  \<open>peer_communication\<close> takes the outcome of \<open>socket\<close> and \<open>connect\<close>, the state of the
  connected socket and the number of rounds of its message loop, which the source never leaves.
\<close>

subsection \<open>Data\<close>

record discovered_peer_t =
  dp_ip :: "32 word"
  dp_port :: int

record client_config_t =
  cfg_tracker_poll_frequency :: int
  cfg_peer_threads :: int
  cfg_peer_timeout :: int
  cfg_peer_id :: bytes

type_synonym ptr = "64 word"

record client_t =
  c_peers :: "ptr lst"
  c_mem :: "ptr \<rightharpoonup> peer_t"
  c_torrent :: torrent_t
  c_config :: client_config_t

definition client_init :: "client_config_t \<Rightarrow> torrent_t \<Rightarrow> client_t" where
  "client_init config t =
     \<lparr>c_peers = (empty_heap, list_new 8), c_mem = Map.empty, c_torrent = t, c_config = config\<rparr>"

subsection \<open>Loops over the list\<close>

text \<open>Iterate until the first element that satisfies a condition.\<close>

fun iter_find :: "nat \<Rightarrow> ('a \<Rightarrow> bool res) \<Rightarrow> 'a lst \<Rightarrow> ('a lst \<times> 'a option) res" where
  "iter_find 0 P st = Inl NoFuel"
| "iter_find (Suc fuel) P st =
     (if \<not> list_iter_has_next st then Inr (st, None)
      else rbind (list_iter_next st) (\<lambda>(st, r).
        case r of None \<Rightarrow> Inl UninitRead
        | Some x \<Rightarrow> rbind (P x) (\<lambda>b. if b then Inr (st, Some x) else iter_find fuel P st)))"

definition safe_find :: "('a \<Rightarrow> bool res) \<Rightarrow> 'a lst \<Rightarrow> ('a lst \<times> 'a option) res" where
  "safe_find P st =
     rbind (list_iter_start_safe st) (\<lambda>st.
     rbind (iter_find (Suc (nat (list_len (snd st)))) P st) (\<lambda>(st, r).
     Inr (list_iter_stop_safe st, r)))"

definition safe_collect :: "'a lst \<Rightarrow> ('a lst \<times> 'a list) res" where
  "safe_collect st =
     rbind (list_iter_start_safe st) (\<lambda>st.
     rbind (iter_collect (Suc (nat (list_len (snd st)))) st) (\<lambda>(st, xs).
     Inr (list_iter_stop_safe st, xs)))"

subsection \<open>Discovery and selection of peers\<close>

text \<open>\<open>ptr_as_ip\<close> is the \<open>ip_address\<close> field after the eight bytes of a pointer were copied
  to the start of a \<open>peer_t\<close>.\<close>

definition ptr_as_ip :: "ptr \<Rightarrow> 32 word" where
  "ptr_as_ip p = ucast p"

definition new_peer_record :: "discovered_peer_t \<Rightarrow> peer_t" where
  "new_peer_record new_peer =
     \<lparr>peer_ip_address = dp_ip new_peer, peer_port = dp_port new_peer, peer_status = None, peer_id = None,
      peer_bitfield_length = 0, peer_bitfield = None, peer_choking = False, peer_interested = False,
      peer_origin_tracker = None\<rparr>"

definition client_find_peer :: "ptr \<Rightarrow> discovered_peer_t \<Rightarrow> client_t \<Rightarrow> client_t res" where
  "client_find_peer addr new_peer c =
     rbind (safe_find (\<lambda>p. Inr (ptr_as_ip p = dp_ip new_peer)) (c_peers c)) (\<lambda>(peers, found).
     case found of
       Some _ \<Rightarrow> Inr (c\<lparr>c_peers := peers\<rparr>)
     | None \<Rightarrow>
         rbind (list_append peers addr) (\<lambda>peers.
         Inr (c\<lparr>c_peers := peers, c_mem := (c_mem c)(addr \<mapsto> new_peer_record new_peer)\<rparr>)))"

definition peer_at :: "client_t \<Rightarrow> ptr \<Rightarrow> peer_t res" where
  "peer_at c p = (case c_mem c p of None \<Rightarrow> Inl UseAfterFree | Some peer \<Rightarrow> Inr peer)"

text \<open>The selection in \<open>peer_thread_routine\<close>: the first peer whose status is new is marked as
  in use.\<close>

definition is_new :: "client_t \<Rightarrow> ptr \<Rightarrow> bool res" where
  "is_new c p = rbind (peer_at c p) (\<lambda>peer.
     case peer_status peer of None \<Rightarrow> Inl UninitRead | Some st \<Rightarrow> Inr (st = PEER_STATUS_NEW))"

definition select_peer :: "client_t \<Rightarrow> (client_t \<times> ptr option) res" where
  "select_peer c =
     rbind (safe_find (is_new c) (c_peers c)) (\<lambda>(peers, selected).
     let c = c\<lparr>c_peers := peers\<rparr> in
     case selected of None \<Rightarrow> Inr (c, None)
     | Some p \<Rightarrow>
         rbind (peer_at c p) (\<lambda>peer.
         Inr (c\<lparr>c_mem := (c_mem c)(p \<mapsto> peer\<lparr>peer_status := Some PEER_STATUS_IN_USE\<rparr>)\<rparr>, Some p)))"

subsection \<open>A session with a peer\<close>

text \<open>What the message loop does with one message.\<close>

fun handle_message :: "peer_message \<Rightarrow> peer_t \<Rightarrow> peer_t res" where
  "handle_message (PEER_MSG_BITFIELD len bitfield) peer = peer_update_bitfield peer bitfield len"
| "handle_message (PEER_MSG_HAVE piece_index) peer = peer_update_bitfield_index peer piece_index True"
| "handle_message PEER_MSG_CHOKE peer = Inr (peer\<lparr>peer_choking := True\<rparr>)"
| "handle_message PEER_MSG_UNCHOKE peer = Inr (peer\<lparr>peer_choking := False\<rparr>)"
| "handle_message PEER_MSG_INTERESTED peer = Inr (peer\<lparr>peer_interested := True\<rparr>)"
| "handle_message PEER_MSG_NOTINTERESTED peer = Inr (peer\<lparr>peer_interested := False\<rparr>)"
| "handle_message _ peer = Inr peer"

fun message_loop :: "nat \<Rightarrow> peer_t \<Rightarrow> sock \<Rightarrow> (peer_t \<times> sock) res" where
  "message_loop 0 peer s = Inr (peer, s)"
| "message_loop (Suc rounds) peer s =
     (case receive_peer_message s of (msg, s, _) \<Rightarrow>
      rbind (handle_message msg peer) (\<lambda>peer.
      message_loop rounds peer s))"

definition handshake_good :: "bytes \<Rightarrow> peer_handshake \<Rightarrow> bool" where
  "handshake_good info_hash h \<longleftrightarrow>
     info_hash = hs_info_hash h \<and> hs_pstrlen h = PEER_PROTOCOL_LEN \<and>
     take 19 (hs_pstr h) = PEER_PROTOCOL_STR"

definition peer_communication ::
  "bool \<Rightarrow> bool \<Rightarrow> nat \<Rightarrow> client_t \<Rightarrow> peer_t \<Rightarrow> sock \<Rightarrow> (peer_t \<times> sock) res" where
  "peer_communication sock_ok connect_ok rounds client peer s =
     (if \<not> sock_ok then Inr (peer\<lparr>peer_status := Some PEER_STATUS_BAD\<rparr>, s)
      else if \<not> connect_ok then Inr (peer\<lparr>peer_status := Some PEER_STATUS_BAD\<rparr>, s)
      else
        case t_info_hash (c_torrent client) of None \<Rightarrow> Inl UninitRead
        | Some info_hash \<Rightarrow>
            let handshake_out = \<lparr>hs_pstrlen = PEER_PROTOCOL_LEN, hs_pstr = PEER_PROTOCOL_STR, hs_reserved = 0,
                  hs_info_hash = info_hash, hs_peer_id = cfg_peer_id (c_config client)\<rparr> in
            rbind (send_peer_handshake handshake_out s) (\<lambda>(s, _).
            rbind (receive_peer_handshake s) (\<lambda>(handshake_in, s, _).
            if \<not> handshake_good info_hash handshake_in
            then Inr (peer\<lparr>peer_status := Some PEER_STATUS_BAD\<rparr>, s)
            else rbind (peer_id_friendly (hs_peer_id handshake_in)) (\<lambda>_. message_loop rounds peer s))))"

subsection \<open>Availability\<close>

text \<open>One round of the loop that combines the bitfields; \<open>None\<close> is the null master bitfield.\<close>

definition or_bitfield :: "client_t \<Rightarrow> ptr \<Rightarrow> bytes option \<Rightarrow> bytes option res" where
  "or_bitfield c p master =
     rbind (peer_at c p) (\<lambda>peer.
     case peer_bitfield peer of
       None \<Rightarrow> Inr master
     | Some bf \<Rightarrow>
         if sint (peer_bitfield_length peer) < 1 then Inr master
         else
           let len = unat (peer_bitfield_length peer);
               m = (case master of None \<Rightarrow> replicate len 0 | Some m \<Rightarrow> m) in
           if len = length m then
             rbind (oget bf 0 len) (\<lambda>bs. Inr (Some (map2 (OR) m bs)))
           else Inr (Some m))"

definition bits_set :: "byte \<Rightarrow> int" where
  "bits_set b = sum_list (map (\<lambda>j. uint (drop_bit j b AND 1)) [0..<8])"

definition calculate_total_availability :: "client_t \<Rightarrow> (client_t \<times> int \<times> int) res" where
  "calculate_total_availability c =
     rbind (safe_collect (c_peers c)) (\<lambda>(peers, ptrs).
     rbind (rfold (or_bitfield c) ptrs None) (\<lambda>master.
     let m = (case master of None \<Rightarrow> [] | Some m \<Rightarrow> m);
         have_cnt = sum_list (map bits_set m) in
     rbind (check_int have_cnt) (\<lambda>have_cnt.
     Inr (c\<lparr>c_peers := peers\<rparr>, have_cnt, to_int32 (int (length m) * 8)))))"

subsection \<open>The loops on sequences\<close>

fun find_seq :: "('a \<Rightarrow> bool res) \<Rightarrow> 'a list \<Rightarrow> 'a option res" where
  "find_seq P [] = Inr None"
| "find_seq P (x # xs) = rbind (P x) (\<lambda>b. if b then Inr (Some x) else find_seq P xs)"

lemma iter_find_rep:
  "list_rep h l as xs \<Longrightarrow> l_curr_node l = nth_opt as i \<Longrightarrow> i \<le> length xs \<Longrightarrow> length xs - i < fuel \<Longrightarrow>
     (\<forall>e. find_seq P (drop i xs) = Inl e \<longrightarrow> iter_find fuel P (h, l) = Inl e) \<and>
     (\<forall>r. find_seq P (drop i xs) = Inr r \<longrightarrow> (\<exists>cur. iter_find fuel P (h, l) = Inr ((h, l\<lparr>l_curr_node := cur\<rparr>), r)))"
proof (induction fuel arbitrary: i l)
  case 0
  then show ?case by simp
next
  case (Suc fuel)
  show ?case
  proof (cases "i < length xs")
    case True
    let ?l = "l\<lparr>l_curr_node := nth_opt as (Suc i)\<rparr>"
    have next_ok: "list_iter_next (h, l) = Inr ((h, ?l), Some (xs ! i))"
      using Suc.prems(1,2) True list_rep_cell [OF Suc.prems(1) True]
      by (simp add: list_iter_next_def list_rep_length node_at_Some list_node_of_def)
    have "list_iter_has_next (h, l)"
      using True Suc.prems by (simp add: list_iter_has_next_def list_rep_length)
    moreover have "drop i xs = xs ! i # drop (Suc i) xs" using True by (simp add: Cons_nth_drop_Suc)
    moreover note Suc.IH [of ?l "Suc i"]
    ultimately show ?thesis
      using Suc.prems True next_ok by (cases "P (xs ! i)") auto
  next
    case False
    then have "l_curr_node l = None" using Suc.prems by (simp add: list_rep_length)
    then show ?thesis using False by (auto simp: list_iter_has_next_def intro: exI [of _ None])
  qed
qed

lemma safe_find_ok:
  assumes "list_ok st xs"
  shows "find_seq P xs = Inl e \<Longrightarrow> safe_find P st = Inl e"
    and "find_seq P xs = Inr r \<Longrightarrow> \<exists>st'. safe_find P st = Inr (st', r) \<and> list_ok st' xs"
proof -
  obtain h l as where st: "st = (h, l)" "\<not> l_mutex l" "list_rep h l as xs"
    using assms by (cases st) (auto simp: list_ok_def)
  let ?l = "l\<lparr>l_mutex := True, l_curr_node := l_head l\<rparr>"
  have start: "list_iter_start_safe st = Inr (h, ?l)"
    using st by (simp add: list_iter_start_safe_def mutex_lock_def)
  have len: "nat (list_len ?l) = length xs" using list_rep_length [OF st(3)] by (simp add: list_len_def)
  have find: "(\<forall>e. find_seq P (drop 0 xs) = Inl e \<longrightarrow> iter_find (Suc (length xs)) P (h, ?l) = Inl e) \<and>
     (\<forall>r. find_seq P (drop 0 xs) = Inr r \<longrightarrow>
        (\<exists>cur. iter_find (Suc (length xs)) P (h, ?l) = Inr ((h, ?l\<lparr>l_curr_node := cur\<rparr>), r)))"
    by (rule iter_find_rep [of _ _ as]) (use st(3) in \<open>auto simp: list_rep_def\<close>)
  show "find_seq P xs = Inl e \<Longrightarrow> safe_find P st = Inl e"
    using find start len by (auto simp: safe_find_def simp del: iter_find.simps)
  assume "find_seq P xs = Inr r"
  then obtain cur where "iter_find (Suc (length xs)) P (h, ?l) = Inr ((h, ?l\<lparr>l_curr_node := cur\<rparr>), r)"
    using find by auto
  then have "safe_find P st = Inr ((h, ?l\<lparr>l_curr_node := cur, l_mutex := False\<rparr>), r)"
    using start len by (simp add: safe_find_def list_iter_stop_safe_def mutex_unlock_def del: iter_find.simps)
  moreover have "list_ok (h, ?l\<lparr>l_curr_node := cur, l_mutex := False\<rparr>) xs"
    using st(3) by (auto simp: list_ok_def list_rep_def)
  ultimately show "\<exists>st'. safe_find P st = Inr (st', r) \<and> list_ok st' xs" by blast
qed

lemma safe_collect_ok:
  assumes "list_ok st xs"
  shows "\<exists>st'. safe_collect st = Inr (st', xs) \<and> list_ok st' xs"
proof -
  obtain h l as where st: "st = (h, l)" "\<not> l_mutex l" "list_rep h l as xs"
    using assms by (cases st) (auto simp: list_ok_def)
  let ?l = "l\<lparr>l_mutex := True, l_curr_node := l_head l\<rparr>"
  have "iter_collect (Suc (length xs)) (h, ?l) = Inr ((h, ?l\<lparr>l_curr_node := None\<rparr>), drop 0 xs)"
    by (rule iter_collect_rep [of _ _ as]) (use st(3) in \<open>auto simp: list_rep_def\<close>)
  moreover have "list_iter_start_safe st = Inr (h, ?l)"
    using st by (simp add: list_iter_start_safe_def mutex_lock_def)
  moreover have "nat (list_len ?l) = length xs" using list_rep_length [OF st(3)] by (simp add: list_len_def)
  ultimately have "safe_collect st = Inr ((h, ?l\<lparr>l_curr_node := None, l_mutex := False\<rparr>), xs)"
    by (simp add: safe_collect_def list_iter_stop_safe_def mutex_unlock_def del: iter_collect.simps)
  moreover have "list_ok (h, ?l\<lparr>l_curr_node := None, l_mutex := False\<rparr>) xs"
    using st(3) by (auto simp: list_ok_def list_rep_def)
  ultimately show ?thesis by blast
qed

lemma find_seq_total:
  "find_seq (\<lambda>x. Inr (P x)) xs = Inr (find P xs)"
  by (induction xs) simp_all

subsection \<open>Client states\<close>

text \<open>The list holds pointers to live peers, without repetition; every peer has a consistent
  bitfield.\<close>

definition client_ok :: "client_t \<Rightarrow> ptr list \<Rightarrow> bool" where
  "client_ok c ptrs \<longleftrightarrow> list_ok (c_peers c) ptrs \<and> distinct ptrs \<and>
     (\<forall>p \<in> set ptrs. \<exists>peer. c_mem c p = Some peer \<and> peer_ok peer)"

lemma client_init_ok: "client_ok (client_init cfg t) []"
  by (simp add: client_ok_def client_init_def list_ok_new)

lemma find_peer_cases:
  assumes "client_ok c ptrs" "addr \<notin> set ptrs"
  shows "\<exists>c'. client_find_peer addr dp c = Inr c' \<and>
    (if \<exists>p \<in> set ptrs. ptr_as_ip p = dp_ip dp
     then client_ok c' ptrs \<and> c_mem c' = c_mem c
     else client_ok c' (ptrs @ [addr]) \<and> c_mem c' = (c_mem c)(addr \<mapsto> new_peer_record dp))"
proof -
  have ok: "list_ok (c_peers c) ptrs" using assms(1) by (simp add: client_ok_def)
  let ?P = "\<lambda>p. ptr_as_ip p = dp_ip dp"
  obtain st where st: "safe_find (\<lambda>p. Inr (?P p)) (c_peers c) = Inr (st, find ?P ptrs)" "list_ok st ptrs"
    using safe_find_ok(2) [OF ok find_seq_total, of ?P] by blast
  show ?thesis
  proof (cases "\<exists>p \<in> set ptrs. ?P p")
    case True
    then obtain x where "find ?P ptrs = Some x" by (cases "find ?P ptrs") (auto simp: find_None_iff)
    then show ?thesis using st True assms(1) by (simp add: client_find_peer_def client_ok_def)
  next
    case False
    then have n: "find ?P ptrs = None" by (auto simp: find_None_iff)
    obtain st' where "list_append st addr = Inr st'" "list_ok st' (ptrs @ [addr])"
      using clist.ok_append [OF st(2)] by blast
    moreover have "peer_ok (new_peer_record dp)" by (simp add: peer_ok_def new_peer_record_def)
    ultimately show ?thesis using st(1) n False assms by (auto simp: client_find_peer_def client_ok_def)
  qed
qed

subsection \<open>Sessions\<close>

text \<open>A message as \<open>receive_peer_message\<close> delivers it: a bitfield has the length it claims, and its
  bytes have values, arrived or indeterminate.\<close>

definition delivered :: "peer_message \<Rightarrow> bool" where
  "delivered msg \<longleftrightarrow> (\<forall>len bf. msg = PEER_MSG_BITFIELD len bf \<longrightarrow> length bf = unat len \<and> None \<notin> set bf)"

lemma recv_buf_length: "recv_buf n s = (bf, s') \<Longrightarrow> length bf = n \<and> None \<notin> set bf"
  by (auto simp: recv_buf_def dest: length_recv_field split: prod.splits)

lemma receive_delivers: "receive_peer_message s = (msg, s', rb) \<Longrightarrow> delivered msg"
  by (auto simp: receive_peer_message_def delivered_def Let_def dest: recv_buf_length
      split: prod.splits if_splits)

lemma valid_delivered: "valid_msg msg \<Longrightarrow> delivered msg"
  by (cases msg) (simp_all add: delivered_def)

lemma handle_message_sound:
  assumes "peer_sound peer" "delivered msg"
  shows "\<exists>peer'. handle_message msg peer = Inr peer' \<and> peer_sound peer'"
proof (cases msg)
  case (PEER_MSG_BITFIELD len bf)
  then have "length bf = unat len" "None \<notin> set bf" using assms(2) by (simp_all add: delivered_def)
  then show ?thesis
    using PEER_MSG_BITFIELD peer_update_bitfield_ok [of bf len peer] by (auto simp: peer_sound_def)
next
  case (PEER_MSG_HAVE i)
  then show ?thesis using update_index_sound [OF assms(1), of i True] by auto
qed (use assms(1) in \<open>auto simp: peer_sound_def peer_ok_def split: option.splits\<close>)

lemma message_loop_sound:
  "peer_sound peer \<Longrightarrow> \<exists>peer' s'. message_loop n peer s = Inr (peer', s') \<and> peer_sound peer'"
proof (induction n arbitrary: peer s)
  case 0
  then show ?case by simp
next
  case (Suc n)
  obtain msg s' rb where r: "receive_peer_message s = (msg, s', rb)" by (metis prod_cases3)
  obtain peer' where "handle_message msg peer = Inr peer'" "peer_sound peer'"
    using handle_message_sound [OF Suc.prems receive_delivers [OF r]] by blast
  then show ?case using Suc.IH [of peer' s'] r by simp
qed

lemma message_loop_in_order:
  "list_all valid_msg ms \<Longrightarrow> cuts s = [] \<Longrightarrow> rx s = concat (map msg_wire ms) @ rest \<Longrightarrow>
     message_loop (length ms) peer s = rmap (\<lambda>peer. (peer, s\<lparr>rx := rest\<rparr>)) (rfold handle_message ms peer)"
proof (induction ms arbitrary: peer s)
  case Nil
  then show ?case by simp
next
  case (Cons m ms)
  let ?s = "s\<lparr>rx := concat (map msg_wire ms) @ rest\<rparr>"
  obtain rb where "receive_peer_message s = (m, ?s, rb)"
    using peer_messages.recv_ok [of m s "concat (map msg_wire ms) @ rest"] Cons.prems by auto
  then show ?case
    using Cons.IH [of ?s] Cons.prems by (cases "handle_message m peer") (auto simp: rmap_def)
qed

subsection \<open>Counting pieces\<close>

lemma bits_set_card: "bits_set b = int (card {j. j < 8 \<and> bit b j})"
proof -
  have "uint (drop_bit j b AND 1) = of_bool (bit b j)" for j
    by (simp add: and_one_eq mod_2_eq_odd bit_iff_odd_drop_bit)
  then have "bits_set b = (\<Sum>j \<in> {0..<8}. of_bool (bit b j))"
    by (simp add: bits_set_def sum.atLeastLessThan_concat interv_sum_list_conv_sum_set_nat)
  also have "\<dots> = int (card {j \<in> {0..<8}. bit b j})"
    by (simp add: sum.If_cases of_bool_def Int_def)
  finally show ?thesis by simp
qed

lemma has_piece_Cons:
  "{i. has_piece (b # bf) i} = (\<lambda>j. 7 - j) ` {j. j < 8 \<and> bit b j} \<union> (\<lambda>i. i + 8) ` {i. has_piece bf i}"
proof (intro equalityI subsetI)
  fix i assume i: "i \<in> {i. has_piece (b # bf) i}"
  show "i \<in> (\<lambda>j. 7 - j) ` {j. j < 8 \<and> bit b j} \<union> (\<lambda>i. i + 8) ` {i. has_piece bf i}"
  proof (cases "i < 8")
    case True
    then have "bit b (7 - i)" "i = 7 - (7 - i)" "7 - i < 8" using i by (auto simp: has_piece_def)
    then show ?thesis by blast
  next
    case False
    then obtain j where j: "i = j + 8" by (metis le_add_diff_inverse2 not_less)
    have "(j + 8) div 8 = Suc (j div 8)" by simp
    then have "has_piece bf j" using i j by (simp add: has_piece_def)
    then show ?thesis using j by blast
  qed
next
  fix i assume "i \<in> (\<lambda>j. 7 - j) ` {j. j < 8 \<and> bit b j} \<union> (\<lambda>i. i + 8) ` {i. has_piece bf i}"
  then show "i \<in> {i. has_piece (b # bf) i}"
  proof
    assume "i \<in> (\<lambda>j. 7 - j) ` {j. j < 8 \<and> bit b j}"
    then show ?thesis by (auto simp: has_piece_def)
  next
    assume "i \<in> (\<lambda>i. i + 8) ` {i. has_piece bf i}"
    then obtain j where j: "i = j + 8" "has_piece bf j" by blast
    have "(j + 8) div 8 = Suc (j div 8)" by simp
    then show ?thesis using j by (simp add: has_piece_def)
  qed
qed

lemma pieces_count:
  "finite {i. has_piece bf i} \<and> sum_list (map bits_set bf) = int (card {i. has_piece bf i}) \<and>
     card {i. has_piece bf i} \<le> 8 * length bf"
proof (induction bf)
  case Nil
  then show ?case by (simp add: has_piece_def)
next
  case (Cons b bf)
  let ?A = "{j. j < 8 \<and> bit b j}" and ?B = "{i. has_piece bf i}"
  have inj: "inj_on (\<lambda>j. 7 - j) ?A" "inj_on (\<lambda>i. i + 8) ?B" by (auto simp: inj_on_def)
  have "card ?A \<le> card {..<8 :: nat}" by (intro card_mono) auto
  moreover have "card {i. has_piece (b # bf) i} = card ?A + card ?B"
    unfolding has_piece_Cons
    by (subst card_Un_disjoint) (use Cons inj in \<open>auto simp: card_image\<close>)
  ultimately show ?case using Cons by (simp add: bits_set_card has_piece_Cons)
qed

subsection \<open>Combining bitfields\<close>

text \<open>The bitfield a peer contributes: received, of a positive length.\<close>

definition announced :: "client_t \<Rightarrow> ptr \<Rightarrow> bytes option" where
  "announced c p = (case c_mem c p of None \<Rightarrow> None
     | Some peer \<Rightarrow> (case peer_bitfield peer of None \<Rightarrow> None
         | Some bf \<Rightarrow> if sint (peer_bitfield_length peer) < 1 then None else Some (map the bf)))"

text \<open>All bytes of all bitfields have arrived.\<close>

definition all_received :: "client_t \<Rightarrow> ptr list \<Rightarrow> bool" where
  "all_received c ptrs \<longleftrightarrow> (\<forall>p \<in> set ptrs. \<forall>peer bf. c_mem c p = Some peer \<longrightarrow>
     peer_bitfield peer = Some bf \<longrightarrow> None \<notin> set bf)"

lemma has_piece_or:
  "length bs = length m \<Longrightarrow> has_piece (map2 (OR) m bs) i \<longleftrightarrow> has_piece m i \<or> has_piece bs i"
  by (auto simp: has_piece_def bit_or_iff)

lemma map2_or_zero: "map2 (OR) (replicate (length bs) 0) bs = (bs :: bytes)"
  by (induction bs) simp_all

lemma or_bitfield_eq:
  assumes "\<exists>peer. c_mem c p = Some peer \<and> peer_ok peer" "all_received c [p]"
  shows "or_bitfield c p master = Inr (case announced c p of None \<Rightarrow> master
    | Some bs \<Rightarrow> (case master of None \<Rightarrow> Some bs
        | Some m \<Rightarrow> if length bs = length m then Some (map2 (OR) m bs) else Some m))"
proof -
  obtain peer where peer: "c_mem c p = Some peer" "peer_ok peer" using assms(1) by blast
  show ?thesis
  proof (cases "peer_bitfield peer")
    case None
    then show ?thesis using peer by (simp add: or_bitfield_def peer_at_def announced_def)
  next
    case (Some bf)
    let ?len = "unat (peer_bitfield_length peer)"
    have bf: "None \<notin> set bf" "length bf = ?len"
      using assms(2) peer Some by (auto simp: all_received_def peer_ok_def)
    have "oget bf 0 ?len = Inr (map the bf)" by (rule oget_whole [OF bf])
    moreover have "map2 (OR) (replicate ?len 0) (map the bf) = map the bf"
      using map2_or_zero [of "map the bf"] bf(2) by simp
    ultimately show ?thesis
      using peer Some bf(2) by (simp add: or_bitfield_def peer_at_def announced_def Let_def split: option.split)
  qed
qed

lemma or_fold_some:
  assumes "\<And>p. p \<in> set ptrs \<Longrightarrow> \<exists>peer. c_mem c p = Some peer \<and> peer_ok peer" "all_received c ptrs"
  shows "\<exists>m'. rfold (or_bitfield c) ptrs (Some m) = Inr (Some m') \<and> length m' = length m \<and>
    (\<forall>i. has_piece m' i \<longleftrightarrow> has_piece m i \<or>
       (\<exists>bf \<in> set (List.map_filter (announced c) ptrs). length bf = length m \<and> has_piece bf i))"
  using assms
proof (induction ptrs arbitrary: m)
  case Nil
  then show ?case by (simp add: map_filter_simps)
next
  case (Cons p ptrs)
  define m1 where "m1 = (case announced c p of None \<Rightarrow> m
    | Some bs \<Rightarrow> if length bs = length m then map2 (OR) m bs else m)"
  have step: "or_bitfield c p (Some m) = Inr (Some m1)" "length m1 = length m"
    using or_bitfield_eq [of c p "Some m"] Cons.prems by (auto simp: m1_def all_received_def split: option.split)
  have m1: "has_piece m1 i \<longleftrightarrow> has_piece m i \<or> (\<exists>bs. announced c p = Some bs \<and> length bs = length m \<and> has_piece bs i)" for i
    by (auto simp: m1_def has_piece_or split: option.split)
  obtain m' where "rfold (or_bitfield c) ptrs (Some m1) = Inr (Some m')" "length m' = length m1"
    "\<forall>i. has_piece m' i \<longleftrightarrow> has_piece m1 i \<or>
       (\<exists>bf \<in> set (List.map_filter (announced c) ptrs). length bf = length m1 \<and> has_piece bf i)"
    using Cons.IH [of m1] Cons.prems by (auto simp: all_received_def)
  then show ?case
    using step m1 by (cases "announced c p") (auto simp: map_filter_simps)
qed

lemma or_fold_none:
  assumes "\<And>p. p \<in> set ptrs \<Longrightarrow> \<exists>peer. c_mem c p = Some peer \<and> peer_ok peer" "all_received c ptrs"
  shows "case List.map_filter (announced c) ptrs of
      [] \<Rightarrow> rfold (or_bitfield c) ptrs None = Inr None
    | b # bfs \<Rightarrow> \<exists>m'. rfold (or_bitfield c) ptrs None = Inr (Some m') \<and> length m' = length b \<and>
        (\<forall>i. has_piece m' i \<longleftrightarrow> (\<exists>bf \<in> set (b # bfs). length bf = length b \<and> has_piece bf i))"
  using assms
proof (induction ptrs)
  case Nil
  then show ?case by (simp add: map_filter_simps)
next
  case (Cons p ptrs)
  have step: "or_bitfield c p None = Inr (announced c p)"
    using or_bitfield_eq [of c p None] Cons.prems by (auto simp: all_received_def split: option.split)
  have prems: "\<And>p. p \<in> set ptrs \<Longrightarrow> \<exists>peer. c_mem c p = Some peer \<and> peer_ok peer" "all_received c ptrs"
    using Cons.prems by (auto simp: all_received_def)
  show ?case
  proof (cases "announced c p")
    case None
    then have "rfold (or_bitfield c) (p # ptrs) None = rfold (or_bitfield c) ptrs None"
      and "List.map_filter (announced c) (p # ptrs) = List.map_filter (announced c) ptrs"
      using step by (simp_all add: map_filter_simps)
    then show ?thesis using Cons.IH [OF prems] by (simp only:)
  next
    case (Some b)
    from or_fold_some [OF prems, of b] show ?thesis
      using step Some by (auto simp: map_filter_simps)
  qed
qed

subsection \<open>Properties\<close>

text \<open>C15: Swarm availability. In a consistent client whose bitfields have fully arrived, the
  counts are 0 when no peer has sent a bitfield; otherwise the total is eight times the length
  of the first bitfield in the list, and \<open>have\<close> is the number of pieces announced by some
  peer whose bitfield has that length. The client stays consistent.\<close>

theorem availability_exact:
  assumes "client_ok c ptrs" and "all_received c ptrs"
    and "\<And>bf. bf \<in> set (List.map_filter (announced c) ptrs) \<Longrightarrow> 8 * int (length bf) \<le> INT_MAX"
  shows "\<exists>c'. client_ok c' ptrs \<and> c_mem c' = c_mem c \<and>
    calculate_total_availability c =
      (case List.map_filter (announced c) ptrs of
         [] \<Rightarrow> Inr (c', 0, 0)
       | b # bfs \<Rightarrow> Inr (c', int (card {i. \<exists>bf \<in> set (b # bfs). length bf = length b \<and> has_piece bf i}),
           8 * int (length b)))"
proof -
  obtain st where st: "safe_collect (c_peers c) = Inr (st, ptrs)" "list_ok st ptrs"
    using safe_collect_ok [of "c_peers c" ptrs] assms(1) unfolding client_ok_def by blast
  let ?c = "c\<lparr>c_peers := st\<rparr>"
  have ok: "client_ok ?c ptrs" using assms(1) st(2) by (simp add: client_ok_def)
  have live: "\<exists>peer. c_mem c p = Some peer \<and> peer_ok peer" if "p \<in> set ptrs" for p
    using that assms(1) by (simp add: client_ok_def)
  note fold = or_fold_none [of ptrs c, OF live assms(2)]
  show ?thesis
  proof (cases "List.map_filter (announced c) ptrs")
    case Nil
    then show ?thesis
      using fold st(1) ok by (intro exI [of _ ?c]) (simp add: calculate_total_availability_def to_int32_id)
  next
    case (Cons b bfs)
    then obtain m where m: "rfold (or_bitfield c) ptrs None = Inr (Some m)" "length m = length b"
      "\<forall>i. has_piece m i \<longleftrightarrow> (\<exists>bf \<in> set (b # bfs). length bf = length b \<and> has_piece bf i)"
      using fold by auto
    have len: "8 * int (length b) \<le> INT_MAX" using assms(3) Cons by simp
    have cnt: "sum_list (map bits_set m) = int (card {i. has_piece m i})" "card {i. has_piece m i} \<le> 8 * length m"
      using pieces_count [of m] by auto
    have "int (card {i. has_piece m i}) \<le> 8 * int (length m)" using cnt(2) by linarith
    then have chk: "check_int (int (card {i. has_piece m i})) = Inr (int (card {i. has_piece m i}))"
      using len m(2) by (intro check_int_ok) linarith+
    have "to_int32 (int (length m) * 8) = int (length m) * 8" using len m(2) by (intro to_int32_id) linarith+
    then have "calculate_total_availability c = Inr (?c, int (card {i. has_piece m i}), int (length m) * 8)"
      by (simp only: calculate_total_availability_def st(1) m(1) cnt(1) chk rbind_simps prod.case option.case Let_def)
    then have "calculate_total_availability c = Inr (?c, int (card {i. has_piece m i}), 8 * int (length b))"
      using m(2) by (simp only: mult.commute)
    then show ?thesis using ok Cons m(3) by (intro exI [of _ ?c]) simp
  qed
qed

theorem availability_exact_witness:
  "\<exists>c c'. client_ok c [8] \<and> calculate_total_availability c = Inr (c', int (card {i. has_piece [0xC0] i}), 8)"
proof -
  let ?dp = "\<lparr>dp_ip = 5, dp_port = 6881\<rparr>"
  let ?peer = "new_peer_record ?dp\<lparr>peer_bitfield := Some [Some 0xC0], peer_bitfield_length := 1\<rparr>"
  obtain st where st: "list_ok st [8 :: ptr]" using clist.ok_ex by blast
  obtain cfg :: client_config_t where True by blast
  let ?c = "\<lparr>c_peers = st, c_mem = [8 \<mapsto> ?peer], c_torrent = blank_torrent, c_config = cfg\<rparr>"
  have ok: "client_ok ?c [8]" using st by (simp add: client_ok_def peer_ok_def)
  have rec: "all_received ?c [8]" by (simp add: all_received_def)
  have ann: "List.map_filter (announced ?c) [8] = [[0xC0]]" by (simp add: map_filter_simps announced_def)
  obtain c' where "calculate_total_availability ?c =
      Inr (c', int (card {i. \<exists>bf \<in> set [[0xC0]]. length bf = length [0xC0 :: byte] \<and> has_piece bf i}), 8 * int (length [0xC0 :: byte]))"
    using availability_exact [OF ok rec] ann by auto
  then show ?thesis using ok by auto
qed

text \<open>C40: Discovery. \<open>client_find_peer\<close> keeps the client consistent and either leaves it alone
  or appends one peer with the discovered address and port. But what it compares with the new
  IP address is the low half of the stored pointers, so an address already in the list is
  appended again: a second discovery of the same peer makes a second entry unless a pointer
  happens to have these bits.\<close>

theorem client_find_peer_duplicates:
  assumes "client_ok c ptrs" and "addr1 \<notin> set ptrs" and "addr2 \<notin> set ptrs" and "addr1 \<noteq> addr2"
    and "\<forall>p \<in> insert addr1 (set ptrs). ptr_as_ip p \<noteq> dp_ip dp"
  shows "\<exists>c1 c2. client_find_peer addr1 dp c = Inr c1 \<and> client_ok c1 (ptrs @ [addr1]) \<and>
    client_find_peer addr2 dp c1 = Inr c2 \<and> client_ok c2 (ptrs @ [addr1, addr2]) \<and>
    c_mem c2 addr1 = Some (new_peer_record dp) \<and> c_mem c2 addr2 = Some (new_peer_record dp)"
proof -
  obtain c1 where c1: "client_find_peer addr1 dp c = Inr c1" "client_ok c1 (ptrs @ [addr1])"
      "c_mem c1 = (c_mem c)(addr1 \<mapsto> new_peer_record dp)"
    using find_peer_cases [OF assms(1,2), of dp] assms(5) by auto
  moreover obtain c2 where "client_find_peer addr2 dp c1 = Inr c2" "client_ok c2 ((ptrs @ [addr1]) @ [addr2])"
      "c_mem c2 = (c_mem c1)(addr2 \<mapsto> new_peer_record dp)"
    using find_peer_cases [OF c1(2), of addr2 dp] assms(3,4,5) by auto
  ultimately show ?thesis using assms(4) by auto
qed

theorem client_find_peer_duplicates_witness:
  "\<exists>c1 c2. client_find_peer 16 \<lparr>dp_ip = 5, dp_port = 6881\<rparr>
       (client_init \<lparr>cfg_tracker_poll_frequency = 30, cfg_peer_threads = 20, cfg_peer_timeout = 3, cfg_peer_id = []\<rparr>
          blank_torrent) = Inr c1 \<and>
     client_find_peer 32 \<lparr>dp_ip = 5, dp_port = 6881\<rparr> c1 = Inr c2 \<and> client_ok c2 [16, 32]"
  using client_find_peer_duplicates [OF client_init_ok, of 16 32 "\<lparr>dp_ip = 5, dp_port = 6881\<rparr>"
      "\<lparr>cfg_tracker_poll_frequency = 30, cfg_peer_threads = 20, cfg_peer_timeout = 3, cfg_peer_id = []\<rparr>"
      blank_torrent]
  by (auto simp: ptr_as_ip_def)

text \<open>The status of a discovered peer is never initialised. When the first peer that is not
  known to be in use or bad is one that \<open>client_find_peer\<close> just appended, the selection of a
  peer reads an indeterminate status.\<close>

lemma discovered_status_unset:
  assumes "client_ok c ptrs" and "addr \<notin> set ptrs" and "\<forall>p \<in> set ptrs. ptr_as_ip p \<noteq> dp_ip dp"
    and "\<forall>p \<in> set ptrs. \<exists>peer st. c_mem c p = Some peer \<and> peer_status peer = Some st \<and> st \<noteq> PEER_STATUS_NEW"
  shows "\<exists>c'. client_find_peer addr dp c = Inr c' \<and> select_peer c' = Inl UninitRead"
proof -
  obtain c' where c': "client_find_peer addr dp c = Inr c'" "client_ok c' (ptrs @ [addr])"
      "c_mem c' = (c_mem c)(addr \<mapsto> new_peer_record dp)"
    using find_peer_cases [OF assms(1,2), of dp] assms(3) by auto
  have skip: "is_new c' p = Inr False" if "p \<in> set ptrs" for p
    using that assms(2,4) c'(3) by (force simp: is_new_def peer_at_def)
  have last: "is_new c' addr = Inl UninitRead"
    by (simp add: is_new_def peer_at_def c'(3) new_peer_record_def)
  have "find_seq (is_new c') (qs @ [addr]) = Inl UninitRead" if "set qs \<subseteq> set ptrs" for qs
    using that by (induction qs) (auto simp: skip last)
  then have "find_seq (is_new c') (ptrs @ [addr]) = Inl UninitRead" by blast
  moreover have "list_ok (c_peers c') (ptrs @ [addr])" using c'(2) by (simp add: client_ok_def)
  ultimately have "safe_find (is_new c') (c_peers c') = Inl UninitRead" by (intro safe_find_ok(1))
  then show ?thesis using c'(1) by (simp add: select_peer_def)
qed

lemma discovered_status_unset_witness:
  "\<exists>c'. client_find_peer 16 \<lparr>dp_ip = 5, dp_port = 6881\<rparr>
       (client_init \<lparr>cfg_tracker_poll_frequency = 30, cfg_peer_threads = 20, cfg_peer_timeout = 3, cfg_peer_id = []\<rparr>
          blank_torrent) = Inr c' \<and> select_peer c' = Inl UninitRead"
  by (rule discovered_status_unset [OF client_init_ok]) simp_all

text \<open>C14: A session with any remote peer, whatever bytes it sends, however the network cuts them,
  fails or times out, and whatever values the fields have that did not arrive: every number of
  rounds of the message loop succeeds, without an access out of bounds or through a null
  pointer, and keeps the bitfield of the peer consistent with its length field. On a stream that
  begins with complete messages and is delivered without cuts, the loop performs exactly these
  messages, in order.\<close>

theorem session_memory_safe:
  assumes "peer_sound peer"
  shows "(\<exists>peer' s'. message_loop rounds peer s = Inr (peer', s') \<and> peer_sound peer') \<and>
    (\<forall>ms rest. list_all valid_msg ms \<and> cuts s = [] \<and> rx s = concat (map msg_wire ms) @ rest \<longrightarrow>
      (\<exists>peer'. rfold handle_message ms peer = Inr peer' \<and>
         message_loop (length ms) peer s = Inr (peer', s\<lparr>rx := rest\<rparr>)))"
proof (intro conjI allI impI)
  show "\<exists>peer' s'. message_loop rounds peer s = Inr (peer', s') \<and> peer_sound peer'"
    using assms by (rule message_loop_sound)
  fix ms rest
  assume "list_all valid_msg ms \<and> cuts s = [] \<and> rx s = concat (map msg_wire ms) @ rest"
  then have r: "message_loop (length ms) peer s = rmap (\<lambda>peer. (peer, s\<lparr>rx := rest\<rparr>)) (rfold handle_message ms peer)"
    by (intro message_loop_in_order) simp_all
  show "\<exists>peer'. rfold handle_message ms peer = Inr peer' \<and>
         message_loop (length ms) peer s = Inr (peer', s\<lparr>rx := rest\<rparr>)"
    using r message_loop_sound [OF assms, of "length ms" s]
    by (cases "rfold handle_message ms peer") simp_all
qed

text \<open>A bitfield of one byte and a \<open>have\<close> for piece 1, first whole, then cut inside the bitfield's
  length prefix.\<close>

theorem session_memory_safe_witness:
  "(\<exists>peer' s'. message_loop 2 (new_peer_record \<lparr>dp_ip = 5, dp_port = 6881\<rparr>)
       \<lparr>tx = [], rx = be32 2 @ [5, 0x80] @ be32 5 @ 4 # be32 1, cuts = [], rf_fault = False, stale = []\<rparr> = Inr (peer', s') \<and>
      peer_bitfield peer' = Some [Some 0xC0]) \<and>
   (\<exists>peer' s'. message_loop 2 (new_peer_record \<lparr>dp_ip = 5, dp_port = 6881\<rparr>)
       \<lparr>tx = [], rx = be32 2 @ [5, 0x80] @ be32 5 @ 4 # be32 1, cuts = [2, 0], rf_fault = True, stale = [1, 2, 3]\<rparr> = Inr (peer', s') \<and>
      peer_sound peer')"
proof -
  let ?p = "new_peer_record \<lparr>dp_ip = 5, dp_port = 6881\<rparr>"
  let ?ms = "[PEER_MSG_BITFIELD 1 [Some 0x80], PEER_MSG_HAVE 1]"
  let ?rx = "be32 2 @ [5, 0x80] @ be32 5 @ 4 # be32 1"
  have ok: "peer_sound ?p" by (simp add: peer_sound_def peer_ok_def new_peer_record_def)
  have rx: "?rx = concat (map msg_wire ?ms) @ []" by (simp add: msg_wire_def)
  have v: "list_all valid_msg ?ms" by simp
  let ?s = "\<lparr>tx = [], rx = ?rx, cuts = [], rf_fault = False, stale = []\<rparr>"
  obtain peer' where p: "rfold handle_message ?ms ?p = Inr peer'"
      "message_loop (length ?ms) ?p ?s = Inr (peer', ?s\<lparr>rx := []\<rparr>)"
    using session_memory_safe [OF ok, of 0 ?s, THEN conjunct2, rule_format, of ?ms "[]"] v rx by auto
  have "peer_bitfield peer' = Some [Some 0xC0]"
    using p(1) by (auto simp: peer_update_bitfield_def rds_def peer_update_bitfield_index_def Let_def
        oget_def oput_def wrs_def)
  moreover have two: "length ?ms = 2" by simp
  ultimately show ?thesis
    using p(2) [unfolded two] session_memory_safe [OF ok, of 2 "?s\<lparr>cuts := [2, 0], rf_fault := True, stale := [1, 2, 3]\<rparr>"]
    by (auto simp del: message_loop.simps)
qed

text \<open>C26: The handshake phase. On a connected socket the client sends its own 68 bytes (length 19,
  the protocol string, eight zero bytes, the info hash, its peer id) and receives with one call into
  a zeroed buffer of 68 bytes. Whatever arrives, it goes on to the messages exactly when the
  first byte of the buffer is 19, the next 19 are the protocol string and those at 28 are the
  torrent's info hash; otherwise, and when there is no socket or no connection, the peer is
  marked bad and no message is read.\<close>

theorem handshake_phase:
  assumes "t_info_hash (c_torrent client) = Some ih" and "length ih = 20"
    and "length (cfg_peer_id (c_config client)) = 20"
  shows "\<exists>w. w = 19 # PEER_PROTOCOL_STR @ replicate 8 0 @ ih @ cfg_peer_id (c_config client) \<and> length w = 68 \<and>
    (\<forall>bs got s1. sock_recv 68 (s\<lparr>tx := tx s @ w\<rparr>) = (bs, got, s1) \<longrightarrow>
      peer_communication True True rounds client peer s =
        (let buf = bs @ replicate (68 - length bs) 0 in
         if hd buf = 19 \<and> take 19 (drop 1 buf) = PEER_PROTOCOL_STR \<and> take 20 (drop 28 buf) = ih
         then message_loop rounds peer s1
         else Inr (peer\<lparr>peer_status := Some PEER_STATUS_BAD\<rparr>, s1))) \<and>
    peer_communication False b rounds client peer s = Inr (peer\<lparr>peer_status := Some PEER_STATUS_BAD\<rparr>, s) \<and>
    peer_communication True False rounds client peer s = Inr (peer\<lparr>peer_status := Some PEER_STATUS_BAD\<rparr>, s)"
proof -
  let ?o = "\<lparr>hs_pstrlen = PEER_PROTOCOL_LEN, hs_pstr = PEER_PROTOCOL_STR, hs_reserved = 0,
      hs_info_hash = ih, hs_peer_id = cfg_peer_id (c_config client)\<rparr>"
  let ?w = "19 # PEER_PROTOCOL_STR @ replicate 8 0 @ ih @ cfg_peer_id (c_config client)"
  let ?s = "s\<lparr>tx := tx s @ ?w\<rparr>"
  have str: "length PEER_PROTOCOL_STR = 19" "unat PEER_PROTOCOL_LEN = 19"
    by (simp_all add: PEER_PROTOCOL_STR_def PEER_PROTOCOL_LEN_def lit_def)
  have hw: "handshake_bytes ?o = ?w"
    using str by (simp add: handshake_bytes_def PEER_PROTOCOL_LEN_def be64_zero)
  then have send: "\<exists>n. send_peer_handshake ?o s = Inr (?s, n)" and w: "length ?w = 68"
    using send_handshake_ok [of ?o s] assms(2,3) str by auto
  have "peer_communication True True rounds client peer s =
        (let buf = bs @ replicate (68 - length bs) 0 in
         if hd buf = 19 \<and> take 19 (drop 1 buf) = PEER_PROTOCOL_STR \<and> take 20 (drop 28 buf) = ih
         then message_loop rounds peer s1
         else Inr (peer\<lparr>peer_status := Some PEER_STATUS_BAD\<rparr>, s1))"
    if r: "sock_recv 68 ?s = (bs, got, s1)" for bs got s1
  proof -
    define buf where "buf = bs @ replicate (68 - length bs) 0"
    obtain h' where h': "receive_peer_handshake ?s = Inr (h', s1, got)" "hs_pstrlen h' = hd buf"
        "hs_pstr h' = take 19 (drop 1 buf) @ [0]" "hs_info_hash h' = take 20 (drop 28 buf)" "length (hs_peer_id h') = 20"
      using receive_handshake_any [OF r] unfolding buf_def by blast
    have "length buf = 68" using sock_recv_le [OF r] by (simp add: buf_def)
    then have "handshake_good ih h' \<longleftrightarrow>
        hd buf = 19 \<and> take 19 (drop 1 buf) = PEER_PROTOCOL_STR \<and> take 20 (drop 28 buf) = ih"
      unfolding handshake_good_def h'(2-4) by (auto simp: PEER_PROTOCOL_LEN_def)
    moreover obtain nm where "peer_id_friendly (hs_peer_id h') = Inr nm"
      using peer_id_friendly_total [of "hs_peer_id h'"] h'(5) by auto
    ultimately show ?thesis
      using send h'(1) assms(1) unfolding buf_def [symmetric] by (auto simp: peer_communication_def)
  qed
  with w show ?thesis by (intro exI [of _ ?w]) (simp add: peer_communication_def)
qed

text \<open>A handshake that announces 18 instead of 19 bytes is refused, the right one is accepted.\<close>

theorem handshake_phase_witness:
  "\<exists>client peer. \<forall>n. \<exists>s s1. rx s = n # PEER_PROTOCOL_STR @ replicate 8 0 @ replicate 20 1 @ replicate 20 2 \<and>
     peer_communication True True 0 client peer s =
       (if n = 19 then Inr (peer, s1) else Inr (peer\<lparr>peer_status := Some PEER_STATUS_BAD\<rparr>, s1))"
proof -
  let ?cl = "client_init \<lparr>cfg_tracker_poll_frequency = 30, cfg_peer_threads = 20, cfg_peer_timeout = 3,
      cfg_peer_id = replicate 20 3\<rparr> (blank_torrent\<lparr>t_info_hash := Some (replicate 20 1)\<rparr>)"
  let ?p = "new_peer_record \<lparr>dp_ip = 5, dp_port = 1\<rparr>"
  let ?h = "\<lambda>n :: byte. n # PEER_PROTOCOL_STR @ replicate 8 0 @ replicate 20 1 @ replicate 20 (2 :: byte)"
  let ?s = "\<lambda>n. \<lparr>tx = [], rx = ?h n, cuts = [], rf_fault = False, stale = []\<rparr>"
  have str: "length PEER_PROTOCOL_STR = 19" by (simp add: PEER_PROTOCOL_STR_def lit_def)
  have cl: "t_info_hash (c_torrent ?cl) = Some (replicate 20 1)" "length (replicate 20 (1 :: byte)) = 20"
      "length (cfg_peer_id (c_config ?cl)) = 20"
    by (simp_all add: client_init_def)
  have "\<exists>s s1. rx s = ?h n \<and> peer_communication True True 0 ?cl ?p s =
       (if n = 19 then Inr (?p, s1) else Inr (?p\<lparr>peer_status := Some PEER_STATUS_BAD\<rparr>, s1))" for n
  proof -
    obtain w where w: "\<forall>bs got s1. sock_recv 68 ((?s n)\<lparr>tx := tx (?s n) @ w\<rparr>) = (bs, got, s1) \<longrightarrow>
      peer_communication True True 0 ?cl ?p (?s n) =
        (let buf = bs @ replicate (68 - length bs) 0 in
         if hd buf = 19 \<and> take 19 (drop 1 buf) = PEER_PROTOCOL_STR \<and> take 20 (drop 28 buf) = replicate 20 1
         then message_loop 0 ?p s1
         else Inr (?p\<lparr>peer_status := Some PEER_STATUS_BAD\<rparr>, s1))"
      using handshake_phase [of ?cl "replicate 20 1" "?s n" 0 ?p, OF cl] by blast
    have "length (?h n) = 68" using str by simp
    then have "sock_recv 68 ((?s n)\<lparr>tx := tx (?s n) @ w\<rparr>) = (?h n, 68, (?s n)\<lparr>tx := tx (?s n) @ w, rx := []\<rparr>)"
      by (simp add: sock_recv_def)
    from w [rule_format, OF this] show ?thesis using str
      by (intro exI [of _ "?s n"] exI [of _ "(?s n)\<lparr>tx := tx (?s n) @ w, rx := []\<rparr>"]) (simp add: Let_def)
  qed
  then show ?thesis by blast
qed

end
