(* ===== verification/Flood_Udp.thy ===== *)
theory Flood_Udp
  imports Flood_Net
begin

section \<open>The UDP tracker protocol (src/udp_protocol.c)\<close>

text \<open>
  The four functions of \<open>src/udp_protocol.c\<close> over the buffers of the network theory. A send
  function yields the datagram handed to \<open>sendto\<close> together with the value \<open>sendto\<close> returns,
  which is a parameter (\<open>sendto\<close>, a function of the datagram). A receive function takes the
  next datagram, or \<open>None\<close> when \<open>recvfrom\<close> fails, and the response record the caller passed;
  \<open>peers\<close> is \<open>None\<close> while the pointer has never been assigned. The linked list of peers is
  the list of its nodes in order.
  The results give the exact layout of both requests, decoding of both responses for every
  datagram, and the bound that makes the 1022-byte buffer safe.
\<close>

subsection \<open>Messages\<close>

definition MAGIC_CONNECTION_ID :: "64 word" where
  "MAGIC_CONNECTION_ID = 0x41727101980"

abbreviation CONNECTION_ACTION :: "32 word" where "CONNECTION_ACTION \<equiv> 0"
abbreviation ANNOUNCE_ACTION :: "32 word" where "ANNOUNCE_ACTION \<equiv> 1"
abbreviation ANNOUNCE_EVENT_STARTED :: "32 word" where "ANNOUNCE_EVENT_STARTED \<equiv> 2"

definition CONNECT_REQUEST_SIZE :: nat where "CONNECT_REQUEST_SIZE = 16"
definition CONNECT_RESPONSE_SIZE :: nat where "CONNECT_RESPONSE_SIZE = 16"
definition ANNOUNCE_REQUEST_SIZE :: nat where "ANNOUNCE_REQUEST_SIZE = 100"
definition ANNOUNCE_RESPONSE_MIN_SIZE :: int where "ANNOUNCE_RESPONSE_MIN_SIZE = 20"

record udpt_connect_req =
  creq_connection_id :: "64 word"
  creq_action :: "32 word"
  creq_transaction_id :: "32 word"

record udpt_connect_resp =
  cres_action :: "32 word"
  cres_transaction_id :: "32 word"
  cres_connection_id :: "64 word"

record udpt_announce_req =
  areq_connection_id :: "64 word"
  areq_action :: "32 word"
  areq_transaction_id :: "32 word"
  areq_info_hash :: bytes
  areq_peer_id :: bytes
  areq_downloaded :: "64 word"
  areq_left :: "64 word"
  areq_uploaded :: "64 word"
  areq_event :: "32 word"
  areq_ip :: "32 word"
  areq_key :: "32 word"
  areq_num_want :: "32 word"
  areq_port :: "16 word"
  areq_extensions :: "16 word"

record udpt_peer =
  up_ip :: "32 word"
  up_port :: "16 word"

record udpt_announce_resp =
  ares_action :: "32 word"
  ares_transaction_id :: "32 word"
  ares_interval :: "32 word"
  ares_leechers :: "32 word"
  ares_seeders :: "32 word"
  ares_peer_count :: int
  ares_peers :: "udpt_peer list option"

subsection \<open>Operations\<close>

definition send_connect_request ::
  "(bytes \<Rightarrow> int) \<Rightarrow> udpt_connect_req \<Rightarrow> (bytes \<times> int) res" where
  "send_connect_request sendto req =
     rbind (put64 (fresh CONNECT_REQUEST_SIZE) 0 (creq_connection_id req)) (\<lambda>buffer.
     rbind (put32 buffer 8 (creq_action req)) (\<lambda>buffer.
     rbind (put32 buffer 12 (creq_transaction_id req)) (\<lambda>buffer.
     rbind (oget buffer 0 CONNECT_REQUEST_SIZE) (\<lambda>dgram.
     Inr (dgram, sendto dgram)))))"

text \<open>The buffer after \<open>recvfrom\<close>: the received bytes, then what was never written.\<close>

definition recv_buffer :: "nat \<Rightarrow> bytes \<Rightarrow> obuf" where
  "recv_buffer n bs = map Some bs @ replicate (n - length bs) None"

definition receive_connect_response ::
  "udpt_connect_resp \<Rightarrow> bytes option \<Rightarrow> (udpt_connect_resp \<times> int) res" where
  "receive_connect_response res incoming =
     (case recv_dgram incoming CONNECT_RESPONSE_SIZE of (sz, bs) \<Rightarrow>
      if sz < int CONNECT_RESPONSE_SIZE then Inr (res, sz)
      else
        let buffer = recv_buffer CONNECT_RESPONSE_SIZE bs in
        rbind (get32 buffer 0) (\<lambda>action.
        rbind (get32 buffer 4) (\<lambda>transaction_id.
        rbind (get64 buffer 8) (\<lambda>connection_id.
        Inr (res\<lparr>cres_action := action, cres_transaction_id := transaction_id,
                  cres_connection_id := connection_id\<rparr>, sz)))))"

definition send_announce_request ::
  "(bytes \<Rightarrow> int) \<Rightarrow> udpt_announce_req \<Rightarrow> (bytes \<times> int) res" where
  "send_announce_request sendto req =
     (let buffer = replicate ANNOUNCE_REQUEST_SIZE (Some 0) in
     rbind (put64 buffer 0 (areq_connection_id req)) (\<lambda>buffer.
     rbind (put32 buffer 8 (areq_action req)) (\<lambda>buffer.
     rbind (put32 buffer 12 (areq_transaction_id req)) (\<lambda>buffer.
     rbind (copy_in buffer 16 (areq_info_hash req) 20) (\<lambda>buffer.
     rbind (copy_in buffer 36 (areq_peer_id req) 20) (\<lambda>buffer.
     rbind (put64 buffer 56 (areq_downloaded req)) (\<lambda>buffer.
     rbind (put64 buffer 64 (areq_left req)) (\<lambda>buffer.
     rbind (put64 buffer 72 (areq_uploaded req)) (\<lambda>buffer.
     rbind (put32 buffer 80 (areq_event req)) (\<lambda>buffer.
     rbind (put32 buffer 84 (areq_ip req)) (\<lambda>buffer.
     rbind (put32 buffer 88 (areq_key req)) (\<lambda>buffer.
     rbind (put32 buffer 92 (areq_num_want req)) (\<lambda>buffer.
     rbind (put16 buffer 96 (areq_port req)) (\<lambda>buffer.
     rbind (put16 buffer 98 (areq_extensions req)) (\<lambda>buffer.
     rbind (oget buffer 0 ANNOUNCE_REQUEST_SIZE) (\<lambda>dgram.
     Inr (dgram, sendto dgram)))))))))))))))))"

text \<open>The loop over the peers; the new node is linked behind the previous one.\<close>

function peers_loop :: "obuf \<Rightarrow> int \<Rightarrow> int \<Rightarrow> udpt_peer list \<Rightarrow> udpt_peer list res" where
  "peers_loop buffer sz i acc =
     (if i < sz then
        rbind (get32 buffer (i + 0)) (\<lambda>ip.
        rbind (get16 buffer (i + 4)) (\<lambda>port.
        peers_loop buffer sz (i + 6) (acc @ [\<lparr>up_ip = ip, up_port = port\<rparr>])))
      else Inr acc)"
  by pat_completeness auto
termination
  by (relation "measure (\<lambda>(buffer, sz, i, acc). nat (sz - i))") auto

declare peers_loop.simps [simp del]

definition receive_announce_response ::
  "udpt_announce_resp \<Rightarrow> bytes option \<Rightarrow> (udpt_announce_resp \<times> int) res" where
  "receive_announce_response res incoming =
     (case recv_dgram incoming 1022 of (sz, bs) \<Rightarrow>
      if sz < ANNOUNCE_RESPONSE_MIN_SIZE then Inr (res, sz)
      else
        let buffer = recv_buffer 1022 bs in
        rbind (get32 buffer 0) (\<lambda>action.
        rbind (get32 buffer 4) (\<lambda>transaction_id.
        rbind (get32 buffer 8) (\<lambda>interval.
        rbind (get32 buffer 12) (\<lambda>leechers.
        rbind (get32 buffer 16) (\<lambda>seeders.
        rbind (peers_loop buffer sz 20 []) (\<lambda>ps.
        Inr (res\<lparr>ares_action := action, ares_transaction_id := transaction_id,
                  ares_interval := interval, ares_leechers := leechers, ares_seeders := seeders,
                  ares_peer_count := (sz - ANNOUNCE_RESPONSE_MIN_SIZE) sdiv 6,
                  ares_peers := (if ps = [] then ares_peers res else Some ps)\<rparr>, sz))))))))"

subsection \<open>Requests\<close>

lemma connect_request_layout:
  "send_connect_request sendto req =
     (let d = be64 (creq_connection_id req) @ be32 (creq_action req) @ be32 (creq_transaction_id req)
      in Inr (d, sendto d))"
  by (simp add: send_connect_request_def put_defs fresh_def CONNECT_REQUEST_SIZE_def obuf_simps Let_def)

lemma announce_request_layout:
  assumes "length (areq_info_hash req) = 20" "length (areq_peer_id req) = 20"
  shows "send_announce_request sendto req =
     (let d = be64 (areq_connection_id req) @ be32 (areq_action req) @ be32 (areq_transaction_id req) @
        areq_info_hash req @ areq_peer_id req @ be64 (areq_downloaded req) @ be64 (areq_left req) @
        be64 (areq_uploaded req) @ be32 (areq_event req) @ be32 (areq_ip req) @ be32 (areq_key req) @
        be32 (areq_num_want req) @ be16 (areq_port req) @ be16 (areq_extensions req)
      in Inr (d, sendto d))"
  using assms
  by (simp add: send_announce_request_def put_defs copy_in_def rds_def ANNOUNCE_REQUEST_SIZE_def
      obuf_simps Let_def)

subsection \<open>Responses\<close>

definition peer_bytes :: "udpt_peer list \<Rightarrow> bytes" where
  "peer_bytes ps = concat (map (\<lambda>p. be32 (up_ip p) @ be16 (up_port p)) ps)"

lemma peer_bytes_simps [simp]:
  "peer_bytes [] = []"
  "peer_bytes (p # ps) = be32 (up_ip p) @ be16 (up_port p) @ peer_bytes ps"
  "length (peer_bytes ps) = 6 * length ps"
  by (induction ps) (simp_all add: peer_bytes_def)

text \<open>Every string of \<open>6 * n\<close> bytes is that of \<open>n\<close> peers.\<close>

lemma peer_bytes_surj: "length bs = 6 * n \<Longrightarrow> \<exists>ps. length ps = n \<and> bs = peer_bytes ps"
proof (induction n arbitrary: bs)
  case 0
  then show ?case by simp
next
  case (Suc n)
  let ?p = "\<lparr>up_ip = ntohl (load_le (take 4 bs)), up_port = ntohs (load_le (take 2 (drop 4 bs)))\<rparr>"
  obtain ps where ps: "length ps = n" "drop 6 bs = peer_bytes ps" using Suc.IH [of "drop 6 bs"] Suc.prems by auto
  have "be32 (up_ip ?p) = take 4 bs" "be16 (up_port ?p) = take 2 (drop 4 bs)"
    using Suc.prems net32.enc_dec [of "take 4 bs"] net16.enc_dec [of "take 2 (drop 4 bs)"] by simp_all
  moreover have "bs = take 4 bs @ take 2 (drop 4 bs) @ drop 6 bs"
    using take_add [of 4 2 bs] append_take_drop_id [of 6 bs] by simp
  ultimately show ?case using ps by (intro exI [of _ "?p # ps"]) (metis peer_bytes_simps(2) length_Cons)
qed

lemma oget_uninit:
  assumes "length r < n" "n \<le> length r + m"
  shows "oget (map Some r @ replicate m None) 0 n = Inl UninitRead"
proof -
  have "take (n - length r) (replicate m None) = (replicate (n - length r) None :: obuf)"
    using assms by (simp add: min_def)
  then show ?thesis using assms by (simp add: oget_def rds_def)
qed

lemma peers_loop_correct:
  assumes "length r < 6" "r = [] \<or> 6 \<le> length r + m"
  shows "peers_loop (map Some pre @ map Some (peer_bytes ps) @ map Some r @ replicate m None)
      (int (length pre + 6 * length ps + length r)) (int (length pre)) acc =
    (if r = [] then Inr (acc @ ps) else Inl UninitRead)"
proof (induction ps arbitrary: pre acc)
  case Nil
  show ?case
  proof (cases "r = []")
    case True
    then show ?thesis by (simp add: peers_loop.simps)
  next
    case False
    let ?i = "int (length pre)"
    have g: "oget (map Some pre @ map Some r @ replicate m None) (?i + j) n =
        oget (map Some r @ replicate m None) j n" if "0 \<le> j" for j n
      using that by (rule oget_shift)
    show ?thesis
    proof (cases "length r < 4")
      case True
      then have "get32 (map Some pre @ map Some r @ replicate m None) (?i + 0) = Inl UninitRead"
        using g [of 0] assms False by (simp add: get32_def oget_uninit)
      with False show ?thesis by (simp add: peers_loop.simps)
    next
      case ge: False
      let ?r = "drop 4 r" and ?buf = "map Some r @ replicate m None"
      have r: "r = take 4 r @ ?r" by simp
      have "oget ?buf 4 2 = oget (map Some ?r @ replicate m None) 0 2"
        using oget_skip [of 4 "take 4 r" "map Some ?r @ replicate m None" 2] ge
        by (subst r) (simp del: append_take_drop_id)
      also have "\<dots> = Inl UninitRead" using assms ge False by (intro oget_uninit) auto
      finally have "get16 (map Some pre @ ?buf) (?i + 4) = Inl UninitRead"
        using g [of 4] by (simp add: get16_def)
      moreover have "oget ?buf 0 4 = Inr (take 4 r)"
        using oget_first [of "take 4 r" 4 "map Some ?r @ replicate m None"] ge
        by (subst r) (simp del: append_take_drop_id)
      then have "\<exists>x. get32 (map Some pre @ ?buf) (?i + 0) = Inr x"
        using g [of 0] by (simp add: get32_def)
      ultimately show ?thesis using False by (auto simp: peers_loop.simps)
    qed
  qed
next
  case (Cons p ps)
  let ?rest = "map Some (peer_bytes ps) @ map Some r @ replicate m None" and ?i = "int (length pre)"
  let ?buf = "map Some pre @ map Some (be32 (up_ip p)) @ map Some (be16 (up_port p)) @ ?rest"
  have "get32 ?buf (?i + 0) = Inr (up_ip p)" "get16 ?buf (?i + 4) = Inr (up_port p)"
    unfolding get_defs by (subst oget_shift, simp, simp add: obuf_simps net32.dec_enc net16.dec_enc)+
  moreover have "peers_loop ?buf (?i + 6 + 6 * int (length ps) + int (length r)) (?i + 6) (acc @ [p]) =
      (if r = [] then Inr ((acc @ [p]) @ ps) else Inl UninitRead)"
    using Cons.IH [of "pre @ be32 (up_ip p) @ be16 (up_port p)" "acc @ [p]"] by (simp add: algebra_simps)
  moreover have [simp]: "\<lparr>up_ip = up_ip p, up_port = up_port p\<rparr> = p" by simp
  ultimately show ?case by (subst peers_loop.simps) (auto simp: algebra_simps)
qed

text \<open>What the function does to the record, for a response with \<open>ps\<close> peers.\<close>

definition announce_result ::
  "udpt_announce_resp \<Rightarrow> 32 word \<Rightarrow> 32 word \<Rightarrow> 32 word \<Rightarrow> 32 word \<Rightarrow> 32 word \<Rightarrow> udpt_peer list \<Rightarrow>
     udpt_announce_resp" where
  "announce_result res a t iv l sd ps =
     res\<lparr>ares_action := a, ares_transaction_id := t, ares_interval := iv, ares_leechers := l,
         ares_seeders := sd, ares_peer_count := int (length ps),
         ares_peers := (if ps = [] then ares_peers res else Some ps)\<rparr>"

definition announce_bytes ::
  "32 word \<Rightarrow> 32 word \<Rightarrow> 32 word \<Rightarrow> 32 word \<Rightarrow> 32 word \<Rightarrow> udpt_peer list \<Rightarrow> bytes" where
  "announce_bytes a t iv l sd ps = be32 a @ be32 t @ be32 iv @ be32 l @ be32 sd @ peer_bytes ps"

lemma length_announce_bytes [simp]: "length (announce_bytes a t iv l sd ps) = 20 + 6 * length ps"
  by (simp add: announce_bytes_def)

lemma announce_response_split:
  assumes "length r < 6" "20 + 6 * length ps + length r \<le> 1022"
  shows "receive_announce_response res (Some (announce_bytes a t iv l sd ps @ r)) =
    (if r = [] then Inr (announce_result res a t iv l sd ps, 20 + 6 * int (length ps)) else Inl UninitRead)"
proof -
  let ?d = "announce_bytes a t iv l sd ps @ r" and ?h = "be32 a @ be32 t @ be32 iv @ be32 l @ be32 sd"
  let ?m = "1022 - length ?d"
  have recv: "recv_dgram (Some ?d) 1022 = (int (length ?d), ?d)" using assms by (simp add: recv_dgram_def)
  have buf: "recv_buffer 1022 ?d = map Some (be32 a) @ map Some (be32 t) @ map Some (be32 iv) @
      map Some (be32 l) @ map Some (be32 sd) @ map Some (peer_bytes ps) @ map Some r @ replicate ?m None"
    by (simp add: recv_buffer_def announce_bytes_def)
  have "r = [] \<or> 6 \<le> length r + ?m"
  proof (cases "r = []")
    case False
    then have "1 \<le> length r" by (cases r) simp_all
    with assms(2) have "6 * length ps + 1 \<le> 1002" by linarith
    then have "length ps \<le> 166" by presburger
    then have "length (announce_bytes a t iv l sd ps) \<le> 1016" by simp
    with assms(1) show ?thesis by (simp only: length_append) arith
  qed simp
  from peers_loop_correct [OF assms(1) this, of ?h ps "[]"]
  have "peers_loop (recv_buffer 1022 ?d) (int (length ?d)) 20 [] =
      (if r = [] then Inr ps else Inl UninitRead)"
    unfolding buf by (simp add: announce_bytes_def algebra_simps)
  moreover have "get32 (recv_buffer 1022 ?d) 0 = Inr a" "get32 (recv_buffer 1022 ?d) 4 = Inr t"
      "get32 (recv_buffer 1022 ?d) 8 = Inr iv" "get32 (recv_buffer 1022 ?d) 12 = Inr l"
      "get32 (recv_buffer 1022 ?d) 16 = Inr sd"
    unfolding buf get32_def by (simp_all add: obuf_simps net32.dec_enc)
  ultimately show ?thesis
    by (simp add: receive_announce_response_def recv ANNOUNCE_RESPONSE_MIN_SIZE_def announce_result_def
        signed_divide_int_def)
qed

lemma announce_bytes_surj:
  assumes "20 \<le> length d"
  shows "\<exists>a t iv l sd ps r. d = announce_bytes a t iv l sd ps @ r \<and> length r = (length d - 20) mod 6 \<and>
    length ps = (length d - 20) div 6"
proof -
  let ?w = "\<lambda>k. take 4 (drop k d)" and ?x = "\<lambda>k. ntohl (load_le (take 4 (drop k d)))"
  let ?n = "(length d - 20) div 6"
  obtain ps where ps: "length ps = ?n" "take (6 * ?n) (drop 20 d) = peer_bytes ps"
    using peer_bytes_surj [of "take (6 * ?n) (drop 20 d)" ?n] by auto
  have w: "be32 (?x k) = ?w k" if "k \<le> 16" for k using that assms by (intro net32.enc_dec) simp
  have s: "drop k d = ?w k @ drop (k + 4) d" for k
    by (metis append_take_drop_id drop_drop add.commute)
  have "d = ?w 0 @ ?w 4 @ ?w 8 @ ?w 12 @ ?w 16 @ drop 20 d"
    using s [of 0, unfolded drop0 add_0] s [of 4, simplified] s [of 8, simplified] s [of 12, simplified]
      s [of 16, simplified] by (metis drop0)
  also have "drop 20 d = peer_bytes ps @ drop (20 + 6 * ?n) d"
    unfolding ps(2) [symmetric] add.commute [of 20] drop_drop [symmetric]
    by (simp only: append_take_drop_id)
  finally have e: "d = ?w 0 @ ?w 4 @ ?w 8 @ ?w 12 @ ?w 16 @ peer_bytes ps @ drop (20 + 6 * ?n) d" .
  have h: "announce_bytes (?x 0) (?x 4) (?x 8) (?x 12) (?x 16) ps =
      ?w 0 @ ?w 4 @ ?w 8 @ ?w 12 @ ?w 16 @ peer_bytes ps"
    unfolding announce_bytes_def by (intro arg_cong2 [where f = append] w refl) simp_all
  have "d = announce_bytes (?x 0) (?x 4) (?x 8) (?x 12) (?x 16) ps @ drop (20 + 6 * ?n) d"
    unfolding h append_assoc by (rule e)
  moreover have "length (drop (20 + 6 * ?n) d) = (length d - 20) mod 6"
    using minus_mult_div_eq_mod [of "length d - 20" 6] by (simp only: length_drop) arith
  ultimately show ?thesis using ps(1) by blast
qed

subsection \<open>Properties\<close>

text \<open>C24: An announce request is one datagram of 100 bytes with every field at its offset of
  the protocol, integers with the most significant byte first; a connect request is one datagram
  of 16 bytes.\<close>

theorem udp_request_layout:
  assumes "length (areq_info_hash req) = 20" and "length (areq_peer_id req) = 20"
  shows "(\<exists>d. send_announce_request sendto req = Inr (d, sendto d) \<and> length d = 100 \<and>
      d = be64 (areq_connection_id req) @ be32 (areq_action req) @ be32 (areq_transaction_id req) @
        areq_info_hash req @ areq_peer_id req @ be64 (areq_downloaded req) @ be64 (areq_left req) @
        be64 (areq_uploaded req) @ be32 (areq_event req) @ be32 (areq_ip req) @ be32 (areq_key req) @
        be32 (areq_num_want req) @ be16 (areq_port req) @ be16 (areq_extensions req)) \<and>
    (\<exists>d. send_connect_request sendto creq = Inr (d, sendto d) \<and> length d = 16 \<and>
      d = be64 (creq_connection_id creq) @ be32 (creq_action creq) @ be32 (creq_transaction_id creq))"
  using assms by (simp_all add: announce_request_layout connect_request_layout Let_def)

theorem udp_request_layout_witness:
  "\<exists>d. send_announce_request (\<lambda>d. int (length d))
     \<lparr>areq_connection_id = 7, areq_action = 1, areq_transaction_id = 9, areq_info_hash = replicate 20 1,
      areq_peer_id = replicate 20 2, areq_downloaded = 0, areq_left = 5, areq_uploaded = 0, areq_event = 2,
      areq_ip = 0, areq_key = 0, areq_num_want = - 1, areq_port = 6881, areq_extensions = 0\<rparr> = Inr (d, 100)"
proof -
  let ?req = "\<lparr>areq_connection_id = 7, areq_action = 1, areq_transaction_id = 9, areq_info_hash = replicate 20 1,
      areq_peer_id = replicate 20 2, areq_downloaded = 0, areq_left = 5, areq_uploaded = 0, areq_event = 2,
      areq_ip = 0, areq_key = 0, areq_num_want = - 1, areq_port = 6881, areq_extensions = 0\<rparr>"
  have "\<exists>d. send_announce_request (\<lambda>d. int (length d)) ?req = Inr (d, int (length d)) \<and> length d = 100"
    using udp_request_layout [of ?req "\<lambda>d. int (length d)"] by auto
  then show ?thesis by auto
qed

text \<open>Receiving a connect response. A datagram with the three fields, whatever follows them,
  sets exactly these fields and returns 16; a shorter datagram or a receive error returns the
  number of bytes or -1 and leaves the record as it was.\<close>

lemma connect_response_correct:
  "receive_connect_response res (Some (be32 a @ be32 t @ be64 c @ rest)) =
     Inr (res\<lparr>cres_action := a, cres_transaction_id := t, cres_connection_id := c\<rparr>, 16) \<and>
   (length d < 16 \<longrightarrow> receive_connect_response res (Some d) = Inr (res, int (length d))) \<and>
   receive_connect_response res None = Inr (res, - 1)"
proof (intro conjI impI)
  have "recv_dgram (Some (be32 a @ be32 t @ be64 c @ rest)) 16 = (16, be32 a @ be32 t @ be64 c)"
    by (simp add: recv_dgram_def)
  moreover have "recv_buffer 16 (be32 a @ be32 t @ be64 c) = map Some (be32 a) @ map Some (be32 t) @ map Some (be64 c)"
    by (simp add: recv_buffer_def)
  ultimately show "receive_connect_response res (Some (be32 a @ be32 t @ be64 c @ rest)) =
     Inr (res\<lparr>cres_action := a, cres_transaction_id := t, cres_connection_id := c\<rparr>, 16)"
    by (simp add: receive_connect_response_def CONNECT_RESPONSE_SIZE_def get_defs obuf_simps
        net32.dec_enc net64.dec_enc)
qed (simp_all add: receive_connect_response_def CONNECT_RESPONSE_SIZE_def recv_dgram_def)

lemma announce_response_peers:
  "receive_announce_response res (Some (announce_bytes a t iv l sd ps)) =
     Inr (announce_result res a t iv l sd (take 167 ps), 20 + 6 * int (min 167 (length ps)))"
proof -
  have "recv_dgram (Some (announce_bytes a t iv l sd ps)) 1022 =
      recv_dgram (Some (announce_bytes a t iv l sd (take 167 ps) @ [])) 1022"
  proof -
    have "ps = take 167 ps @ drop 167 ps" by simp
    then have split: "announce_bytes a t iv l sd ps = announce_bytes a t iv l sd (take 167 ps) @ peer_bytes (drop 167 ps)"
      by (simp add: announce_bytes_def peer_bytes_def flip: concat_append map_append)
    show ?thesis
    proof (cases "167 \<le> length ps")
      case True
      then have "length (announce_bytes a t iv l sd (take 167 ps)) = 1022" by (simp add: min_def)
      then show ?thesis by (simp add: split recv_dgram_def del: length_announce_bytes)
    qed simp
  qed
  then have "receive_announce_response res (Some (announce_bytes a t iv l sd ps)) =
      receive_announce_response res (Some (announce_bytes a t iv l sd (take 167 ps) @ []))"
    by (simp add: receive_announce_response_def)
  also have "\<dots> = Inr (announce_result res a t iv l sd (take 167 ps), 20 + 6 * int (min 167 (length ps)))"
    by (subst announce_response_split) (simp_all add: min_def)
  finally show ?thesis .
qed


text \<open>C23: Receiving an announce response that holds \<open>n\<close> whole peers decodes the five header
  fields and the first 167 peers in order, counts them, and returns the number of bytes used.
  With no peer, the \<open>peers\<close> pointer keeps whatever the caller had in it.\<close>

theorem announce_response_roundtrip:
  "receive_announce_response res (Some (announce_bytes a t iv l sd ps)) =
     Inr (announce_result res a t iv l sd (take 167 ps), 20 + 6 * int (min 167 (length ps)))"
  by (rule announce_response_peers)

text \<open>C22: Whatever datagram arrives, the announce response is never read past the buffer. A
  datagram of fewer than 20 bytes leaves the record unchanged; one whose (truncated) length is
  20 plus a multiple of 6 is decoded; every other one makes the loop read bytes of the last
  peer that were never received.\<close>

theorem announce_response_total:
  "case incoming of None \<Rightarrow> receive_announce_response res incoming = Inr (res, - 1)
   | Some d \<Rightarrow>
       if length d < 20 then receive_announce_response res incoming = Inr (res, int (length d))
       else if (min 1022 (length d) - 20) mod 6 \<noteq> 0 then
         receive_announce_response res incoming = Inl UninitRead
       else \<exists>res'. receive_announce_response res incoming = Inr (res', int (min 1022 (length d))) \<and>
         ares_peer_count res' = int ((min 1022 (length d) - 20) div 6)"
proof (cases "\<exists>d. incoming = Some d \<and> 20 \<le> length d")
  case False
  then show ?thesis
    by (auto simp: receive_announce_response_def recv_dgram_def ANNOUNCE_RESPONSE_MIN_SIZE_def split: option.split)
next
  case True
  then obtain d where d: "incoming = Some d" "20 \<le> length d" by blast
  let ?d = "take 1022 d" and ?n = "min 1022 (length d)"
  have len: "length ?d = ?n" by simp
  obtain a t iv l sd ps r where s: "?d = announce_bytes a t iv l sd ps @ r"
      "length r = (?n - 20) mod 6" "length ps = (?n - 20) div 6"
    using announce_bytes_surj [of ?d] d(2) unfolding len by auto
  have n: "?n = 20 + 6 * length ps + length r" using len [unfolded s(1)] by simp
  have "receive_announce_response res incoming = receive_announce_response res (Some ?d)"
    by (simp add: d receive_announce_response_def recv_dgram_def)
  also have "\<dots> = (if r = [] then Inr (announce_result res a t iv l sd ps, 20 + 6 * int (length ps)) else Inl UninitRead)"
    unfolding s(1)
  proof (rule announce_response_split)
    show "length r < 6" by (simp add: s(2))
    show "20 + 6 * length ps + length r \<le> 1022" using n by linarith
  qed
  finally have res: "receive_announce_response res incoming =
      (if r = [] then Inr (announce_result res a t iv l sd ps, 20 + 6 * int (length ps)) else Inl UninitRead)" .
  show ?thesis
  proof (cases "r = []")
    case True
    then have "int ?n = 20 + 6 * int (length ps)" using n by simp
    moreover have "(?n - 20) mod 6 = 0" using s(2) True by simp
    ultimately show ?thesis using res True d s(3) by (simp add: announce_result_def)
  next
    case False
    then have "(?n - 20) mod 6 \<noteq> 0" using s(2) by (metis length_0_conv)
    then show ?thesis using res False d by simp
  qed
qed

end
