(* ===== verification/Flood_Uri.thy ===== *)
theory Flood_Uri
  imports Flood_Net Flood_Bencode_Print
begin

section \<open>URIs, query lists and UDP sockets (src/util/uri_util.c, src/util/net.c)\<close>

text \<open>
  The URIs are those of the library uriparser. A \<open>UriTextRangeA\<close> is a pair of pointers into
  one buffer: the model keeps the buffer and the two offsets, and \<open>None\<close> for a component that
  is absent (two null pointers). \<open>uri_t\<close> has the components the program reads or writes; the
  rest of the library's structure is the field \<open>uri_rest\<close>, of any type. The parser and the
  printer of the library are arguments of the functions that call them, and so are
  \<open>getaddrinfo\<close> and \<open>socket\<close>.
  A query list lives on a heap of nodes, because the caller keeps pointers to both ends of the
  list it builds. \<open>query_chain\<close> relates two such pointers to the sequence of parameters between
  them; \<open>uri_query_list_append\<close> appends to that sequence.
\<close>

subsection \<open>Data\<close>

record UriTextRangeA =
  tr_text :: bytes
  tr_first :: nat
  tr_afterLast :: nat

record 'u uri_t =
  uri_scheme_range :: "UriTextRangeA option"
  uri_userInfo :: "UriTextRangeA option"
  uri_hostText :: "UriTextRangeA option"
  uri_portText :: "UriTextRangeA option"
  uri_query_range :: "UriTextRangeA option"
  uri_rest :: 'u

record uri_query_list_t =
  q_key :: bytes
  q_value :: bytes
  q_next :: "nat option"

text \<open>Query nodes and the next free address.\<close>

type_synonym query_heap = "(nat \<rightharpoonup> uri_query_list_t) \<times> nat"

subsection \<open>Components\<close>

definition parse_uri :: "(bytes \<Rightarrow> 'u uri_t \<times> int) \<Rightarrow> bytes \<Rightarrow> 'u uri_t \<times> int" where
  "parse_uri uriParseUriA str = uriParseUriA str"

text \<open>\<open>strndup\<close>: at most \<open>n\<close> bytes, up to a NUL.\<close>

fun strndup :: "bytes \<Rightarrow> nat \<Rightarrow> bytes res" where
  "strndup bs 0 = Inr []"
| "strndup [] (Suc n) = Inl OutOfBounds"
| "strndup (b # bs) (Suc n) = (if b = 0 then Inr [] else rmap ((#) b) (strndup bs n))"

definition textrange2str :: "UriTextRangeA option \<Rightarrow> bytes res" where
  "textrange2str rng = (case rng of
     None \<Rightarrow> Inr []
   | Some r \<Rightarrow> strndup (drop (tr_first r) (tr_text r)) (tr_afterLast r - tr_first r))"

definition uri_scheme :: "'u uri_t \<Rightarrow> bytes res" where
  "uri_scheme uri = textrange2str (uri_scheme_range uri)"

definition uri_userinfo :: "'u uri_t \<Rightarrow> bytes res" where
  "uri_userinfo uri = textrange2str (uri_userInfo uri)"

definition uri_host :: "'u uri_t \<Rightarrow> bytes res" where
  "uri_host uri = textrange2str (uri_hostText uri)"

text \<open>The loop over the port; \<open>char\<close> is signed, and both operations may overflow.\<close>

fun port_loop :: "bytes \<Rightarrow> int \<Rightarrow> int res" where
  "port_loop [] port = Inr port"
| "port_loop (p # ps) port =
     rbind (check_int (port * 10)) (\<lambda>m.
     rbind (check_int (m + (sint p - 48))) (\<lambda>port.
     port_loop ps port))"

definition uri_port :: "'u uri_t \<Rightarrow> int res" where
  "uri_port uri = (case uri_portText uri of
     None \<Rightarrow> Inr 0
   | Some r \<Rightarrow>
       rbind (rds (tr_text r) (int (tr_first r)) (tr_afterLast r - tr_first r)) (\<lambda>ps.
       port_loop ps 0))"

text \<open>\<open>uri_query\<close> passes the range of the query to the library.\<close>

definition uri_query ::
  "(UriTextRangeA option \<Rightarrow> (bytes \<times> bytes) list \<times> int \<times> int) \<Rightarrow> 'u uri_t \<Rightarrow> (bytes \<times> bytes) list \<times> int \<times> int" where
  "uri_query uriDissectQueryMallocA uri = uriDissectQueryMallocA (uri_query_range uri)"

subsection \<open>Query lists\<close>

definition uri_query_list_append ::
  "bytes \<Rightarrow> bytes \<Rightarrow> nat option \<Rightarrow> query_heap \<Rightarrow> (query_heap \<times> nat) res" where
  "uri_query_list_append key val prev heap =
     (case heap of (h, dst) \<Rightarrow>
      let h = h(dst \<mapsto> \<lparr>q_key = key, q_value = val, q_next = None\<rparr>) in
      case prev of
        None \<Rightarrow> Inr ((h, Suc dst), dst)
      | Some p \<Rightarrow>
          case h p of
            None \<Rightarrow> Inl UseAfterFree
          | Some n \<Rightarrow> Inr ((h(p \<mapsto> n\<lparr>q_next := Some dst\<rparr>), Suc dst), dst))"

text \<open>What the library reads when it is given the first node of a list.\<close>

fun query_items :: "nat \<Rightarrow> (nat \<rightharpoonup> uri_query_list_t) \<Rightarrow> nat option \<Rightarrow> (bytes \<times> bytes) list res" where
  "query_items fuel h None = Inr []"
| "query_items 0 h (Some a) = Inl NoFuel"
| "query_items (Suc fuel) h (Some a) =
     (case h a of
        None \<Rightarrow> Inl UseAfterFree
      | Some n \<Rightarrow> rmap ((#) (q_key n, q_value n)) (query_items fuel h (q_next n)))"

definition uri_set_query :: "'u uri_t \<Rightarrow> query_heap \<Rightarrow> nat option \<Rightarrow> 'u uri_t \<times> int" where
  "uri_set_query uri heap query = (uri, 0)"

subsection \<open>Strings of URIs\<close>

text \<open>\<open>uriToStringCharsRequiredA\<close> yields a status (0 is success) and a length;
  \<open>uriToStringA\<close>, given the size of the buffer, a status and the string it stores.\<close>

definition uri_to_string ::
  "('u uri_t \<Rightarrow> int \<times> int) \<Rightarrow> ('u uri_t \<Rightarrow> int \<Rightarrow> int \<times> bytes) \<Rightarrow> 'u uri_t \<Rightarrow> (int \<times> bytes option) res" where
  "uri_to_string uriToStringCharsRequiredA uriToStringA uri =
     (case uriToStringCharsRequiredA uri of (status, len) \<Rightarrow>
      if status \<noteq> 0 then Inr (- 1, None)
      else
        rbind (check_int (len + 1)) (\<lambda>len.
        case uriToStringA uri len of (status, str) \<Rightarrow>
        if status \<noteq> 0 then Inr (- 1, Some str) else Inr (len - 1, Some str)))"

text \<open>The loop of \<open>str2textrange\<close>: the offset of the first NUL, when the search is at \<open>pos\<close>.\<close>

fun nul_loop :: "bytes \<Rightarrow> nat \<Rightarrow> nat res" where
  "nul_loop [] pos = Inl OutOfBounds"
| "nul_loop (b # bs) pos = (if b = 0 then Inr pos else nul_loop bs (Suc pos))"

definition str2textrange :: "bytes \<Rightarrow> UriTextRangeA res" where
  "str2textrange str = rbind (nul_loop str 0) (\<lambda>pos.
     Inr \<lparr>tr_text = str, tr_first = 0, tr_afterLast = pos\<rparr>)"

subsection \<open>UDP sockets\<close>

record sockaddr_in =
  sin_family :: "16 word"
  sin_port :: "16 word"
  sin_addr :: "32 word"

definition AF_INET :: "16 word" where "AF_INET = 2"

text \<open>The value returned, and \<open>*fd\<close> and \<open>*res_addr\<close> afterwards. \<open>getaddrinfo\<close> yields a
  status and the first address; \<open>sock\<close> is what \<open>socket\<close> returns.\<close>

definition create_udp_socket ::
  "(bytes \<Rightarrow> 'u uri_t \<times> int) \<Rightarrow> (bytes \<Rightarrow> int \<times> sockaddr_in) \<Rightarrow> int \<Rightarrow> bytes \<Rightarrow> int \<Rightarrow>
     sockaddr_in option \<Rightarrow> (int \<times> int \<times> sockaddr_in option) res" where
  "create_udp_socket uriParseUriA getaddrinfo sock url fd res_addr =
     (case parse_uri uriParseUriA url of (uri, res) \<Rightarrow>
      if res \<noteq> 0 then Inr (res, fd, res_addr)
      else
        rbind (uri_host uri) (\<lambda>host.
        case getaddrinfo host of (res, ai_addr) \<Rightarrow>
        if res \<noteq> 0 then Inr (res, fd, res_addr)
        else
          rbind (uri_port uri) (\<lambda>port.
          let sock_addr = ai_addr\<lparr>sin_family := AF_INET, sin_port := htons (word_of_int port)\<rparr> in
          if sock = - 1 then Inr (- 1, fd, res_addr)
          else Inr (0, sock, Some sock_addr))))"


subsection \<open>Laws of ranges\<close>

text \<open>\<open>delimits r s\<close>: the range marks the bytes \<open>s\<close> inside its buffer.\<close>

definition delimits :: "UriTextRangeA \<Rightarrow> bytes \<Rightarrow> bool" where
  "delimits r s \<longleftrightarrow> (\<exists>pre suf. tr_text r = pre @ s @ suf \<and> tr_first r = length pre \<and>
     tr_afterLast r = length pre + length s)"

lemma delimitsI:
  assumes "take (j - i) (drop i t) = s" "i \<le> j" "j \<le> length t"
  shows "delimits \<lparr>tr_text = t, tr_first = i, tr_afterLast = j\<rparr> s"
proof -
  have "t = take i t @ s @ drop j t"
    using assms by (metis append_take_drop_id drop_drop le_add_diff_inverse2)
  moreover have "length s = j - i" using assms by auto
  ultimately show ?thesis
    using assms(2,3) unfolding delimits_def by (intro exI [of _ "take i t"] exI [of _ "drop j t"]) simp
qed

lemma strndup_prefix: "0 \<notin> set s \<Longrightarrow> strndup (s @ suf) (length s) = Inr s"
  by (induction s) auto

lemma textrange2str_delimits: "delimits r s \<Longrightarrow> 0 \<notin> set s \<Longrightarrow> textrange2str (Some r) = Inr s"
  by (auto simp: delimits_def textrange2str_def strndup_prefix)

lemma nul_loop_first: "0 \<notin> set s \<Longrightarrow> nul_loop (s @ 0 # suf) pos = Inr (pos + length s)"
  by (induction s arbitrary: pos) auto

lemma str2textrange_delimits:
  assumes "0 \<notin> set s"
  shows "\<exists>r. str2textrange (s @ 0 # suf) = Inr r \<and> delimits r s"
  using nul_loop_first [OF assms, of suf 0]
  by (auto simp: str2textrange_def delimits_def intro!: exI [of _ "[]"] exI [of _ "0 # suf"])

lemma digit_sint: "isdigit c \<Longrightarrow> sint c - 48 = digit_val c"
proof -
  assume "isdigit c"
  then have "uint c \<le> 57" by (simp add: isdigit_def word_le_def)
  moreover have "- 128 \<le> uint c" using uint_ge_0 [of c] by linarith
  ultimately have "sint c = uint c" unfolding sint_uint by (intro signed_take_bit_int_eq_self) simp_all
  then show ?thesis by (simp add: digit_val_def)
qed

lemma port_loop_digits:
  "list_all isdigit ds \<Longrightarrow> 0 \<le> n \<Longrightarrow> n \<le> INT_MAX \<Longrightarrow>
     port_loop ds n = (if dec_from n ds \<le> INT_MAX then Inr (dec_from n ds) else Inl SignedOverflow)"
proof (induction ds arbitrary: n)
  case Nil
  then show ?case by simp
next
  case (Cons d ds)
  then have d: "isdigit d" "0 \<le> digit_val d" by (auto dest: isdigit_val)
  have mono: "n * 10 + digit_val d \<le> dec_from (n * 10 + digit_val d) ds"
    using Cons.prems d by (intro dec_from_mono) auto
  show ?case
  proof (cases "n * 10 + digit_val d \<le> INT_MAX")
    case True
    then show ?thesis using Cons d by (simp add: digit_sint)
  next
    case False
    then have "check_int (n * 10) = Inl SignedOverflow \<or>
        check_int (n * 10) = Inr (n * 10) \<and> check_int (n * 10 + digit_val d) = Inl SignedOverflow"
      by (auto simp: check_int_def)
    then show ?thesis using False mono d(1) by (auto simp: digit_sint)
  qed
qed

lemma uri_port_digits:
  assumes "uri_portText uri = Some r" "delimits r ds" "list_all isdigit ds"
  shows "uri_port uri = (if dec_from 0 ds \<le> INT_MAX then Inr (dec_from 0 ds) else Inl SignedOverflow)"
proof -
  obtain pre suf where "tr_text r = pre @ ds @ suf" "tr_first r = length pre" "tr_afterLast r = length pre + length ds"
    using assms(2) by (auto simp: delimits_def)
  then show ?thesis using assms(1,3) by (simp add: uri_port_def port_loop_digits)
qed

subsection \<open>Laws of query lists\<close>

text \<open>The nodes at the addresses \<open>as\<close>, each linked to the next, hold the parameters \<open>xs\<close>.\<close>

fun query_chain :: "(nat \<rightharpoonup> uri_query_list_t) \<Rightarrow> nat list \<Rightarrow> (bytes \<times> bytes) list \<Rightarrow> bool" where
  "query_chain h [] [] \<longleftrightarrow> True"
| "query_chain h (a # as) (x # xs) \<longleftrightarrow>
     h a = Some \<lparr>q_key = fst x, q_value = snd x, q_next = (case as of [] \<Rightarrow> None | b # _ \<Rightarrow> Some b)\<rparr> \<and>
     query_chain h as xs"
| "query_chain h _ _ \<longleftrightarrow> False"

lemma query_chain_length: "query_chain h as xs \<Longrightarrow> length as = length xs"
  by (induction h as xs rule: query_chain.induct) auto

lemma query_chain_other: "query_chain h as xs \<Longrightarrow> a \<notin> set as \<Longrightarrow> query_chain (h(a := n)) as xs"
  by (induction h as xs rule: query_chain.induct) auto

lemma query_chain_snoc:
  assumes "query_chain h as xs" "as \<noteq> []" "distinct as" "dst \<notin> set as" "h (last as) = Some n"
  shows "query_chain (h(dst \<mapsto> \<lparr>q_key = k, q_value = v, q_next = None\<rparr>, last as \<mapsto> n\<lparr>q_next := Some dst\<rparr>))
    (as @ [dst]) (xs @ [(k, v)])"
  using assms
proof (induction h as xs rule: query_chain.induct)
  case (2 h a as x xs)
  show ?case
  proof (cases as)
    case Nil
    then show ?thesis using 2 by (cases xs) auto
  next
    case (Cons b bs)
    define h' where "h' = h(dst \<mapsto> \<lparr>q_key = k, q_value = v, q_next = None\<rparr>, last (a # as) \<mapsto> n\<lparr>q_next := Some dst\<rparr>)"
    have l: "last (a # as) = last as" using Cons by simp
    have "query_chain h' (as @ [dst]) (xs @ [(k, v)])"
      unfolding h'_def l by (rule "2.IH") (use "2.prems" Cons in auto)
    moreover have "h' a = h a" using 2 Cons by (auto simp: h'_def)
    ultimately have "query_chain h' ((a # as) @ [dst]) ((x # xs) @ [(k, v)])" using 2 Cons by simp
    then show ?thesis by (simp only: h'_def)
  qed
qed auto

lemma query_items_chain:
  "query_chain h as xs \<Longrightarrow> length xs \<le> fuel \<Longrightarrow>
     query_items fuel h (case as of [] \<Rightarrow> None | a # _ \<Rightarrow> Some a) = Inr xs"
proof (induction h as xs arbitrary: fuel rule: query_chain.induct)
  case (2 h a as x xs)
  then show ?case by (cases fuel) (auto split: list.splits)
qed auto

text \<open>\<open>query_rep heap as xs\<close>: the list just built, with its nodes below the next address.\<close>

definition query_rep :: "query_heap \<Rightarrow> nat list \<Rightarrow> (bytes \<times> bytes) list \<Rightarrow> bool" where
  "query_rep heap as xs \<longleftrightarrow> query_chain (fst heap) as xs \<and> distinct as \<and> (\<forall>a \<in> set as. a < snd heap)"

lemma query_append_first:
  "\<exists>heap'. uri_query_list_append k v None heap = Inr (heap', snd heap) \<and>
     query_rep heap' [snd heap] [(k, v)]"
  by (cases heap) (simp add: uri_query_list_append_def query_rep_def)

lemma query_append_next:
  assumes "query_rep heap as xs" "as \<noteq> []" "p = last as"
  shows "\<exists>heap' dst. uri_query_list_append k v (Some p) heap = Inr (heap', dst) \<and>
    query_rep heap' (as @ [dst]) (xs @ [(k, v)])"
proof -
  obtain h dst where heap: "heap = (h, dst)" by (cases heap)
  have p: "p \<in> set as" "p < dst" using assms heap by (auto simp: query_rep_def)
  then have ne: "p \<noteq> dst" by simp
  have chain: "query_chain h as xs" "distinct as" "\<forall>a \<in> set as. a < dst"
    using assms(1) heap by (auto simp: query_rep_def)
  then have "dst \<notin> set as" by auto
  moreover have "\<exists>n. h (last as) = Some n"
    using chain(1) assms(2) by (induction h as xs rule: query_chain.induct) (auto split: if_splits)
  then obtain n where "h (last as) = Some n" by blast
  ultimately show ?thesis
    using query_chain_snoc [OF chain(1) assms(2) chain(2), of dst n k v] chain assms(3) heap ne
    by (auto simp: uri_query_list_append_def query_rep_def Let_def)
qed

subsection \<open>Results\<close>

text \<open>A C string turned into a text range and back is the same string.\<close>

lemma textrange_roundtrip:
  "0 \<notin> set s \<Longrightarrow> rbind (str2textrange (s @ 0 # suf)) (\<lambda>r. textrange2str (Some r)) = Inr s"
  using str2textrange_delimits [of s suf] textrange2str_delimits by auto

text \<open>A port number printed in decimal is read back.\<close>

lemma uri_port_itoa:
  assumes "uri_portText uri = Some r" "delimits r (itoa n)" "0 \<le> n" "n \<le> INT_MAX"
  shows "uri_port uri = Inr n"
  using uri_port_digits [OF assms(1,2)] dec_nat_digits [of "nat n"] assms(3,4)
  by (simp add: itoa_def show_int_def)

text \<open>\<open>uri_to_string\<close> returns the length of the string, as its header says, when the library
  stores a string of the length it announced.\<close>

lemma uri_to_string_length:
  assumes "required uri = (0, len)" "len < INT_MAX" "0 \<le> len"
    and "to_str uri (len + 1) = (0, str)" "int (length str) = len"
  shows "uri_to_string required to_str uri = Inr (int (length str), Some str)"
  using assms by (simp add: uri_to_string_def)

text \<open>Every branch of \<open>create_udp_socket\<close>.\<close>

lemma create_udp_socket_cases:
  assumes "uri_hostText uri = Some hr" "delimits hr host" "0 \<notin> set host"
    and "uri_portText uri = Some pr" "delimits pr ds" "list_all isdigit ds"
    and "parse url = (uri, code)" "resolve host = (gai, ai)"
  shows "create_udp_socket parse resolve sock url fd res_addr =
      (if code \<noteq> 0 then Inr (code, fd, res_addr)
       else if gai \<noteq> 0 then Inr (gai, fd, res_addr)
       else if dec_from 0 ds > INT_MAX then Inl SignedOverflow
       else if sock = - 1 then Inr (- 1, fd, res_addr)
       else Inr (0, sock, Some \<lparr>sin_family = AF_INET, sin_port = htons (word_of_int (dec_from 0 ds)),
                              sin_addr = sin_addr ai\<rparr>))"
proof -
  have "uri_host uri = Inr host"
    using assms(1-3) by (simp add: uri_host_def textrange2str_delimits)
  moreover note uri_port_digits [OF assms(4-6)]
  moreover have "ai\<lparr>sin_family := f, sin_port := p\<rparr> = \<lparr>sin_family = f, sin_port = p, sin_addr = sin_addr ai\<rparr>" for f p
    by (cases ai) simp
  ultimately show ?thesis
    using assms(7,8) by (auto simp: create_udp_socket_def parse_uri_def Let_def)
qed

subsection \<open>Properties\<close>

text \<open>Opening a UDP socket for a tracker URL whose host and decimal port the URI library has
  delimited, and whose host resolves. The address gets the host's IP and the port of the URL in
  network byte order, modulo 65536; a port that does not fit an \<open>int\<close> overflows; when no socket
  can be made the result is -1 and neither the descriptor nor the address is touched. When the
  URL cannot be parsed or the host not resolved, the error code is returned in the same way.\<close>

lemma create_udp_socket_correct:
  assumes "uri_hostText uri = Some hr" and "delimits hr host" and "0 \<notin> set host"
    and "uri_portText uri = Some pr" and "delimits pr ds" and "list_all isdigit ds"
    and "parse url = (uri, code)" and "resolve host = (gai, ai)"
  shows "create_udp_socket parse resolve sock url fd res_addr =
      (if code \<noteq> 0 then Inr (code, fd, res_addr)
       else if gai \<noteq> 0 then Inr (gai, fd, res_addr)
       else if dec_from 0 ds > INT_MAX then Inl SignedOverflow
       else if sock = - 1 then Inr (- 1, fd, res_addr)
       else Inr (0, sock, Some \<lparr>sin_family = AF_INET, sin_port = htons (word_of_int (dec_from 0 ds)),
                              sin_addr = sin_addr ai\<rparr>)) \<and>
    int (horner_sum unat 256 (rev (store_le 2 (htons (word_of_int (dec_from 0 ds)))))) = dec_from 0 ds mod 65536"
proof -
  have "int (horner_sum unat 256 (rev (store_le 2 (htons (word_of_int (dec_from 0 ds)))))) = dec_from 0 ds mod 65536"
    unfolding net16.enc_val of_nat_unat by (simp add: uint_word_of_int)
  with create_udp_socket_cases [where parse = parse and url = url and resolve = resolve, OF assms] show ?thesis by (intro conjI)
qed

text \<open>The URL \<open>udp://t:80\<close>, split as uriparser does.\<close>

definition example_udp_uri :: "unit uri_t" where
  "example_udp_uri =
     (let url = lit ''udp://t:80'' in
      \<lparr>uri_scheme_range = Some \<lparr>tr_text = url, tr_first = 0, tr_afterLast = 3\<rparr>,
       uri_userInfo = None,
       uri_hostText = Some \<lparr>tr_text = url, tr_first = 6, tr_afterLast = 7\<rparr>,
       uri_portText = Some \<lparr>tr_text = url, tr_first = 8, tr_afterLast = 10\<rparr>,
       uri_query_range = None, uri_rest = ()\<rparr>)"

lemma example_udp_uri_ranges:
  "\<exists>r. uri_scheme_range example_udp_uri = Some r \<and> delimits r (lit ''udp'')"
  "\<exists>r. uri_hostText example_udp_uri = Some r \<and> delimits r (lit ''t'')"
  "\<exists>r. uri_portText example_udp_uri = Some r \<and> delimits r (lit ''80'')"
  by (simp_all add: example_udp_uri_def Let_def lit_def delimitsI)

lemma create_udp_socket_correct_witness:
  "\<exists>a. create_udp_socket (\<lambda>_. (example_udp_uri, 0)) (\<lambda>_. (0, \<lparr>sin_family = 0, sin_port = 0, sin_addr = 1\<rparr>))
     5 (lit ''udp://t:80'') (- 1) None = Inr (0, 5, Some a) \<and> sin_addr a = 1"
proof -
  obtain hr pr where r: "uri_hostText example_udp_uri = Some hr" "delimits hr (lit ''t'')"
      "uri_portText example_udp_uri = Some pr" "delimits pr (lit ''80'')"
    using example_udp_uri_ranges by blast
  have "0 \<notin> set (lit ''t'')" "list_all isdigit (lit ''80'')" "dec_from 0 (lit ''80'') = 80"
    by (simp_all add: lit_def isdigit_def digit_val_def)
  then show ?thesis
    using create_udp_socket_correct [OF r(1,2) _ r(3,4), of "\<lambda>_. (example_udp_uri, 0)" "lit ''udp://t:80''" 0
        "\<lambda>_. (0, \<lparr>sin_family = 0, sin_port = 0, sin_addr = 1\<rparr>)" 0 "\<lparr>sin_family = 0, sin_port = 0, sin_addr = 1\<rparr>"
        5 "- 1" None] by simp
qed

end
