(* ===== verification/Flood_Http.thy ===== *)
theory Flood_Http
  imports Flood_Uri
begin

section \<open>The HTTP tracker protocol (src/http_protocol.c)\<close>

text \<open>
  \<open>http_tracker_request\<close> builds a query list from the request, lets uriparser print the URL,
  fetches it with libcurl, whose data arrives through \<open>curl_write_memory_cb\<close>, and decodes the
  body. The functions of the two libraries are the fields of \<open>http_lib\<close>, an argument: escaping,
  composing a query, printing a URI, and performing a transfer, which yields the chunks that are
  handed to the callback and a result code.
  \<open>uriEscapeA\<close> takes a C string. The source hands it the two 20-byte arrays of the request, which
  have no terminating NUL, so that it reads on through the members behind them: \<open>http_req_image\<close>
  is the structure as bytes, and \<open>c_string_at\<close> the string found at an offset of it.
  The buffer of the callback keeps which of its bytes were written, and its sizes have 64 bits.
\<close>

subsection \<open>The receive buffer\<close>

record curl_memory_buf =
  cm_data :: obuf
  cm_size :: "64 word"

definition obuf_realloc :: "obuf \<Rightarrow> nat \<Rightarrow> obuf" where
  "obuf_realloc data n = take n data @ replicate (n - length data) None"

definition curl_write_memory_cb ::
  "bytes \<Rightarrow> 64 word \<Rightarrow> 64 word \<Rightarrow> curl_memory_buf \<Rightarrow> (curl_memory_buf \<times> 64 word) res" where
  "curl_write_memory_cb contents sz nmemb mem =
     (let realsize = sz * nmemb;
          data = obuf_realloc (cm_data mem) (unat (cm_size mem + realsize + 1)) in
      rbind (copy_in data (uint (cm_size mem)) contents (unat realsize)) (\<lambda>data.
      let newsize = cm_size mem + realsize in
      rbind (oput data (uint newsize) [0]) (\<lambda>data.
      Inr (\<lparr>cm_data = data, cm_size = newsize\<rparr>, realsize))))"

text \<open>A transfer: libcurl calls the function for each chunk, with \<open>size\<close> 1.\<close>

definition curl_deliver :: "bytes list \<Rightarrow> curl_memory_buf \<Rightarrow> curl_memory_buf res" where
  "curl_deliver chunks =
     rfold (\<lambda>chunk mem. rmap fst (curl_write_memory_cb chunk 1 (of_nat (length chunk)) mem)) chunks"

subsection \<open>Requests\<close>

record http_tracker_request_t =
  hreq_info_hash :: bytes
  hreq_peer_id :: bytes
  hreq_port :: int
  hreq_uploaded :: int
  hreq_downloaded :: int
  hreq_left :: int
  hreq_compact :: bool
  hreq_no_peer_id :: bool
  hreq_ip :: "bytes option"
  hreq_numwant :: int
  hreq_key :: "bytes option"
  hreq_trackerid :: "bytes option"

record 'u http_lib =
  lib_uriEscapeA :: "bytes \<Rightarrow> bytes"
  lib_uriComposeQuery :: "(bytes \<times> bytes) list \<Rightarrow> bytes"
  lib_uriToStringCharsRequired :: "'u uri_t \<Rightarrow> int \<times> int"
  lib_uriToString :: "'u uri_t \<Rightarrow> int \<Rightarrow> int \<times> bytes"
  lib_curl_perform :: "bytes \<Rightarrow> bytes list \<times> int"

definition ESCAPE_MULT :: nat where "ESCAPE_MULT = 6"

definition int32_bytes :: "int \<Rightarrow> bytes" where
  "int32_bytes n = store_le 4 (word_of_int n :: 32 word)"

definition http_req_image :: "http_tracker_request_t \<Rightarrow> bytes" where
  "http_req_image req =
     hreq_info_hash req @ hreq_peer_id req @ int32_bytes (hreq_port req) @ int32_bytes (hreq_uploaded req) @
     int32_bytes (hreq_downloaded req) @ int32_bytes (hreq_left req) @
     [of_bool (hreq_compact req), of_bool (hreq_no_peer_id req)]"

definition c_string_at :: "bytes \<Rightarrow> nat \<Rightarrow> bytes res" where
  "c_string_at mem i = (if 0 \<in> set (drop i mem) then Inr (cstr (drop i mem)) else Inl OutOfBounds)"

text \<open>\<open>char x_escaped[20*ESCAPE_MULT] = {0}; uriEscapeA(req->x, x_escaped, ...)\<close>, and the string
  the buffer then holds.\<close>

definition escape_field :: "(bytes \<Rightarrow> bytes) \<Rightarrow> http_tracker_request_t \<Rightarrow> nat \<Rightarrow> bytes res" where
  "escape_field uriEscapeA req offset =
     rbind (c_string_at (http_req_image req) offset) (\<lambda>s.
     rbind (wrs (replicate (20 * ESCAPE_MULT) 0) 0 (uriEscapeA s @ [0])) (\<lambda>buf.
     Inr (cstr buf)))"

definition bool_string :: "bool \<Rightarrow> bytes" where
  "bool_string b = (if b then lit ''1'' else lit ''0'')"

text \<open>An \<open>if (x != NULL)\<close> around an append.\<close>

definition append_opt :: "string \<Rightarrow> bytes option \<Rightarrow> query_heap \<times> nat \<Rightarrow> (query_heap \<times> nat) res" where
  "append_opt key val st = (case st of (heap, query) \<Rightarrow>
     case val of None \<Rightarrow> Inr (heap, query)
     | Some v \<Rightarrow> uri_query_list_append (lit key) v (Some query) heap)"

definition build_query ::
  "(bytes \<Rightarrow> bytes) \<Rightarrow> http_tracker_request_t \<Rightarrow> (query_heap \<times> nat) res" where
  "build_query uriEscapeA req =
     rbind (escape_field uriEscapeA req 0) (\<lambda>info_hash_escaped.
     rbind (uri_query_list_append (lit ''info_hash'') info_hash_escaped None (Map.empty, 0)) (\<lambda>(heap, query).
     let base = query in
     rbind (escape_field uriEscapeA req 20) (\<lambda>peer_id_escaped.
     rbind (uri_query_list_append (lit ''peer_id'') peer_id_escaped (Some query) heap) (\<lambda>(heap, query).
     rbind (uri_query_list_append (lit ''port'') (show_int (hreq_port req)) (Some query) heap) (\<lambda>(heap, query).
     rbind (uri_query_list_append (lit ''uploaded'') (show_int (hreq_uploaded req)) (Some query) heap) (\<lambda>(heap, query).
     rbind (uri_query_list_append (lit ''downloaded'') (show_int (hreq_downloaded req)) (Some query) heap) (\<lambda>(heap, query).
     rbind (uri_query_list_append (lit ''left'') (show_int (hreq_left req)) (Some query) heap) (\<lambda>(heap, query).
     rbind (uri_query_list_append (lit ''compact'') (bool_string (hreq_compact req)) (Some query) heap) (\<lambda>(heap, query).
     rbind (uri_query_list_append (lit ''no_peer_id'') (bool_string (hreq_no_peer_id req)) (Some query) heap) (\<lambda>(heap, query).
     rbind (append_opt ''ip'' (hreq_ip req) (heap, query)) (\<lambda>(heap, query).
     rbind (uri_query_list_append (lit ''numwant'') (show_int (hreq_numwant req)) (Some query) heap) (\<lambda>(heap, query).
     rbind (append_opt ''key'' (hreq_key req) (heap, query)) (\<lambda>(heap, query).
     rbind (append_opt ''trackerid'' (hreq_trackerid req) (heap, query)) (\<lambda>(heap, query).
     Inr (heap, base)))))))))))))))"

text \<open>\<open>printf\<close> with \<open>%.30s\<close>: at most 30 bytes, up to a NUL.\<close>

fun print_prefix :: "nat \<Rightarrow> obuf \<Rightarrow> bytes res" where
  "print_prefix 0 data = Inr []"
| "print_prefix (Suc n) [] = Inl OutOfBounds"
| "print_prefix (Suc n) (None # data) = Inl UninitRead"
| "print_prefix (Suc n) (Some b # data) = (if b = 0 then Inr [] else rmap ((#) b) (print_prefix n data))"

text \<open>What a request leaves behind: the parameters sent, the URL fetched, the result code of the transfer and what the
  decoder returned for the body.\<close>

record http_exchange =
  hx_query :: "(bytes \<times> bytes) list"
  hx_url :: bytes
  hx_curl_code :: int
  hx_parsed :: "int + bencode_value \<times> int"

definition http_tracker_request ::
  "'u http_lib \<Rightarrow> 'u uri_t \<Rightarrow> http_tracker_request_t \<Rightarrow> (int \<times> http_exchange) res" where
  "http_tracker_request lib uri req =
     rbind (build_query (lib_uriEscapeA lib) req) (\<lambda>((h, nodes), base).
     rbind (query_items nodes h (Some base)) (\<lambda>items.
     rbind (str2textrange (lib_uriComposeQuery lib items @ [0])) (\<lambda>query_text.
     let uri = uri\<lparr>uri_query_range := Some query_text\<rparr> in
     rbind (uri_to_string (lib_uriToStringCharsRequired lib) (lib_uriToString lib) uri) (\<lambda>(rescode, req_url).
     case req_url of None \<Rightarrow> Inl UninitRead
     | Some req_url \<Rightarrow>
         (case lib_curl_perform lib req_url of (chunks, curl_rescode) \<Rightarrow>
          rbind (curl_deliver chunks \<lparr>cm_data = [None], cm_size = 0\<rparr>) (\<lambda>curlbuf.
          rbind (if curl_rescode = 0 then print_prefix 30 (cm_data curlbuf) else Inr []) (\<lambda>_.
          rbind (bencode_parse (map the (takeWhile (\<lambda>b. b \<noteq> None) (cm_data curlbuf)))
                   (to_int32 (uint (cm_size curlbuf)))) (\<lambda>parsed.
          Inr (0, \<lparr>hx_query = items, hx_url = req_url, hx_curl_code = curl_rescode, hx_parsed = parsed\<rparr>)))))))))"

subsection \<open>The buffer accumulates the chunks\<close>

definition curl_holds :: "bytes \<Rightarrow> curl_memory_buf \<Rightarrow> bool" where
  "curl_holds bs mem \<longleftrightarrow> cm_data mem = map Some bs @ [Some 0] \<and> cm_size mem = of_nat (length bs)"

lemma unat_size:
  assumes "length bs < 2 ^ 64"
  shows "unat (of_nat (length bs) :: 64 word) = length bs"
  using assms by (simp add: unat_of_nat take_bit_nat_eq_self)

lemma curl_step:
  assumes "length bs + length chunk + 1 < 2 ^ 64"
    and "cm_size mem = of_nat (length bs)" and "cm_data mem = map Some bs @ pad0" and "length pad0 = 1"
  shows "\<exists>mem'. curl_write_memory_cb chunk 1 (of_nat (length chunk)) mem = Inr (mem', of_nat (length chunk)) \<and>
    curl_holds (bs @ chunk) mem'"
proof -
  let ?n = "length bs" and ?m = "length chunk"
  have sz: "(of_nat ?n + of_nat ?m :: 64 word) = of_nat (?n + ?m)" by simp
  have un: "unat (of_nat k :: 64 word) = k" if "k \<le> ?n + ?m + 1" for k
    using that assms(1) by (simp add: unat_of_nat take_bit_nat_eq_self)
  have usz: "unat (of_nat (?n + ?m) + 1 :: 64 word) = ?n + ?m + 1"
    using un [of "?n + ?m + 1"] by (simp add: ac_simps)
  have ui: "uint (of_nat k :: 64 word) = int k" if "k \<le> ?n + ?m + 1" for k
    using un [OF that] by (metis of_nat_unat)
  let ?grown = "obuf_realloc (cm_data mem) (?n + ?m + 1)"
  have grown: "\<exists>pad. ?grown = map Some bs @ pad \<and> length pad = ?m + 1"
    using assms(3,4) by (cases chunk) (auto simp: obuf_realloc_def)
  then obtain pad where pad: "?grown = map Some bs @ pad" "length pad = ?m + 1" by blast
  obtain mid x where mid: "pad = mid @ [x]" "length mid = ?m"
    using pad(2) by (cases pad rule: rev_cases) auto
  have "copy_in ?grown (int ?n) chunk ?m = Inr (map Some bs @ map Some chunk @ [x])"
    using wrs_at_end [of "map Some chunk" mid "map Some bs" "[x]"] pad(1) mid
    by (simp add: copy_in_def rds_def oput_def)
  moreover have "oput (map Some bs @ map Some chunk @ [x]) (int (?n + ?m)) [0] = Inr (map Some (bs @ chunk) @ [Some 0])"
    using wrs_at_end [of "[Some 0]" "[x]" "map Some (bs @ chunk)" "[]"] by (simp add: oput_def)
  ultimately show ?thesis
    using assms(2) usz un [of ?m] ui [of ?n] ui [of "?n + ?m"]
    by (simp add: curl_write_memory_cb_def Let_def sz curl_holds_def del: of_nat_add of_nat_Suc)
qed

lemma curl_deliver_more:
  "curl_holds bs mem \<Longrightarrow> length bs + length (concat chunks) + 1 < 2 ^ 64 \<Longrightarrow>
     \<exists>mem'. curl_deliver chunks mem = Inr mem' \<and> curl_holds (bs @ concat chunks) mem'"
proof (induction chunks arbitrary: bs mem)
  case Nil
  then show ?case by (simp add: curl_deliver_def)
next
  case (Cons c cs)
  obtain mem1 where m1: "curl_write_memory_cb c 1 (of_nat (length c)) mem = Inr (mem1, of_nat (length c))"
      "curl_holds (bs @ c) mem1"
    using curl_step [of bs c mem "[Some 0]"] Cons.prems by (auto simp: curl_holds_def)
  obtain mem' where "curl_deliver cs mem1 = Inr mem'" "curl_holds ((bs @ c) @ concat cs) mem'"
    using Cons.IH [OF m1(2)] Cons.prems(2) by auto
  then show ?case using m1(1) by (simp add: curl_deliver_def)
qed

lemma curl_deliver_all:
  assumes "chunks \<noteq> []" "length (concat chunks) + 1 < 2 ^ 64"
  shows "curl_deliver chunks \<lparr>cm_data = [None], cm_size = 0\<rparr> =
    Inr \<lparr>cm_data = map Some (concat chunks) @ [Some 0], cm_size = of_nat (length (concat chunks))\<rparr>"
proof -
  obtain c cs where c: "chunks = c # cs" using assms(1) by (cases chunks) auto
  obtain mem1 where m1: "curl_write_memory_cb c 1 (of_nat (length c)) \<lparr>cm_data = [None], cm_size = 0\<rparr> =
      Inr (mem1, of_nat (length c))" "curl_holds ([] @ c) mem1"
    using curl_step [of "[]" c "\<lparr>cm_data = [None], cm_size = 0\<rparr>" "[None]"] assms(2) c by auto
  obtain mem' where "curl_deliver cs mem1 = Inr mem'" "curl_holds (([] @ c) @ concat cs) mem'"
    using curl_deliver_more [OF m1(2)] assms(2) c by auto
  then show ?thesis using m1(1) c by (cases mem') (simp add: curl_deliver_def curl_holds_def)
qed

subsection \<open>The query list\<close>

text \<open>\<open>built base xs (heap, query)\<close>: between \<open>base\<close> and \<open>query\<close> lies the list \<open>xs\<close>.\<close>

definition built :: "nat \<Rightarrow> (bytes \<times> bytes) list \<Rightarrow> query_heap \<times> nat \<Rightarrow> bool" where
  "built base xs st \<longleftrightarrow> (\<exists>as. query_rep (fst st) (base # as) xs \<and> last (base # as) = snd st \<and> length xs \<le> snd (fst st))"

text \<open>Rules that follow the sequence of appends. \<open>P\<close> stands for the claim about the run.\<close>

lemma built_first:
  assumes "\<And>heap query. built 0 [(k, v)] (heap, query) \<Longrightarrow> query = 0 \<Longrightarrow> P (f (heap, query))"
  shows "P (rbind (uri_query_list_append k v None (Map.empty, 0)) f)"
proof -
  obtain heap where h: "uri_query_list_append k v None (Map.empty, 0) = Inr (heap, 0)" "query_rep heap [0] [(k, v)]"
    using query_append_first [of k v "(Map.empty, 0)"] by auto
  have "snd heap = 1" using h(1) by (auto simp: uri_query_list_append_def)
  then have "built 0 [(k, v)] (heap, 0)" using h(2) by (auto simp: built_def)
  then show ?thesis using assms h(1) by simp
qed

lemma append_result:
  "uri_query_list_append k v prev heap = Inr (heap', dst) \<Longrightarrow> snd heap' = Suc (snd heap)"
  by (cases heap) (auto simp: uri_query_list_append_def Let_def split: option.splits)

lemma built_next:
  assumes "built base xs (heap, query)"
    and "\<And>heap' query'. built base (xs @ [(k, v)]) (heap', query') \<Longrightarrow> P (f (heap', query'))"
  shows "P (rbind (uri_query_list_append k v (Some query) heap) f)"
proof -
  obtain as where as: "query_rep heap (base # as) xs" "last (base # as) = query" "length xs \<le> snd heap"
    using assms(1) by (auto simp: built_def)
  obtain heap' dst where h: "uri_query_list_append k v (Some query) heap = Inr (heap', dst)"
      "query_rep heap' ((base # as) @ [dst]) (xs @ [(k, v)])"
    using query_append_next [OF as(1), of query k v] as(2) by auto
  have "built base (xs @ [(k, v)]) (heap', dst)"
    using h(2) as(3) append_result [OF h(1)] unfolding built_def by (intro exI [of _ "as @ [dst]"]) simp
  then show ?thesis using assms(2) h(1) by simp
qed

definition opt_item :: "string \<Rightarrow> bytes option \<Rightarrow> (bytes \<times> bytes) list" where
  "opt_item key val = (case val of None \<Rightarrow> [] | Some v \<Rightarrow> [(lit key, v)])"

lemma built_opt:
  assumes "built base xs (heap, query)"
    and "\<And>heap' query'. built base (xs @ opt_item key val) (heap', query') \<Longrightarrow> P (f (heap', query'))"
  shows "P (rbind (append_opt key val (heap, query)) f)"
  using assms built_next [OF assms(1), of "lit key" _ P f]
  by (cases val) (auto simp: append_opt_def opt_item_def)

lemma built_items: "built base xs ((h, n), query) \<Longrightarrow> query_items n h (Some base) = Inr xs"
  using query_items_chain [of h "base # as" xs n for as] by (auto simp: built_def query_rep_def)

text \<open>The parameters of a request, given the two escaped fields.\<close>

definition request_items :: "http_tracker_request_t \<Rightarrow> bytes \<Rightarrow> bytes \<Rightarrow> (bytes \<times> bytes) list" where
  "request_items req ih pid =
     [(lit ''info_hash'', ih), (lit ''peer_id'', pid), (lit ''port'', show_int (hreq_port req)),
      (lit ''uploaded'', show_int (hreq_uploaded req)), (lit ''downloaded'', show_int (hreq_downloaded req)),
      (lit ''left'', show_int (hreq_left req)), (lit ''compact'', bool_string (hreq_compact req)),
      (lit ''no_peer_id'', bool_string (hreq_no_peer_id req))] @
     opt_item ''ip'' (hreq_ip req) @ [(lit ''numwant'', show_int (hreq_numwant req))] @
     opt_item ''key'' (hreq_key req) @ opt_item ''trackerid'' (hreq_trackerid req)"

lemma build_query_items:
  assumes "escape_field esc req 0 = Inr ih" "escape_field esc req 20 = Inr pid"
  shows "\<exists>h n. build_query esc req = Inr ((h, n), 0) \<and>
    query_items n h (Some 0) = Inr (request_items req ih pid)"
proof -
  let ?P = "\<lambda>r. \<exists>h n query. r = Inr ((h, n), 0) \<and> built 0 (request_items req ih pid) ((h, n), query)"
  have "?P (build_query esc req)"
    unfolding build_query_def assms rbind_simps Let_def
    apply (rule built_first [where P = ?P])
    apply (simp only: prod.case rbind_simps)
    apply (rule built_next [where P = ?P], assumption, simp only: prod.case)+
    apply (rule built_opt [where P = ?P], assumption, simp only: prod.case)
    apply (rule built_next [where P = ?P], assumption, simp only: prod.case)
    apply (rule built_opt [where P = ?P], assumption, simp only: prod.case)+
    apply (auto simp: request_items_def)
    done
  then show ?thesis using built_items by blast
qed

subsection \<open>Escaped fields\<close>

text \<open>What uriparser documents of \<open>uriEscapeA\<close> with \<open>normalizeBreaks\<close> off: it works character by
  character, a character takes at most three bytes, letters and digits are left alone, and the
  output contains no NUL.\<close>

definition alnum :: "byte \<Rightarrow> bool" where
  "alnum c \<longleftrightarrow> 48 \<le> c \<and> c \<le> 57 \<or> 65 \<le> c \<and> c \<le> 90 \<or> 97 \<le> c \<and> c \<le> 122"

definition escape_ok :: "(bytes \<Rightarrow> bytes) \<Rightarrow> bool" where
  "escape_ok esc \<longleftrightarrow> esc [] = [] \<and> (\<forall>c cs. esc (c # cs) = esc [c] @ esc cs) \<and>
     (\<forall>c. length (esc [c]) \<le> 3 \<and> 0 \<notin> set (esc [c]) \<and> (alnum c \<longrightarrow> esc [c] = [c]))"

lemma escape_okD:
  assumes "escape_ok esc"
  shows "esc [] = []" and "esc (c # cs) = esc [c] @ esc cs" and "length (esc [c]) \<le> 3"
    and "0 \<notin> set (esc [c])" and "alnum c \<Longrightarrow> esc [c] = [c]"
  using assms unfolding escape_ok_def by blast+

lemma escape_ok_length: "escape_ok esc \<Longrightarrow> length (esc s) \<le> 3 * length s"
proof (induction s)
  case Nil
  then show ?case by (simp add: escape_okD(1))
next
  case (Cons c s)
  show ?case using escape_okD(3) [OF Cons.prems, of c] Cons.IH [OF Cons.prems]
    by (subst escape_okD(2) [OF Cons.prems]) simp
qed

lemma escape_ok_append: "escape_ok esc \<Longrightarrow> esc (s @ t) = esc s @ esc t"
proof (induction s)
  case Nil
  then show ?case by (simp add: escape_okD(1))
next
  case (Cons c s)
  then show ?case
    using escape_okD(2) [OF Cons.prems, of c s] escape_okD(2) [OF Cons.prems, of c "s @ t"] by (simp only: append_Cons append_assoc)
qed

lemma escape_ok_no_nul: "escape_ok esc \<Longrightarrow> 0 \<notin> set (esc s)"
proof (induction s)
  case Nil
  then show ?case by (simp add: escape_okD(1))
next
  case (Cons c s)
  show ?case using escape_okD(4) [OF Cons.prems, of c] Cons.IH [OF Cons.prems]
    by (subst escape_okD(2) [OF Cons.prems]) simp
qed

lemma escape_ok_alnum: "escape_ok esc \<Longrightarrow> list_all alnum s \<Longrightarrow> esc s = s"
proof (induction s)
  case Nil
  then show ?case by (simp add: escape_okD(1))
next
  case (Cons c s)
  show ?case using escape_okD(5) [OF Cons.prems(1), of c] Cons.IH Cons.prems
    by (subst escape_okD(2) [OF Cons.prems(1)]) simp
qed

lemma escape_field_fits:
  assumes "escape_ok esc" "c_string_at (http_req_image req) i = Inr s" "length (esc s) < 120"
  shows "escape_field esc req i = Inr (esc s)"
proof -
  have "wrs (replicate 120 0) 0 (esc s @ [0]) = Inr (esc s @ 0 # replicate (119 - length (esc s)) 0)"
    using assms(3) by (simp add: wrs_def)
  moreover have "cstr (esc s @ 0 # xs) = esc s" for xs
    using escape_ok_no_nul [OF assms(1), of s] by (simp add: cstr_def takeWhile_append)
  ultimately show ?thesis using assms(2) by (simp add: escape_field_def ESCAPE_MULT_def)
qed

text \<open>What is found at the two arrays of a request with port 0: the peer id, but not the info
  hash. A hash with a zero byte ends there, and one without goes on with the peer id.\<close>

lemma c_string_at_nul: "drop i mem = s @ 0 # rest \<Longrightarrow> 0 \<notin> set s \<Longrightarrow> c_string_at mem i = Inr s"
  by (simp add: c_string_at_def cstr_def takeWhile_append)

lemma req_image_strings:
  assumes "length (hreq_info_hash req) = 20" "0 \<notin> set (hreq_peer_id req)" "hreq_port req = 0"
  shows "c_string_at (http_req_image req) 0 =
      Inr (if 0 \<in> set (hreq_info_hash req) then cstr (hreq_info_hash req)
           else hreq_info_hash req @ hreq_peer_id req)"
    and "c_string_at (http_req_image req) 20 = Inr (hreq_peer_id req)"
proof -
  have "int32_bytes 0 = [0, 0, 0, 0]" by (simp add: int32_bytes_def store_le_def upt_rec)
  then obtain rest where img: "http_req_image req = hreq_info_hash req @ hreq_peer_id req @ 0 # rest"
    using assms(3) by (auto simp: http_req_image_def)
  then show "c_string_at (http_req_image req) 20 = Inr (hreq_peer_id req)"
    using assms(1,2) by (intro c_string_at_nul) simp_all
  show "c_string_at (http_req_image req) 0 =
      Inr (if 0 \<in> set (hreq_info_hash req) then cstr (hreq_info_hash req)
           else hreq_info_hash req @ hreq_peer_id req)"
  proof (cases "0 \<in> set (hreq_info_hash req)")
    case True
    then obtain s suf where "hreq_info_hash req = s @ 0 # suf" "0 \<notin> set s" by (metis split_list_first)
    then show ?thesis using img True by (auto simp: cstr_def takeWhile_append intro!: c_string_at_nul)
  next
    case False
    then show ?thesis using img assms(2) by (auto intro!: c_string_at_nul)
  qed
qed

text \<open>A concrete escaping function with these properties.\<close>

definition hex_digit :: "nat \<Rightarrow> byte" where
  "hex_digit n = (if n < 10 then of_nat (48 + n) else of_nat (55 + n))"

definition percent_escape :: "bytes \<Rightarrow> bytes" where
  "percent_escape s = concat (map (\<lambda>c. if alnum c then [c] else [37, hex_digit (unat c div 16), hex_digit (unat c mod 16)]) s)"

lemma hex_digit_nonzero: "n < 16 \<Longrightarrow> hex_digit n \<noteq> 0"
proof -
  assume "n < 16"
  then have "n \<in> {0..<16}" by simp
  then show ?thesis by (auto simp: hex_digit_def atLeastLessThan_nat_numeral atLeast0_lessThan_Suc)
qed

lemma percent_escape_ok: "escape_ok percent_escape"
proof -
  have "unat c < 2 ^ LENGTH(8)" for c :: byte by (rule unsigned_less)
  then have "unat c div 16 < 16" for c :: byte by (simp add: less_mult_imp_div_less)
  then show ?thesis
    by (auto simp: escape_ok_def percent_escape_def alnum_def hex_digit_nonzero [THEN not_sym])
qed

subsection \<open>A whole exchange\<close>

lemma print_prefix_terminated: "\<exists>s. print_prefix n (map Some bs @ [Some 0]) = Inr s"
proof (induction bs arbitrary: n)
  case Nil
  then show ?case by (cases n) auto
next
  case (Cons b bs)
  then show ?case
  proof (cases n)
    case (Suc m)
    then show ?thesis using Cons [of m] by auto
  qed simp
qed

text \<open>The URI with the query the request composes.\<close>

definition with_query :: "bytes \<Rightarrow> 'u uri_t \<Rightarrow> 'u uri_t" where
  "with_query q uri = uri\<lparr>uri_query_range := Some \<lparr>tr_text = q @ [0], tr_first = 0, tr_afterLast = length q\<rparr>\<rparr>"

lemma http_request_run:
  assumes "escape_ok (lib_uriEscapeA lib)"
    and "c_string_at (http_req_image req) 0 = Inr ih" "length (lib_uriEscapeA lib ih) < 120"
    and "c_string_at (http_req_image req) 20 = Inr pid" "length (lib_uriEscapeA lib pid) < 120"
    and items: "items = request_items req (lib_uriEscapeA lib ih) (lib_uriEscapeA lib pid)"
    and q: "0 \<notin> set (lib_uriComposeQuery lib items)"
    and required: "lib_uriToStringCharsRequired lib (with_query (lib_uriComposeQuery lib items) uri) = (0, len)"
      "0 \<le> len" "len < INT_MAX"
    and url: "lib_uriToString lib (with_query (lib_uriComposeQuery lib items) uri) (len + 1) = (0, url)"
    and curl: "lib_curl_perform lib url = (chunks, code)" "chunks \<noteq> []" "int (length (concat chunks)) \<le> INT_MAX"
  shows "http_tracker_request lib uri req =
    rbind (bencode_parse (concat chunks @ [0]) (int (length (concat chunks)))) (\<lambda>parsed.
      Inr (0, \<lparr>hx_query = items, hx_url = url, hx_curl_code = code, hx_parsed = parsed\<rparr>))"
proof -
  let ?body = "concat chunks"
  note ih = escape_field_fits [OF assms(1-3)] and pid = escape_field_fits [OF assms(1,4,5)]
  obtain h n where b: "build_query (lib_uriEscapeA lib) req = Inr ((h, n), 0)" "query_items n h (Some 0) = Inr items"
    using build_query_items [OF ih pid] items by blast
  have r: "str2textrange (lib_uriComposeQuery lib items @ [0]) =
      Inr \<lparr>tr_text = lib_uriComposeQuery lib items @ [0], tr_first = 0, tr_afterLast = length (lib_uriComposeQuery lib items)\<rparr>"
    using nul_loop_first [OF q, of "[]" 0] by (simp add: str2textrange_def)
  have u: "uri_to_string (lib_uriToStringCharsRequired lib) (lib_uriToString lib) (with_query (lib_uriComposeQuery lib items) uri) =
      Inr (len, Some url)"
    using required url by (simp add: uri_to_string_def)
  have small: "length ?body + 1 < 2 ^ 64" using curl(3) by simp
  note d = curl_deliver_all [OF curl(2) small]
  have "uint (of_nat (length ?body) :: 64 word) = int (length ?body)"
    using unat_size [of ?body] small by (metis of_nat_unat add_lessD1)
  then have sz: "to_int32 (uint (of_nat (length ?body) :: 64 word)) = int (length ?body)"
    using curl(3) by (simp add: to_int32_id)
  obtain s where "print_prefix 30 (map Some ?body @ [Some 0]) = Inr s" using print_prefix_terminated by blast
  moreover have init: "map the (takeWhile (\<lambda>b. b \<noteq> None) (map Some bs @ [Some 0])) = bs @ [0 :: byte]" for bs
    by (subst takeWhile_eq_all_conv [THEN iffD2]) (auto simp: comp_def)
  ultimately show ?thesis
    using b r u d sz curl(1) unfolding http_tracker_request_def with_query_def [symmetric]
    by (simp add: with_query_def [symmetric] Let_def init del: not_None_eq)
qed

text \<open>Whatever happens later in a request, the parameters are those of the query list.\<close>

lemma http_request_items:
  assumes "http_tracker_request lib uri req = Inr (r, x)"
    and "build_query (lib_uriEscapeA lib) req = Inr ((h, n), base)" "query_items n h (Some base) = Inr items"
  shows "hx_query x = items \<and> r = 0"
  using assms(1) unfolding http_tracker_request_def assms(2,3) rbind_simps prod.case rbind_eq_Inr Let_def
  by (auto simp: rbind_eq_Inr split_beta split: option.splits)

subsection \<open>An example\<close>

definition example_http_lib :: "'u http_lib" where
  "example_http_lib =
     \<lparr>lib_uriEscapeA = percent_escape, lib_uriComposeQuery = (\<lambda>_. lit ''q=1''),
      lib_uriToStringCharsRequired = (\<lambda>_. (0, 3)), lib_uriToString = (\<lambda>_ _. (0, lit ''url'')),
      lib_curl_perform = (\<lambda>_. ([lit ''i4'', lit ''2e''], 0))\<rparr>"

definition example_http_request :: http_tracker_request_t where
  "example_http_request =
     \<lparr>hreq_info_hash = replicate 20 1, hreq_peer_id = lit ''CUSTOMCLIENT12345678'', hreq_port = 0,
      hreq_uploaded = 0, hreq_downloaded = 0, hreq_left = 0, hreq_compact = True, hreq_no_peer_id = False,
      hreq_ip = Some (lit ''0.0.0.0''), hreq_numwant = 21, hreq_key = None, hreq_trackerid = None\<rparr>"

lemma example_http:
  fixes lib :: "'u http_lib"
  defines "lib \<equiv> example_http_lib"
  shows "escape_ok (lib_uriEscapeA lib)"
    and "c_string_at (http_req_image example_http_request) 0 = Inr (replicate 20 1 @ lit ''CUSTOMCLIENT12345678'')"
    and "length (lib_uriEscapeA lib (replicate 20 1 @ lit ''CUSTOMCLIENT12345678'')) < 120"
    and "c_string_at (http_req_image example_http_request) 20 = Inr (lit ''CUSTOMCLIENT12345678'')"
    and "length (lib_uriEscapeA lib (lit ''CUSTOMCLIENT12345678'')) < 120"
    and "benc [chr_i, 52, 50, chr_e] (AInt 42)"
    and "concat [lit ''i4'', lit ''2e''] = [chr_i, 52, 50, chr_e] @ []"
proof -
  have "0 \<notin> set (lit ''CUSTOMCLIENT12345678'')" by (simp add: lit_def)
  then show "c_string_at (http_req_image example_http_request) 0 = Inr (replicate 20 1 @ lit ''CUSTOMCLIENT12345678'')"
    "c_string_at (http_req_image example_http_request) 20 = Inr (lit ''CUSTOMCLIENT12345678'')"
    using req_image_strings [of example_http_request] by (simp_all add: example_http_request_def)
  have pid: "list_all alnum (lit ''CUSTOMCLIENT12345678'')" by (simp add: alnum_def lit_def)
  show esc: "escape_ok (lib_uriEscapeA lib)" by (simp add: lib_def example_http_lib_def percent_escape_ok)
  have "length (lib_uriEscapeA lib (replicate 20 1)) \<le> 60" "length (lit ''CUSTOMCLIENT12345678'') = 20"
    using escape_ok_length [OF esc, of "replicate 20 1"] by (simp_all add: lit_def)
  then show "length (lib_uriEscapeA lib (replicate 20 1 @ lit ''CUSTOMCLIENT12345678'')) < 120"
    "length (lib_uriEscapeA lib (lit ''CUSTOMCLIENT12345678'')) < 120"
    by (simp_all add: escape_ok_append [OF esc] escape_ok_alnum [OF esc pid])
  show "benc [chr_i, 52, 50, chr_e] (AInt 42)"
    using benc_int [of "[52, 50]"] by (simp add: isdigit_def digit_val_def)
  show "concat [lit ''i4'', lit ''2e''] = [chr_i, 52, 50, chr_e] @ []" by (simp add: lit_def)
qed

lemma example_request_returns: "\<exists>x. http_tracker_request example_http_lib uri example_http_request = Inr (0, x)"
proof -
  obtain v where "bencode_parse ([chr_i, 52, 50, chr_e] @ [0]) 4 = gives v 4"
    using bencode_parse_complete [OF example_http(6), of 4 "[0]"] by auto
  then show ?thesis
    using http_request_run [OF example_http(1-5) refl, of uri 3 "lit ''url''" "[lit ''i4'', lit ''2e'']" 0] example_http(7)
    by (auto simp: example_http_lib_def lit_def)
qed

subsection \<open>Properties\<close>

text \<open>C20: An HTTP tracker request. With libraries that behave as documented, every query parameter
  is sent in the order of the source, the optional ones only when they are set, the escaped
  fields fit their buffers, and the URL that libcurl fetches is the one printed for the URI with
  that query. However the network cuts the body into chunks, the buffer collects it with a
  terminating NUL and the decoder is run on exactly the body: it returns 0 with the decoded value for
  a body that starts with a bencoded value, and never leaves the buffer for any other.\<close>

theorem http_exchange_correct:
  assumes "escape_ok (lib_uriEscapeA lib)"
    and "c_string_at (http_req_image req) 0 = Inr ih" and "length (lib_uriEscapeA lib ih) < 120"
    and "c_string_at (http_req_image req) 20 = Inr pid" and "length (lib_uriEscapeA lib pid) < 120"
    and "items = request_items req (lib_uriEscapeA lib ih) (lib_uriEscapeA lib pid)"
    and "0 \<notin> set (lib_uriComposeQuery lib items)"
    and "lib_uriToStringCharsRequired lib (with_query (lib_uriComposeQuery lib items) uri) = (0, len)"
    and "0 \<le> len" and "len < INT_MAX"
    and "lib_uriToString lib (with_query (lib_uriComposeQuery lib items) uri) (len + 1) = (0, url)"
    and "lib_curl_perform lib url = (chunks, code)" and "chunks \<noteq> []" and "int (length (concat chunks)) \<le> INT_MAX"
  shows "((\<exists>parsed. http_tracker_request lib uri req =
        Inr (0, \<lparr>hx_query = items, hx_url = url, hx_curl_code = code, hx_parsed = parsed\<rparr>)) \<or>
      http_tracker_request lib uri req = Inl SignedOverflow) \<and>
    (\<forall>w a rest. benc w a \<and> concat chunks = w @ rest \<longrightarrow>
      (\<exists>v. bv_abs v = a \<and> http_tracker_request lib uri req =
        Inr (0, \<lparr>hx_query = items, hx_url = url, hx_curl_code = code, hx_parsed = Inr (v, int (length w))\<rparr>)))"
proof -
  let ?body = "concat chunks"
  note run = http_request_run [OF assms]
  have "terminated (?body @ [0]) (int (length ?body))" by (simp add: terminated_def)
  then have "(\<exists>parsed. http_tracker_request lib uri req =
        Inr (0, \<lparr>hx_query = items, hx_url = url, hx_curl_code = code, hx_parsed = parsed\<rparr>)) \<or>
      http_tracker_request lib uri req = Inl SignedOverflow"
    using bencode_parse_post [of "int (length ?body)" "?body @ [0]"] run
    by (cases "bencode_parse (?body @ [0]) (int (length ?body))" rule: parse_cases) (auto simp: parse_ub_def)
  moreover have "\<exists>v. bv_abs v = a \<and> http_tracker_request lib uri req =
        Inr (0, \<lparr>hx_query = items, hx_url = url, hx_curl_code = code, hx_parsed = Inr (v, int (length w))\<rparr>)"
    if "benc w a" "?body = w @ rest" for w a rest
    using bencode_parse_complete [of w a "int (length ?body)" "rest @ [0]"] run that assms(14) by auto
  ultimately show ?thesis by blast
qed

theorem http_exchange_correct_witness:
  "\<exists>v x. bv_abs v = AInt 42 \<and> http_tracker_request example_http_lib example_udp_uri example_http_request =
     Inr (0, x) \<and> hx_parsed x = Inr (v, 4)"
  using http_exchange_correct [OF example_http(1-5) refl, of example_udp_uri 3 "lit ''url''"
      "[lit ''i4'', lit ''2e'']" 0] example_http(6,7)
  by (fastforce simp: example_http_lib_def lit_def)

end
