(* ===== verification/Flood_Tracker.thy ===== *)
theory Flood_Tracker
  imports Flood_Client Flood_Udp Flood_Http
begin

section \<open>Trackers (src/tracker.c and the tracker functions of src/client.c)\<close>

text \<open>
  A tracker announces the torrent, over UDP or HTTP, and hands every peer of the response to the
  function \<open>find_fn\<close>, together with the state behind \<open>find_fn_handle\<close>, which the model passes
  along. Everything that comes from outside during one announcement (the URI library, name
  resolution, the new socket, the two values of \<open>rand\<close>, the result of \<open>sendto\<close>, the two
  datagrams that may arrive, and the HTTP libraries) is the record \<open>tracker_env\<close>. \<open>c_resp\<close> and
  \<open>a_resp\<close> are uninitialised in the source: reading a field of \<open>c_resp\<close> that the receive function
  did not fill, or a \<open>peers\<close> pointer it did not assign, is an outcome.
  The update thread polls until it reads that the tracker was stopped. \<open>poll_loop\<close> takes the
  values of \<open>stopped\<close> it reads, one per round; the locale \<open>polled\<close> proves what the loop does for
  any announcement that keeps an invariant, and is interpreted on \<open>tracker_announce\<close> with a
  tracker that answers.
  The life of a tracker under any interleaving of \<open>tracker_start\<close>, \<open>tracker_stop\<close> and its thread
  is a pair of step relations.
\<close>

subsection \<open>Data\<close>

record ('u, 'c) tracker_t =
  tr_url :: "bytes option"
  tr_uri :: "'u uri_t option"
  tr_torrent :: torrent_t
  tr_find_fn :: "(discovered_peer_t \<Rightarrow> 'c \<Rightarrow> 'c res) option"
  tr_poll_freq :: int
  tr_update_thread :: "nat option"
  tr_stopped :: bool
  tr_sock_fd :: int
  tr_addr :: "sockaddr_in option"
  tr_connection_id :: "64 word"

record 'u tracker_env =
  env_parse :: "bytes \<Rightarrow> 'u uri_t \<times> int"
  env_getaddrinfo :: "bytes \<Rightarrow> int \<times> sockaddr_in"
  env_socket :: int
  env_rand_connect :: "32 word"
  env_rand_announce :: "32 word"
  env_sendto :: "bytes \<Rightarrow> int"
  env_connect_resp :: "bytes option"
  env_announce_resp :: "bytes option"
  env_http :: "'u http_lib"

definition CLIENT_PEER_ID :: bytes where
  "CLIENT_PEER_ID = lit ''CUSTOMCLIENT12345678''"

subsection \<open>Announcing over UDP\<close>

definition blank_connect_resp :: udpt_connect_resp where
  "blank_connect_resp = \<lparr>cres_action = 0, cres_transaction_id = 0, cres_connection_id = 0\<rparr>"

definition blank_announce_resp :: udpt_announce_resp where
  "blank_announce_resp =
     \<lparr>ares_action = 0, ares_transaction_id = 0, ares_interval = 0, ares_leechers = 0, ares_seeders = 0,
      ares_peer_count = 0, ares_peers = None\<rparr>"

text \<open>Opening the connection, when there is none: the tracker, the datagrams sent, and the value
  with which \<open>tracker_announce_udp\<close> returns early.\<close>

definition udp_connect ::
  "'u tracker_env \<Rightarrow> ('u, 'c) tracker_t \<Rightarrow> (('u, 'c) tracker_t \<times> bytes list \<times> int option) res" where
  "udp_connect env t =
     (if tr_sock_fd t \<noteq> - 1 then Inr (t, [], None)
      else
        case tr_url t of None \<Rightarrow> Inl NullDeref
        | Some url \<Rightarrow>
            rbind (create_udp_socket (env_parse env) (env_getaddrinfo env) (env_socket env) url
                     (tr_sock_fd t) (tr_addr t)) (\<lambda>(res, fd, addr).
            let t = t\<lparr>tr_sock_fd := fd, tr_addr := addr\<rparr> in
            if res \<noteq> 0 then Inr (t, [], Some res)
            else
              let c_req = \<lparr>creq_connection_id = MAGIC_CONNECTION_ID, creq_action = CONNECTION_ACTION,
                    creq_transaction_id = env_rand_connect env\<rparr> in
              rbind (send_connect_request (env_sendto env) c_req) (\<lambda>(dgram, _).
              rbind (receive_connect_response blank_connect_resp (env_connect_resp env)) (\<lambda>(c_resp, sz).
              if sz < int CONNECT_RESPONSE_SIZE then Inl UninitRead
              else if cres_transaction_id c_resp \<noteq> creq_transaction_id c_req then Inr (t, [dgram], Some (- 1))
              else Inr (t\<lparr>tr_connection_id := cres_connection_id c_resp\<rparr>, [dgram], None)))))"

definition announce_req :: "64 word \<Rightarrow> 32 word \<Rightarrow> bytes \<Rightarrow> udpt_announce_req" where
  "announce_req connection_id transaction_id info_hash =
     \<lparr>areq_connection_id = connection_id, areq_action = ANNOUNCE_ACTION, areq_transaction_id = transaction_id,
      areq_info_hash = info_hash, areq_peer_id = CLIENT_PEER_ID, areq_downloaded = 0, areq_left = 0,
      areq_uploaded = 0, areq_event = ANNOUNCE_EVENT_STARTED, areq_ip = 0, areq_key = 0, areq_num_want = - 1,
      areq_port = 0, areq_extensions = 0\<rparr>"

definition discovered :: "udpt_peer \<Rightarrow> discovered_peer_t" where
  "discovered peer = \<lparr>dp_ip = up_ip peer, dp_port = uint (up_port peer)\<rparr>"

text \<open>The loop over the list of peers.\<close>

definition report_peers ::
  "(discovered_peer_t \<Rightarrow> 'c \<Rightarrow> 'c res) option \<Rightarrow> udpt_peer list \<Rightarrow> 'c \<Rightarrow> 'c res" where
  "report_peers find_fn =
     rfold (\<lambda>peer c. case find_fn of None \<Rightarrow> Inr c | Some f \<Rightarrow> f (discovered peer) c)"

definition tracker_announce_udp ::
  "'u tracker_env \<Rightarrow> ('u, 'c) tracker_t \<Rightarrow> 'c \<Rightarrow> (('u, 'c) tracker_t \<times> 'c \<times> bytes list \<times> int) res" where
  "tracker_announce_udp env t c =
     rbind (udp_connect env t) (\<lambda>(t, sent, ret).
     case ret of Some code \<Rightarrow> Inr (t, c, sent, code)
     | None \<Rightarrow>
         (case t_info_hash (tr_torrent t) of None \<Rightarrow> Inl UninitRead
          | Some info_hash \<Rightarrow>
              rbind (send_announce_request (env_sendto env)
                       (announce_req (tr_connection_id t) (env_rand_announce env) info_hash)) (\<lambda>(dgram, _).
              rbind (receive_announce_response blank_announce_resp (env_announce_resp env)) (\<lambda>(a_resp, _).
              case ares_peers a_resp of None \<Rightarrow> Inl UninitRead
              | Some peers \<Rightarrow>
                  rbind (report_peers (tr_find_fn t) peers c) (\<lambda>c.
                  Inr (t, c, sent @ [dgram], 0))))))"

subsection \<open>Announcing over HTTP\<close>

definition http_announce_req :: "bytes \<Rightarrow> http_tracker_request_t" where
  "http_announce_req info_hash =
     \<lparr>hreq_info_hash = info_hash, hreq_peer_id = CLIENT_PEER_ID, hreq_port = 0, hreq_uploaded = 0,
      hreq_downloaded = 0, hreq_left = 0, hreq_compact = True, hreq_no_peer_id = False,
      hreq_ip = Some (lit ''0.0.0.0''), hreq_numwant = 21, hreq_key = None, hreq_trackerid = None\<rparr>"

text \<open>\<open>tr_uri\<close> is \<open>None\<close> until \<open>tracker_start\<close> has parsed the URL.\<close>

definition tracker_announce_http ::
  "'u tracker_env \<Rightarrow> ('u, 'c) tracker_t \<Rightarrow> (http_exchange \<times> int) res" where
  "tracker_announce_http env t =
     (case t_info_hash (tr_torrent t) of None \<Rightarrow> Inl UninitRead
      | Some info_hash \<Rightarrow>
          rbind (rds info_hash 0 20) (\<lambda>info_hash.
          case tr_uri t of None \<Rightarrow> Inl UninitRead
          | Some uri \<Rightarrow>
              rbind (http_tracker_request (env_http env) uri (http_announce_req info_hash)) (\<lambda>(_, x).
              Inr (x, 0))))"

subsection \<open>Announcing and polling\<close>

datatype announcement = UdpAnnounce "bytes list" int | HttpAnnounce http_exchange | UnknownScheme

text \<open>The value returned is always -1.\<close>

definition tracker_announce ::
  "'u tracker_env \<Rightarrow> ('u, 'c) tracker_t \<Rightarrow> 'c \<Rightarrow> (('u, 'c) tracker_t \<times> 'c \<times> announcement \<times> int) res" where
  "tracker_announce env t c =
     (case tr_url t of None \<Rightarrow> Inl NullDeref
      | Some url \<Rightarrow>
          (case parse_uri (env_parse env) url of (uri, _) \<Rightarrow>
           rbind (uri_scheme uri) (\<lambda>scheme.
           if scheme = lit ''udp'' then
             rbind (tracker_announce_udp env t c) (\<lambda>(t, c, sent, code). Inr (t, c, UdpAnnounce sent code, - 1))
           else if scheme = lit ''http'' then
             rbind (tracker_announce_http env t) (\<lambda>(x, _). Inr (t, c, HttpAnnounce x, - 1))
           else Inr (t, c, UnknownScheme, - 1))))"

text \<open>The loop of the update thread. \<open>stops\<close> is what the loop reads of \<open>stopped\<close> in each
  round.\<close>

fun poll_loop :: "(int \<Rightarrow> 's \<Rightarrow> 's res) \<Rightarrow> int \<Rightarrow> bool list \<Rightarrow> int \<Rightarrow> 's \<Rightarrow> 's res" where
  "poll_loop announce poll_freq [] tick s = Inl NoFuel"
| "poll_loop announce poll_freq (stopped # stops) tick s =
     (if stopped then Inr s
      else if poll_freq = 0 then Inl DivByZero
      else
        rbind (if tick smod poll_freq = 0 then announce tick s else Inr s) (\<lambda>s.
        rbind (check_int (tick + 1)) (\<lambda>tick.
        poll_loop announce poll_freq stops tick s)))"

text \<open>What the thread works on: the environment at each tick, the tracker, the handle of the callback, and
  the announcements sent so far, which \<open>tracker_announce\<close> returns.\<close>

type_synonym ('u, 'c) poll_state =
  "(int \<Rightarrow> 'u tracker_env) \<times> ('u, 'c) tracker_t \<times> 'c \<times> announcement list"

definition announce_at :: "int \<Rightarrow> ('u, 'c) poll_state \<Rightarrow> ('u, 'c) poll_state res" where
  "announce_at tick s = (case s of (env, t, c, sent) \<Rightarrow>
     rbind (tracker_announce (env tick) t c) (\<lambda>(t, c, x, _). Inr (env, t, c, sent @ [x])))"

definition tracker_update_routine ::
  "(int \<Rightarrow> 'u tracker_env) \<Rightarrow> bool list \<Rightarrow> ('u, 'c) tracker_t \<Rightarrow> 'c \<Rightarrow> ('u, 'c) poll_state res" where
  "tracker_update_routine env stops t c = poll_loop announce_at (tr_poll_freq t) stops 0 (env, t, c, [])"

subsection \<open>Starting and stopping\<close>

text \<open>\<open>thread\<close> is the address \<open>malloc\<close> returns for the thread handle; the third component of the
  result of \<open>tracker_stop\<close> is the thread that was cancelled.\<close>

definition tracker_start ::
  "(bytes \<Rightarrow> 'u uri_t \<times> int) \<Rightarrow> nat \<Rightarrow> ('u, 'c) tracker_t \<Rightarrow> (('u, 'c) tracker_t \<times> bool) res" where
  "tracker_start uriParseUriA thread t =
     (let t = t\<lparr>tr_sock_fd := - 1\<rparr> in
      case tr_update_thread t of
        Some _ \<Rightarrow> Inr (t, False)
      | None \<Rightarrow>
          (case tr_url t of None \<Rightarrow> Inl NullDeref
           | Some url \<Rightarrow>
               Inr (t\<lparr>tr_update_thread := Some thread, tr_uri := Some (fst (parse_uri uriParseUriA url))\<rparr>, True)))"

definition tracker_stop ::
  "bool \<Rightarrow> ('u, 'c) tracker_t \<Rightarrow> (('u, 'c) tracker_t \<times> bool \<times> nat option) res" where
  "tracker_stop force t =
     (if tr_stopped t then Inr (t, False, None)
      else if force then
        (case tr_update_thread t of None \<Rightarrow> Inl NullDeref
         | Some thread \<Rightarrow> Inr (t\<lparr>tr_stopped := True\<rparr>, True, Some thread))
      else Inr (t\<lparr>tr_stopped := True\<rparr>, True, None))"

subsection \<open>The trackers of a client\<close>

text \<open>A structure from \<open>calloc\<close>, with the fields \<open>client_init_trackers\<close> assigns.\<close>

definition new_tracker ::
  "(discovered_peer_t \<Rightarrow> 'c \<Rightarrow> 'c res) \<Rightarrow> client_t \<Rightarrow> bytes option \<Rightarrow> ('u, 'c) tracker_t" where
  "new_tracker find_fn c tracker_url =
     \<lparr>tr_url = tracker_url, tr_uri = None, tr_torrent = c_torrent c, tr_find_fn = Some find_fn,
      tr_poll_freq = cfg_tracker_poll_frequency (c_config c), tr_update_thread = None, tr_stopped = False,
      tr_sock_fd = 0, tr_addr = None, tr_connection_id = 0\<rparr>"

text \<open>The list that \<open>c->trackers\<close> points to, in the order of the \<open>next\<close> pointers; \<open>None\<close> while the
  pointer is indeterminate, as it stays when there is no tracker.\<close>

definition client_init_trackers ::
  "(discovered_peer_t \<Rightarrow> 'c \<Rightarrow> 'c res) \<Rightarrow> client_t \<Rightarrow> ('u, 'c) tracker_t list option \<Rightarrow>
     ('u, 'c) tracker_t list option res" where
  "client_init_trackers find_fn c trackers =
     rfold (\<lambda>i trackers.
       rbind (rd (t_tracker_urls (c_torrent c)) (int i)) (\<lambda>tracker_url.
       let tracker = new_tracker find_fn c tracker_url in
       Inr (if i = 0 then Some [tracker] else map_option (\<lambda>ts. ts @ [tracker]) trackers)))
     [0..<nat (t_tracker_count (c_torrent c))] trackers"

definition client_start_trackers ::
  "(bytes \<Rightarrow> 'u uri_t \<times> int) \<Rightarrow> (nat \<Rightarrow> nat) \<Rightarrow> ('u, 'c) tracker_t list option \<Rightarrow>
     ('u, 'c) tracker_t list option res" where
  "client_start_trackers uriParseUriA thread trackers =
     (case trackers of None \<Rightarrow> Inl UninitRead
      | Some ts \<Rightarrow>
          rmap Some (rmaps (\<lambda>(i, t). rmap fst (tracker_start uriParseUriA (thread i) t)) (enumerate 0 ts)))"

definition client_stop_trackers ::
  "bool \<Rightarrow> ('u, 'c) tracker_t list option \<Rightarrow> ('u, 'c) tracker_t list option res" where
  "client_stop_trackers force trackers =
     (case trackers of None \<Rightarrow> Inl UninitRead
      | Some ts \<Rightarrow> rmap Some (rmaps (\<lambda>t. rmap fst (tracker_stop force t)) ts))"

text \<open>The life of a tracker: the program starts and stops it, and its threads run.\<close>

datatype thread_state = Checking int | Announcing int | Sleeping int | Finished | Cancelled

record ('u, 'c) tracker_sys =
  sys_tracker :: "('u, 'c) tracker_t"
  sys_handle :: 'c
  sys_threads :: "nat \<rightharpoonup> thread_state"

text \<open>A call of \<open>tracker_start\<close>, with a new address for the thread handle, or of \<open>tracker_stop\<close>.\<close>

inductive main_step :: "(bytes \<Rightarrow> 'u uri_t \<times> int) \<Rightarrow> ('u, 'c) tracker_sys \<Rightarrow> ('u, 'c) tracker_sys \<Rightarrow> bool"
  for parse where
  start: "tracker_start parse a (sys_tracker s) = Inr (t, started) \<Longrightarrow> sys_threads s a = None \<Longrightarrow>
     main_step parse s (s\<lparr>sys_tracker := t,
       sys_threads := (if started then (sys_threads s)(a \<mapsto> Checking 0) else sys_threads s)\<rparr>)"
| stop: "tracker_stop force (sys_tracker s) = Inr (t, r, cancelled) \<Longrightarrow>
     main_step parse s (s\<lparr>sys_tracker := t,
       sys_threads := (case cancelled of None \<Rightarrow> sys_threads s | Some a \<Rightarrow> (sys_threads s)(a \<mapsto> Cancelled))\<rparr>)"

text \<open>A step of an update thread: the test of the loop, an announcement, the sleep.\<close>

inductive thread_step :: "('u, 'c) tracker_sys \<Rightarrow> ('u, 'c) tracker_sys \<Rightarrow> bool" where
  leave: "sys_threads s a = Some (Checking k) \<Longrightarrow> tr_stopped (sys_tracker s) \<Longrightarrow>
     thread_step s (s\<lparr>sys_threads := (sys_threads s)(a \<mapsto> Finished)\<rparr>)"
| poll: "sys_threads s a = Some (Checking k) \<Longrightarrow> \<not> tr_stopped (sys_tracker s) \<Longrightarrow>
     tr_poll_freq (sys_tracker s) \<noteq> 0 \<Longrightarrow> k smod tr_poll_freq (sys_tracker s) = 0 \<Longrightarrow>
     thread_step s (s\<lparr>sys_threads := (sys_threads s)(a \<mapsto> Announcing k)\<rparr>)"
| idle: "sys_threads s a = Some (Checking k) \<Longrightarrow> \<not> tr_stopped (sys_tracker s) \<Longrightarrow>
     tr_poll_freq (sys_tracker s) \<noteq> 0 \<Longrightarrow> k smod tr_poll_freq (sys_tracker s) \<noteq> 0 \<Longrightarrow>
     thread_step s (s\<lparr>sys_threads := (sys_threads s)(a \<mapsto> Sleeping k)\<rparr>)"
| announce: "sys_threads s a = Some (Announcing k) \<Longrightarrow>
     tracker_announce env (sys_tracker s) (sys_handle s) = Inr (t, c, x, r) \<Longrightarrow>
     thread_step s (s\<lparr>sys_tracker := t, sys_handle := c, sys_threads := (sys_threads s)(a \<mapsto> Sleeping k)\<rparr>)"
| sleep: "sys_threads s a = Some (Sleeping k) \<Longrightarrow> k < INT_MAX \<Longrightarrow>
     thread_step s (s\<lparr>sys_threads := (sys_threads s)(a \<mapsto> Checking (k + 1))\<rparr>)"

text \<open>The states a tracker made by \<open>client_init_trackers\<close> can reach.\<close>

inductive sys_reach :: "(bytes \<Rightarrow> 'u uri_t \<times> int) \<Rightarrow> ('u, 'c) tracker_sys \<Rightarrow> bool" for parse where
  fresh: "sys_reach parse \<lparr>sys_tracker = new_tracker f c url, sys_handle = h, sys_threads = Map.empty\<rparr>"
| main: "sys_reach parse s \<Longrightarrow> main_step parse s s' \<Longrightarrow> sys_reach parse s'"
| thread: "sys_reach parse s \<Longrightarrow> thread_step s s' \<Longrightarrow> sys_reach parse s'"

text \<open>\<open>client_find_peer\<close> as a callback: the state behind its handle is the client, together with
  the addresses that \<open>malloc\<close> will return and the number of calls so far.\<close>

type_synonym client_handle = "client_t \<times> (nat \<Rightarrow> ptr) \<times> nat"

definition find_peer_fn :: "discovered_peer_t \<Rightarrow> client_handle \<Rightarrow> client_handle res" where
  "find_peer_fn dp h = (case h of (c, malloc, n) \<Rightarrow>
     rmap (\<lambda>c. (c, malloc, Suc n)) (client_find_peer (malloc n) dp c))"

subsection \<open>Reporting peers to the client\<close>

text \<open>The addresses that \<open>k\<close> calls of the callback allocate.\<close>

abbreviation mallocs :: "(nat \<Rightarrow> ptr) \<Rightarrow> nat \<Rightarrow> nat \<Rightarrow> ptr list" where
  "mallocs malloc n k \<equiv> map malloc [n..<n + k]"

lemma mallocs_Suc: "mallocs malloc n (Suc k) = malloc n # mallocs malloc (Suc n) k"
  by (simp add: upt_conv_Cons del: upt_Suc)

lemma report_peers_appends:
  assumes "client_ok c ptrs" "distinct (ptrs @ mallocs malloc n (length peers))"
    and "\<And>p peer. p \<in> set (ptrs @ mallocs malloc n (length peers)) \<Longrightarrow> peer \<in> set peers \<Longrightarrow> ptr_as_ip p \<noteq> up_ip peer"
  shows "\<exists>c'. report_peers (Some find_peer_fn) peers (c, malloc, n) = Inr (c', malloc, n + length peers) \<and>
    client_ok c' (ptrs @ mallocs malloc n (length peers)) \<and>
    (\<forall>i < length peers. c_mem c' (malloc (n + i)) = Some (new_peer_record (discovered (peers ! i)))) \<and>
    (\<forall>p. p \<notin> set (mallocs malloc n (length peers)) \<longrightarrow> c_mem c' p = c_mem c p)"
  using assms
proof (induction peers arbitrary: c ptrs n)
  case Nil
  then show ?case by (simp add: report_peers_def)
next
  case (Cons peer peers)
  let ?a = "malloc n" and ?rest = "mallocs malloc (Suc n) (length peers)"
  have split: "mallocs malloc n (length (peer # peers)) = ?a # ?rest" 
    using mallocs_Suc [of malloc n "length peers"] by simp
  have fresh: "?a \<notin> set ptrs" "?a \<notin> set ?rest" using Cons.prems(2) unfolding split by auto
  have no_clash: "\<not> (\<exists>p \<in> set ptrs. ptr_as_ip p = dp_ip (discovered peer))"
    using Cons.prems(3) by (auto simp: discovered_def)
  obtain c1 where c1: "client_find_peer ?a (discovered peer) c = Inr c1" "client_ok c1 (ptrs @ [?a])"
      "c_mem c1 = (c_mem c)(?a \<mapsto> new_peer_record (discovered peer))"
    using find_peer_cases [OF Cons.prems(1) fresh(1), of "discovered peer"] no_clash by auto
  have d: "distinct ((ptrs @ [?a]) @ ?rest)" using Cons.prems(2) unfolding split by simp
  have ip: "ptr_as_ip p \<noteq> up_ip q" if "p \<in> set ((ptrs @ [?a]) @ ?rest)" "q \<in> set peers" for p q
    using Cons.prems(3) [of p q] that unfolding split by auto
  obtain c' where c': "report_peers (Some find_peer_fn) peers (c1, malloc, Suc n) = Inr (c', malloc, Suc n + length peers)"
      "client_ok c' ((ptrs @ [?a]) @ ?rest)"
      "\<forall>i < length peers. c_mem c' (malloc (Suc n + i)) = Some (new_peer_record (discovered (peers ! i)))"
      "\<forall>p. p \<notin> set ?rest \<longrightarrow> c_mem c' p = c_mem c1 p"
    using Cons.IH [OF c1(2) d ip] by blast
  have run: "report_peers (Some find_peer_fn) (peer # peers) (c, malloc, n) = Inr (c', malloc, n + length (peer # peers))"
    using c1(1) c'(1) by (simp add: report_peers_def find_peer_fn_def)
  have mem: "c_mem c' (malloc (n + i)) = Some (new_peer_record (discovered ((peer # peers) ! i)))"
    if "i < length (peer # peers)" for i
    using that c'(3,4) c1(3) fresh(2) by (cases i) (auto simp del: set_map)
  have other: "c_mem c' p = c_mem c p" if "p \<notin> set (?a # ?rest)" for p
    using that c'(4) c1(3) by auto
  show ?case unfolding split using run c'(2) mem other by auto
qed

text \<open>Without any condition on the addresses, the callback always succeeds.\<close>

definition handle_ok :: "client_handle \<Rightarrow> bool" where
  "handle_ok h \<longleftrightarrow> (\<exists>ptrs. list_ok (c_peers (fst h)) ptrs)"

lemma find_peer_fn_ok:
  assumes "handle_ok h"
  shows "\<exists>h'. find_peer_fn dp h = Inr h' \<and> handle_ok h'"
proof -
  obtain c malloc n where h: "h = (c, malloc, n)" by (cases h)
  obtain ptrs where ok: "list_ok (c_peers c) ptrs" using assms h by (auto simp: handle_ok_def)
  let ?P = "\<lambda>p. ptr_as_ip p = dp_ip dp"
  obtain st where st: "safe_find (\<lambda>p. Inr (?P p)) (c_peers c) = Inr (st, find ?P ptrs)" "list_ok st ptrs"
    using safe_find_ok(2) [OF ok find_seq_total, of ?P] by blast
  obtain st' where "list_append st (malloc n) = Inr st'" "list_ok st' (ptrs @ [malloc n])"
    using clist.ok_append [OF st(2)] by blast
  then show ?thesis
    using st h by (cases "find ?P ptrs") (auto simp: find_peer_fn_def client_find_peer_def handle_ok_def)
qed

lemma report_peers_ok:
  assumes "handle_ok h"
  shows "\<exists>h'. report_peers (Some find_peer_fn) peers h = Inr h' \<and> handle_ok h'"
proof -
  have "\<exists>h'. rfold (\<lambda>peer c. find_peer_fn (discovered peer) c) peers h = Inr h' \<and>
      (\<lambda>h (_ :: unit). handle_ok h) h' (fold (\<lambda>_ a. a) peers ())"
    by (rule rfold_refines) (use find_peer_fn_ok assms in auto)
  then show ?thesis by (simp add: report_peers_def)
qed

subsection \<open>The phases of an announcement over UDP\<close>

text \<open>The URL is that of a host and a decimal port, the host resolves and a socket can be made.\<close>

definition udp_reachable :: "'u tracker_env \<Rightarrow> bytes \<Rightarrow> bool" where
  "udp_reachable env url \<longleftrightarrow> env_socket env \<noteq> - 1 \<and>
     (\<exists>uri hr host pr ds ai. env_parse env url = (uri, 0) \<and> uri_hostText uri = Some hr \<and> delimits hr host \<and>
        0 \<notin> set host \<and> uri_portText uri = Some pr \<and> delimits pr ds \<and> list_all isdigit ds \<and>
        dec_from 0 ds \<le> INT_MAX \<and> env_getaddrinfo env host = (0, ai))"

lemma reachable_socket:
  assumes "udp_reachable env url"
  shows "\<exists>a. create_udp_socket (env_parse env) (env_getaddrinfo env) (env_socket env) url fd res_addr =
    Inr (0, env_socket env, Some a)"
proof -
  obtain uri hr host pr ds ai where r: "uri_hostText uri = Some hr" "delimits hr host" "0 \<notin> set host"
      "uri_portText uri = Some pr" "delimits pr ds" "list_all isdigit ds"
      "env_parse env url = (uri, 0)" "env_getaddrinfo env host = (0, ai)" "dec_from 0 ds \<le> INT_MAX"
    using assms by (auto simp: udp_reachable_def)
  show ?thesis
    using create_udp_socket_cases [where parse = "env_parse env" and url = url and resolve = "env_getaddrinfo env", OF r(1-8)] r(9) assms by (simp add: udp_reachable_def)
qed

definition connect_dgram :: "32 word \<Rightarrow> bytes" where
  "connect_dgram transaction_id = be64 MAGIC_CONNECTION_ID @ be32 CONNECTION_ACTION @ be32 transaction_id"

definition announce_dgram :: "64 word \<Rightarrow> 32 word \<Rightarrow> bytes \<Rightarrow> bytes" where
  "announce_dgram connection_id transaction_id info_hash =
     be64 connection_id @ be32 ANNOUNCE_ACTION @ be32 transaction_id @ info_hash @ CLIENT_PEER_ID @ be64 0 @
     be64 0 @ be64 0 @ be32 ANNOUNCE_EVENT_STARTED @ be32 0 @ be32 0 @ be32 (- 1) @ be16 0 @ be16 0"

lemma udp_connect_answered:
  assumes "tr_sock_fd t = - 1" "tr_url t = Some url" "udp_reachable env url"
    and "env_connect_resp env = Some (be32 a @ be32 tid @ be64 cid @ rest)"
  shows "\<exists>addr. udp_connect env t =
    (let t1 = t\<lparr>tr_sock_fd := env_socket env, tr_addr := addr\<rparr>; d = connect_dgram (env_rand_connect env) in
     if tid = env_rand_connect env then Inr (t1\<lparr>tr_connection_id := cid\<rparr>, [d], None) else Inr (t1, [d], Some (- 1)))"
proof -
  obtain addr where s: "create_udp_socket (env_parse env) (env_getaddrinfo env) (env_socket env) url (- 1) (tr_addr t) =
      Inr (0, env_socket env, Some addr)"
    using reachable_socket [OF assms(3)] by blast
  have r: "receive_connect_response res (env_connect_resp env) =
      Inr (res\<lparr>cres_action := a, cres_transaction_id := tid, cres_connection_id := cid\<rparr>, 16)" for res
    using connect_response_correct [of res a tid cid rest "[]"] assms(4) by simp
  show ?thesis
    using assms(1,2) s r
    by (intro exI [of _ "Some addr"])
      (simp add: udp_connect_def connect_request_layout Let_def CONNECT_RESPONSE_SIZE_def connect_dgram_def)
qed

lemma udp_connect_unanswered:
  assumes "tr_sock_fd t = - 1" "tr_url t = Some url" "udp_reachable env url"
    and "env_connect_resp env = None \<or> env_connect_resp env = Some d \<and> length d < 16"
  shows "udp_connect env t = Inl UninitRead"
proof -
  obtain addr where s: "create_udp_socket (env_parse env) (env_getaddrinfo env) (env_socket env) url (- 1) (tr_addr t) =
      Inr (0, env_socket env, Some addr)"
    using reachable_socket [OF assms(3)] by blast
  have "\<exists>n. receive_connect_response blank_connect_resp (env_connect_resp env) = Inr (blank_connect_resp, n) \<and> n < 16"
    using connect_response_correct [of blank_connect_resp 0 0 0 "[]" d] assms(4) by auto
  then obtain n where "receive_connect_response blank_connect_resp (env_connect_resp env) = Inr (blank_connect_resp, n)"
    "n < 16" by blast
  then show ?thesis
    using assms(1,2) s by (simp add: udp_connect_def connect_request_layout Let_def CONNECT_RESPONSE_SIZE_def)
qed

lemma udp_announce_answered:
  assumes "udp_connect env t = Inr (t', sent, None)" "t_info_hash (tr_torrent t') = Some ih" "length ih = 20"
    and "env_announce_resp env = Some (announce_bytes a tid iv l sd ps)" "ps \<noteq> []"
  shows "tracker_announce_udp env t c =
    rbind (report_peers (tr_find_fn t') (take 167 ps) c) (\<lambda>c.
      Inr (t', c, sent @ [announce_dgram (tr_connection_id t') (env_rand_announce env) ih], 0))"
proof -
  have "length CLIENT_PEER_ID = 20" by (simp add: CLIENT_PEER_ID_def lit_def)
  then show ?thesis
    using assms announce_response_peers [of blank_announce_resp a tid iv l sd ps]
    by (simp add: tracker_announce_udp_def announce_request_layout announce_req_def announce_dgram_def
        announce_result_def Let_def)
qed

subsection \<open>Polling\<close>

text \<open>An announcement that always succeeds and keeps an invariant; then the loop performs the
  announcements of exactly the multiples of the poll frequency, in order, until it reads that it was
  stopped.\<close>

locale polled =
  fixes announce :: "int \<Rightarrow> 's \<Rightarrow> 's res"
    and inv :: "'s \<Rightarrow> bool"
  assumes announce_ok: "inv s \<Longrightarrow> \<exists>s'. announce tick s = Inr s' \<and> inv s'"
begin

lemma poll_loop_runs:
  "inv s \<Longrightarrow> 0 < freq \<Longrightarrow> 0 \<le> tick \<Longrightarrow> tick + int n \<le> INT_MAX \<Longrightarrow>
     poll_loop announce freq (replicate n False @ True # rest) tick s =
       rfold announce (filter (\<lambda>k. freq dvd k) [tick..tick + int n - 1]) s"
proof (induction n arbitrary: tick s)
  case 0
  then show ?case by simp
next
  case (Suc n)
  have smod: "tick smod freq = 0 \<longleftrightarrow> freq dvd tick"
    using Suc.prems by (simp add: smod_mod_positive dvd_eq_mod_eq_0)
  have ticks: "[tick..tick + int (Suc n) - 1] = tick # [tick + 1..tick + 1 + int n - 1]"
    by (subst upto_rec1) (simp_all add: algebra_simps)
  obtain s1 where s1: "(if tick smod freq = 0 then announce tick s else Inr s) = Inr s1" "inv s1"
    using announce_ok [OF Suc.prems(1), of tick] Suc.prems(1) by (cases "tick smod freq = 0") auto
  have "poll_loop announce freq (replicate n False @ True # rest) (tick + 1) s1 =
      rfold announce (filter (\<lambda>k. freq dvd k) [tick + 1..tick + 1 + int n - 1]) s1"
    using Suc.IH [OF s1(2) Suc.prems(2), of "tick + 1"] Suc.prems by simp
  then show ?case using Suc.prems s1(1) unfolding ticks by (auto simp: smod split: if_splits)
qed

lemma poll_loop_continues:
  "inv s \<Longrightarrow> 0 < freq \<Longrightarrow> 0 \<le> tick \<Longrightarrow> tick + int n \<le> INT_MAX \<Longrightarrow>
     poll_loop announce freq (replicate n False) tick s = Inl NoFuel"
proof (induction n arbitrary: tick s)
  case 0
  then show ?case by simp
next
  case (Suc n)
  obtain s1 where "(if tick smod freq = 0 then announce tick s else Inr s) = Inr s1" "inv s1"
    using announce_ok [OF Suc.prems(1), of tick] Suc.prems(1) by (cases "tick smod freq = 0") auto
  then show ?case using Suc.IH [of s1 "tick + 1"] Suc.prems by simp
qed

end

text \<open>A UDP tracker that answers both requests, with at least one peer.\<close>

definition env_answers :: "'u tracker_env \<Rightarrow> bytes \<Rightarrow> bool" where
  "env_answers env url \<longleftrightarrow> udp_reachable env url \<and>
     (\<exists>r. uri_scheme_range (fst (env_parse env url)) = Some r \<and> delimits r (lit ''udp'')) \<and>
     (\<exists>a cid rest. env_connect_resp env = Some (be32 a @ be32 (env_rand_connect env) @ be64 cid @ rest)) \<and>
     (\<exists>a tid iv l sd ps. env_announce_resp env = Some (announce_bytes a tid iv l sd ps) \<and> ps \<noteq> [])"

definition poll_inv :: "('u, client_handle) poll_state \<Rightarrow> bool" where
  "poll_inv s \<longleftrightarrow> (case s of (env, t, h, sent) \<Rightarrow>
     handle_ok h \<and> tr_find_fn t = Some find_peer_fn \<and>
     (\<exists>ih. t_info_hash (tr_torrent t) = Some ih \<and> length ih = 20) \<and>
     (\<exists>url. tr_url t = Some url \<and> (\<forall>tick. env_answers (env tick) url)))"

text \<open>What a connection attempt leaves alone.\<close>

lemma udp_connect_frame:
  "udp_connect env t = Inr (t', sent, ret) \<Longrightarrow>
     tr_url t' = tr_url t \<and> tr_uri t' = tr_uri t \<and> tr_torrent t' = tr_torrent t \<and> tr_find_fn t' = tr_find_fn t \<and>
     tr_poll_freq t' = tr_poll_freq t \<and> tr_update_thread t' = tr_update_thread t \<and> tr_stopped t' = tr_stopped t"
  by (auto simp: udp_connect_def Let_def res_simps split: if_splits option.splits prod.splits)

lemma announce_frame:
  "tracker_announce env t c = Inr (t', c', x, r) \<Longrightarrow>
     tr_url t' = tr_url t \<and> tr_torrent t' = tr_torrent t \<and> tr_find_fn t' = tr_find_fn t \<and>
     tr_poll_freq t' = tr_poll_freq t \<and> tr_update_thread t' = tr_update_thread t \<and> tr_stopped t' = tr_stopped t"
  by (auto simp: tracker_announce_def tracker_announce_udp_def res_simps
      split: option.splits prod.splits if_splits dest!: udp_connect_frame)

lemma udp_connect_answers:
  assumes "tr_url t = Some url" "env_answers env url"
  shows "\<exists>t' sent. udp_connect env t = Inr (t', sent, None)"
proof (cases "tr_sock_fd t = - 1")
  case True
  obtain a cid rest where "env_connect_resp env = Some (be32 a @ be32 (env_rand_connect env) @ be64 cid @ rest)"
    using assms(2) by (auto simp: env_answers_def)
  from udp_connect_answered [OF True assms(1) _ this] show ?thesis
    using assms(2) by (auto simp: env_answers_def Let_def)
next
  case False
  then show ?thesis by (simp add: udp_connect_def)
qed

lemma announce_at_sends:
  assumes "poll_inv (env, t, h, log)" "udp_connect (env tick) t = Inr (t', sent, None)"
    and "t_info_hash (tr_torrent t) = Some ih"
  shows "\<exists>h'. announce_at tick (env, t, h, log) =
      Inr (env, t', h', log @ [UdpAnnounce (sent @ [announce_dgram (tr_connection_id t') (env_rand_announce (env tick)) ih]) 0]) \<and>
    (\<forall>log. poll_inv (env, t', h', log))"
proof -
  obtain url where t: "handle_ok h" "tr_find_fn t = Some find_peer_fn" "length ih = 20"
      "tr_url t = Some url" "\<forall>tick. env_answers (env tick) url"
    using assms(1,3) by (auto simp: poll_inv_def)
  note frame = udp_connect_frame [OF assms(2)]
  obtain a tid iv l sd ps where r: "env_announce_resp (env tick) = Some (announce_bytes a tid iv l sd ps)" "ps \<noteq> []"
    using t(5) unfolding env_answers_def by blast
  obtain h' where h': "report_peers (Some find_peer_fn) (take 167 ps) h = Inr h'" "handle_ok h'"
    using report_peers_ok [OF t(1)] by blast
  have udp: "tracker_announce_udp (env tick) t h =
      Inr (t', h', sent @ [announce_dgram (tr_connection_id t') (env_rand_announce (env tick)) ih], 0)"
    using udp_announce_answered [OF assms(2) _ t(3) r, of h] frame t(2) assms(3) h'(1) by simp
  obtain rng where "uri_scheme_range (fst (env_parse (env tick) url)) = Some rng" "delimits rng (lit ''udp'')"
    using t(5) unfolding env_answers_def by blast
  then have "uri_scheme (fst (env_parse (env tick) url)) = Inr (lit ''udp'')"
    by (simp add: uri_scheme_def textrange2str_delimits lit_def)
  then have "announce_at tick (env, t, h, log) =
      Inr (env, t', h', log @ [UdpAnnounce (sent @ [announce_dgram (tr_connection_id t') (env_rand_announce (env tick)) ih]) 0])"
    using udp t(4) by (auto simp: announce_at_def tracker_announce_def parse_uri_def case_prod_beta)
  moreover have "poll_inv (env, t', h', log)" for log
    using t frame h'(2) assms(3) by (auto simp: poll_inv_def)
  ultimately show ?thesis by blast
qed

lemma announce_at_inv:
  assumes "poll_inv s"
  shows "\<exists>s'. announce_at tick s = Inr s' \<and> poll_inv s'"
proof -
  obtain env t h log where s: "s = (env, t, h, log)" by (cases s)
  obtain ih url where t: "t_info_hash (tr_torrent t) = Some ih" "tr_url t = Some url" "env_answers (env tick) url"
    using assms s by (auto simp: poll_inv_def)
  obtain t' sent where "udp_connect (env tick) t = Inr (t', sent, None)"
    using udp_connect_answers [OF t(2,3)] by blast
  from announce_at_sends [OF assms [unfolded s] this t(1)] show ?thesis unfolding s by blast
qed

interpretation update_thread: polled announce_at poll_inv
  by unfold_locales (rule announce_at_inv)

text \<open>Once the socket is there, an announcement is one datagram.\<close>

lemma announcements_connected:
  "poll_inv (env, t, h, log) \<Longrightarrow> tr_sock_fd t \<noteq> - 1 \<Longrightarrow> t_info_hash (tr_torrent t) = Some ih \<Longrightarrow>
     \<exists>h'. rfold announce_at ks (env, t, h, log) = Inr (env, t, h', log @
         map (\<lambda>k. UdpAnnounce [announce_dgram (tr_connection_id t) (env_rand_announce (env k)) ih] 0) ks) \<and>
       (\<forall>log. poll_inv (env, t, h', log))"
proof (induction ks arbitrary: h log)
  case Nil
  then show ?case by (auto simp: poll_inv_def)
next
  case (Cons k ks)
  have "udp_connect (env k) t = Inr (t, [], None)" using Cons.prems(2) by (simp add: udp_connect_def)
  from announce_at_sends [OF Cons.prems(1) this Cons.prems(3)]
  obtain h1 where h1: "announce_at k (env, t, h, log) = Inr (env, t, h1,
      log @ [UdpAnnounce [announce_dgram (tr_connection_id t) (env_rand_announce (env k)) ih] 0])"
      "\<And>log. poll_inv (env, t, h1, log)" by auto
  let ?log = "log @ [UdpAnnounce [announce_dgram (tr_connection_id t) (env_rand_announce (env k)) ih] 0]"
  from Cons.IH [OF h1(2) Cons.prems(2,3), of ?log] show ?case unfolding rfold.simps h1(1) by simp
qed

lemma count_multiples:
  assumes "0 < freq"
  shows "int (length (filter (\<lambda>k. freq dvd k) [0..int n - 1])) = (int n + freq - 1) div freq"
proof (induction n)
  case 0
  then show ?case using assms by simp
next
  case (Suc n)
  have "[0..int (Suc n) - 1] = [0..int n - 1] @ [int n]" by (simp add: upto_rec2)
  moreover have "(int n + freq) div freq = (int n + freq - 1) div freq + (if freq dvd int n then 1 else 0)"
  proof (cases "freq dvd int n")
    case True
    then obtain q where q: "int n = freq * q" by (elim dvdE)
    have "(freq * q + freq) div freq = q + 1" using assms by simp
    moreover have "(freq * q + freq - 1) div freq = q"
      using assms by (intro int_div_pos_eq [where r = "freq - 1"]) auto
    ultimately show ?thesis using q True by simp
  next
    case False
    let ?q = "int n div freq" and ?r = "int n mod freq"
    have "?r \<noteq> 0" "0 \<le> ?r" using False assms by (simp_all add: dvd_eq_mod_eq_0)
    then have r: "0 < ?r" "?r < freq" using assms by (linarith, simp)
    have n: "int n = freq * ?q + ?r" by simp
    have "(int n + freq - 1) div freq = ?q + 1"
      using r n by (intro int_div_pos_eq [where r = "?r - 1"]) (auto simp: algebra_simps)
    moreover have "(int n + freq) div freq = ?q + 1" using assms by (intro div_add_self2) simp
    ultimately show ?thesis using False by simp
  qed
  ultimately show ?case using Suc by (simp add: algebra_simps)
qed

subsection \<open>The life of a tracker\<close>

definition sys_inv :: "('u, 'c) tracker_sys \<Rightarrow> bool" where
  "sys_inv s \<longleftrightarrow>
     dom (sys_threads s) = (case tr_update_thread (sys_tracker s) of None \<Rightarrow> {} | Some a \<Rightarrow> {a}) \<and>
     (\<forall>a. sys_threads s a = Some Finished \<or> sys_threads s a = Some Cancelled \<longrightarrow> tr_stopped (sys_tracker s))"

lemma main_step_inv: "main_step parse s s' \<Longrightarrow> sys_inv s \<Longrightarrow> sys_inv s'"
proof (induction rule: main_step.induct)
  case (start a s t started)
  then show ?case
    by (auto simp: sys_inv_def tracker_start_def Let_def split: option.splits if_splits)
next
  case (stop force s t r cancelled)
  then show ?case
    by (auto simp: sys_inv_def tracker_stop_def split: option.splits if_splits)
qed

lemma thread_step_inv: "thread_step s s' \<Longrightarrow> sys_inv s \<Longrightarrow> sys_inv s'"
proof (induction rule: thread_step.induct)
  case (announce s a k env t c x r)
  then show ?case
    using announce_frame [OF announce.hyps(2)] by (auto simp: sys_inv_def dom_def split: option.splits)
qed (auto simp: sys_inv_def dom_def split: option.splits)

lemma sys_reach_inv: "sys_reach parse s \<Longrightarrow> sys_inv s"
proof (induction rule: sys_reach.induct)
  case (fresh f c url h)
  then show ?case by (simp add: sys_inv_def new_tracker_def)
qed (auto intro: main_step_inv thread_step_inv)

text \<open>Once the tracker is stopped each step of the thread brings it closer to its end.\<close>

fun thread_rank :: "thread_state \<Rightarrow> nat" where
  "thread_rank (Announcing k) = 3"
| "thread_rank (Sleeping k) = 2"
| "thread_rank (Checking k) = 1"
| "thread_rank _ = 0"

definition sys_rank :: "('u, 'c) tracker_sys \<Rightarrow> nat" where
  "sys_rank s = (case tr_update_thread (sys_tracker s) of None \<Rightarrow> 0
     | Some a \<Rightarrow> (case sys_threads s a of None \<Rightarrow> 0 | Some st \<Rightarrow> thread_rank st))"

lemma sys_rank_le: "sys_rank s \<le> 3"
proof -
  have "thread_rank st \<le> 3" for st by (cases st) simp_all
  then show ?thesis by (simp add: sys_rank_def split: option.split)
qed

lemma thread_owner: "sys_inv s \<Longrightarrow> sys_threads s a = Some st \<Longrightarrow> tr_update_thread (sys_tracker s) = Some a"
proof -
  assume "sys_inv s" "sys_threads s a = Some st"
  then have "a \<in> (case tr_update_thread (sys_tracker s) of None \<Rightarrow> {} | Some a \<Rightarrow> {a})"
    unfolding sys_inv_def by blast
  then show ?thesis by (auto split: option.splits)
qed

lemma stopped_step:
  "thread_step s s' \<Longrightarrow> sys_inv s \<Longrightarrow> tr_stopped (sys_tracker s) \<Longrightarrow>
     tr_stopped (sys_tracker s') \<and> sys_rank s' < sys_rank s"
proof (induction rule: thread_step.induct)
  case (announce s a k env t c x r)
  moreover have "tr_update_thread (sys_tracker s) = Some a"
    using announce thread_owner by blast
  ultimately show ?case using announce_frame [OF announce.hyps(2)] by (auto simp: sys_rank_def)
next
  case (leave s a k)
  then have "tr_update_thread (sys_tracker s) = Some a" using thread_owner by blast
  then show ?case using leave by (simp add: sys_rank_def)
next
  case (sleep s a k)
  then have "tr_update_thread (sys_tracker s) = Some a" using thread_owner by blast
  then show ?case using sleep by (simp add: sys_rank_def)
qed auto

lemma stopped_steps:
  "(thread_step ^^ n) s s' \<Longrightarrow> sys_inv s \<Longrightarrow> tr_stopped (sys_tracker s) \<Longrightarrow>
     sys_inv s' \<and> tr_stopped (sys_tracker s') \<and> n + sys_rank s' \<le> sys_rank s"
proof (induction n arbitrary: s')
  case 0
  then show ?case by simp
next
  case (Suc n)
  then obtain u where u: "(thread_step ^^ n) s u" "thread_step u s'" by auto
  then show ?case
    using Suc.IH [OF u(1)] Suc.prems(2,3) stopped_step [OF u(2)] thread_step_inv [OF u(2)] by fastforce
qed

subsection \<open>The trackers of a client\<close>

lemma rmaps_map: "(\<And>x. x \<in> set xs \<Longrightarrow> f x = Inr (g x)) \<Longrightarrow> rmaps f xs = Inr (map g xs)"
  by (induction xs) simp_all

lemma rmaps_compose: "rmaps f (map g xs) = rmaps (\<lambda>x. f (g x)) xs"
  by (induction xs) simp_all

lemma init_trackers:
  "0 < n \<Longrightarrow> n \<le> length urls \<Longrightarrow>
     rfold (\<lambda>i trackers. rbind (rd urls (int i)) (\<lambda>url.
       let tr = new_tracker f c url in
       Inr (if i = 0 then Some [tr] else map_option (\<lambda>ts. ts @ [tr]) trackers))) [0..<n] trackers =
     Inr (Some (map (new_tracker f c) (take n urls)))"
proof (induction n)
  case 0
  then show ?case by simp
next
  case (Suc n)
  show ?case
  proof (cases "n = 0")
    case True
    then show ?thesis using Suc.prems by (cases urls) (simp_all add: Let_def rd_def)
  next
    case False
    then show ?thesis
      using Suc by (simp add: rfold_append Let_def take_Suc_conv_app_nth)
  qed
qed

text \<open>A tracker of the client after it was started, and after it was stopped.\<close>

definition started_tracker ::
  "(bytes \<Rightarrow> 'u uri_t \<times> int) \<Rightarrow> (discovered_peer_t \<Rightarrow> 'c \<Rightarrow> 'c res) \<Rightarrow> client_t \<Rightarrow> nat \<Rightarrow> bytes \<Rightarrow> ('u, 'c) tracker_t" where
  "started_tracker parse f c thread url =
     (new_tracker f c (Some url))\<lparr>tr_uri := Some (fst (parse url)), tr_update_thread := Some thread, tr_sock_fd := - 1\<rparr>"

text \<open>The three loops over the trackers.\<close>

lemma client_trackers_phases:
  assumes "t_tracker_urls (c_torrent c) = map Some us @ rest" "t_tracker_count (c_torrent c) = int (length us)" "us \<noteq> []"
    and ts_def: "ts = map (\<lambda>(i, u). started_tracker parse f c (thread i) u) (enumerate 0 us)"
  shows "client_init_trackers f c trackers = Inr (Some (map (\<lambda>u. new_tracker f c (Some u)) us))"
    and "client_start_trackers parse thread (Some (map (\<lambda>u. new_tracker f c (Some u)) us)) = Inr (Some ts)"
    and "client_stop_trackers force (Some ts) = Inr (Some (map (\<lambda>t. t\<lparr>tr_stopped := True\<rparr>) ts))"
proof -
  show "client_init_trackers f c trackers = Inr (Some (map (\<lambda>u. new_tracker f c (Some u)) us))"
    using init_trackers [of "length us" "map Some us @ rest" f c trackers] assms(1-3)
    by (simp add: client_init_trackers_def comp_def)
  have start: "rmap fst (tracker_start parse (thread i) (new_tracker f c (Some u))) = Inr (started_tracker parse f c (thread i) u)"
    for i u by (simp add: tracker_start_def new_tracker_def started_tracker_def parse_uri_def)
  have e: "enumerate 0 (map (\<lambda>u. new_tracker f c (Some u)) us) = map (\<lambda>(i, u). (i, new_tracker f c (Some u))) (enumerate 0 us)"
    by (simp add: enumerate_eq_zip zip_map2 comp_def)
  have "rmaps (\<lambda>(i, t). rmap fst (tracker_start parse (thread i) t)) (enumerate 0 (map (\<lambda>u. new_tracker f c (Some u)) us)) = Inr ts"
    unfolding e rmaps_compose ts_def by (rule rmaps_map) (auto simp: start)
  then show "client_start_trackers parse thread (Some (map (\<lambda>u. new_tracker f c (Some u)) us)) = Inr (Some ts)"
    by (simp add: client_start_trackers_def del: map_map)
  have "rmap fst (tracker_stop force (started_tracker parse f c a u)) =
      Inr ((started_tracker parse f c a u)\<lparr>tr_stopped := True\<rparr>)" for a u
    by (simp add: tracker_stop_def started_tracker_def new_tracker_def)
  then show "client_stop_trackers force (Some ts) = Inr (Some (map (\<lambda>t. t\<lparr>tr_stopped := True\<rparr>) ts))"
    unfolding client_stop_trackers_def option.case ts_def
    by (subst rmaps_map [where g = "\<lambda>t. t\<lparr>tr_stopped := True\<rparr>"]) auto
qed

subsection \<open>An environment that answers\<close>

definition example_env :: "unit tracker_env" where
  "example_env =
     \<lparr>env_parse = (\<lambda>_. (example_udp_uri, 0)),
      env_getaddrinfo = (\<lambda>_. (0, \<lparr>sin_family = 2, sin_port = 0, sin_addr = 1\<rparr>)), env_socket = 5,
      env_rand_connect = 7, env_rand_announce = 8, env_sendto = (\<lambda>d. int (length d)),
      env_connect_resp = Some (be32 0 @ be32 7 @ be64 99 @ []),
      env_announce_resp = Some (announce_bytes 1 8 0 0 0 [\<lparr>up_ip = 3, up_port = 6881\<rparr>]),
      env_http = example_http_lib\<rparr>"

definition example_torrent :: torrent_t where
  "example_torrent = blank_torrent\<lparr>t_info_hash := Some (replicate 20 1), t_tracker_count := 1,
     t_tracker_urls := [Some (lit ''udp://t:80'')]\<rparr>"

definition example_client :: client_t where
  "example_client = client_init \<lparr>cfg_tracker_poll_frequency = 30, cfg_peer_threads = 20, cfg_peer_timeout = 3,
     cfg_peer_id = CLIENT_PEER_ID\<rparr> example_torrent"

definition example_tracker :: "(unit, client_handle) tracker_t" where
  "example_tracker = started_tracker (env_parse example_env) find_peer_fn example_client 0 (lit ''udp://t:80'')"

lemmas example_defs = example_env_def example_torrent_def example_client_def example_tracker_def
  started_tracker_def new_tracker_def client_init_def

lemma example_reachable: "udp_reachable example_env (lit ''udp://t:80'')"
proof -
  obtain hr pr where r: "uri_hostText example_udp_uri = Some hr" "delimits hr (lit ''t'')"
      "uri_portText example_udp_uri = Some pr" "delimits pr (lit ''80'')"
    using example_udp_uri_ranges by blast
  moreover have "0 \<notin> set (lit ''t'')" "list_all isdigit (lit ''80'')" "dec_from 0 (lit ''80'') = 80"
    by (simp_all add: lit_def isdigit_def digit_val_def)
  ultimately show ?thesis unfolding udp_reachable_def
    by (intro conjI exI [of _ example_udp_uri] exI [of _ hr] exI [of _ "lit ''t''"] exI [of _ pr] exI [of _ "lit ''80''"]
        exI [of _ "\<lparr>sin_family = 2, sin_port = 0, sin_addr = 1\<rparr>"]) (simp_all add: example_env_def)
qed

lemma example_answers: "env_answers example_env (lit ''udp://t:80'')"
  using example_reachable example_udp_uri_ranges(1) unfolding env_answers_def
  by (auto simp: example_env_def intro!: exI)

lemma example_client_ok: "client_ok example_client []"
  unfolding example_client_def by (rule client_init_ok)

lemma example_poll_inv: "poll_inv ((\<lambda>_. example_env), example_tracker, (example_client, malloc, n), log)"
  using example_answers example_client_ok
  by (auto simp: poll_inv_def handle_ok_def client_ok_def example_tracker_def started_tracker_def new_tracker_def
      example_client_def example_torrent_def client_init_def)

subsection \<open>Properties\<close>

text \<open>C10: A first announcement over UDP. When the tracker can be reached and answers the
  connection request with its transaction id, and the announcement with at least one peer, exactly two
  datagrams are sent: the connection request and the announcement of the torrent's info hash
  under the connection id just received. The client then has the first 167 peers of
  the response at the end of its list, in order, with their address and port, and no other
  entry has changed (provided no new pointer has the bits of an address of the response).\<close>

theorem tracker_announce_reports_peers:
  assumes "tr_sock_fd t = - 1" and "tr_url t = Some url" and "udp_reachable env url"
    and "env_connect_resp env = Some (be32 a @ be32 (env_rand_connect env) @ be64 cid @ rest)"
    and "t_info_hash (tr_torrent t) = Some ih" and "length ih = 20" and "tr_find_fn t = Some find_peer_fn"
    and "env_announce_resp env = Some (announce_bytes b tid iv l sd ps)" and "ps \<noteq> []"
    and "k = min 167 (length ps)" and "client_ok c ptrs" and "distinct (ptrs @ mallocs malloc n k)"
    and "\<And>p peer. p \<in> set (ptrs @ mallocs malloc n k) \<Longrightarrow> peer \<in> set (take k ps) \<Longrightarrow> ptr_as_ip p \<noteq> up_ip peer"
  shows "\<exists>t' c'. tracker_announce_udp env t (c, malloc, n) =
      Inr (t', (c', malloc, n + k), [connect_dgram (env_rand_connect env), announce_dgram cid (env_rand_announce env) ih], 0) \<and>
    tr_sock_fd t' = env_socket env \<and> tr_connection_id t' = cid \<and> client_ok c' (ptrs @ mallocs malloc n k) \<and>
    (\<forall>i < k. c_mem c' (malloc (n + i)) = Some (new_peer_record (discovered (ps ! i)))) \<and>
    (\<forall>p. p \<notin> set (mallocs malloc n k) \<longrightarrow> c_mem c' p = c_mem c p)"
proof -
  obtain addr where conn: "udp_connect env t =
      Inr (t\<lparr>tr_sock_fd := env_socket env, tr_addr := addr, tr_connection_id := cid\<rparr>,
        [connect_dgram (env_rand_connect env)], None)"
    using udp_connect_answered [OF assms(1-4)] by (auto simp: Let_def)
  have len: "length (take 167 ps) = k" and tk: "take 167 ps = take k ps" using assms(10) by (simp_all add: min_def)
  obtain c' where c': "report_peers (Some find_peer_fn) (take 167 ps) (c, malloc, n) = Inr (c', malloc, n + k)"
      "client_ok c' (ptrs @ mallocs malloc n k)"
      "\<forall>i < k. c_mem c' (malloc (n + i)) = Some (new_peer_record (discovered (take 167 ps ! i)))"
      "\<forall>p. p \<notin> set (mallocs malloc n k) \<longrightarrow> c_mem c' p = c_mem c p"
    using report_peers_appends [OF assms(11), of malloc n "take 167 ps", unfolded len] assms(12,13) unfolding tk by blast
  have "tracker_announce_udp env t (c, malloc, n) =
      Inr (t\<lparr>tr_sock_fd := env_socket env, tr_addr := addr, tr_connection_id := cid\<rparr>, (c', malloc, n + k),
        [connect_dgram (env_rand_connect env), announce_dgram cid (env_rand_announce env) ih], 0)"
    using udp_announce_answered [OF conn _ assms(6,8,9), of "(c, malloc, n)"] assms(5,7) c'(1) by simp
  then show ?thesis using c' tk by auto
qed

theorem tracker_announce_reports_peers_witness:
  "\<exists>t' c'. tracker_announce_udp example_env example_tracker (example_client, (\<lambda>i. 16 + 64 * of_nat i), 0) =
     Inr (t', (c', (\<lambda>i. 16 + 64 * of_nat i), 1), [connect_dgram 7, announce_dgram 99 8 (replicate 20 1)], 0) \<and>
     client_ok c' [16]"
  using tracker_announce_reports_peers [of example_tracker "lit ''udp://t:80''" example_env 0 99 "[]" "replicate 20 1"
      1 8 0 0 0 "[\<lparr>up_ip = 3, up_port = 6881\<rparr>]" 1 example_client "[]" "\<lambda>i. 16 + 64 * of_nat i" 0,
      OF _ _ example_reachable]
    example_client_ok by (auto simp: example_defs ptr_as_ip_def)

text \<open>C37: A refused connection is forgotten. When the tracker answers the connection request with
  another transaction id, the announcement returns -1 but keeps the socket. The next one then
  skips the connection request and announces under the connection id the tracker structure had
  before, which is 0 for one from \<open>client_init_trackers\<close>. When no answer of 16 bytes arrives at all, the uninitialised response is
  compared.\<close>

theorem tracker_refused_connection:
  assumes "tr_sock_fd t = - 1" and "tr_url t = Some url" and "udp_reachable env1 url"
    and "t_info_hash (tr_torrent t) = Some ih" and "length ih = 20" and "tr_find_fn t = Some find_peer_fn" and "handle_ok h"
    and "env_announce_resp env2 = Some (announce_bytes b atid iv l sd ps)" and "ps \<noteq> []"
  shows "(\<forall>a tid cid rest.
      env_connect_resp env1 = Some (be32 a @ be32 tid @ be64 cid @ rest) \<and> tid \<noteq> env_rand_connect env1 \<longrightarrow>
      (\<exists>t1 t2 h2. tracker_announce_udp env1 t h = Inr (t1, h, [connect_dgram (env_rand_connect env1)], - 1) \<and>
         tr_sock_fd t1 = env_socket env1 \<and>
         tracker_announce_udp env2 t1 h =
           Inr (t2, h2, [announce_dgram (tr_connection_id t) (env_rand_announce env2) ih], 0))) \<and>
    (\<forall>d. env_connect_resp env1 = None \<or> env_connect_resp env1 = Some d \<and> length d < 16 \<longrightarrow>
       tracker_announce_udp env1 t h = Inl UninitRead)"
proof (intro conjI allI impI)
  fix a tid cid rest
  assume r: "env_connect_resp env1 = Some (be32 a @ be32 tid @ be64 cid @ rest) \<and> tid \<noteq> env_rand_connect env1"
  obtain addr where conn: "udp_connect env1 t =
      Inr (t\<lparr>tr_sock_fd := env_socket env1, tr_addr := addr\<rparr>, [connect_dgram (env_rand_connect env1)], Some (- 1))"
    using udp_connect_answered [OF assms(1-3) conjunct1 [OF r]] r by (auto simp: Let_def)
  let ?t1 = "t\<lparr>tr_sock_fd := env_socket env1, tr_addr := addr\<rparr>"
  have conn2: "udp_connect env2 ?t1 = Inr (?t1, [], None)"
    using assms(3) by (simp add: udp_connect_def udp_reachable_def)
  obtain h2 where "report_peers (Some find_peer_fn) (take 167 ps) h = Inr h2"
    using report_peers_ok [OF assms(7)] by blast
  then have "tracker_announce_udp env2 ?t1 h =
      Inr (?t1, h2, [announce_dgram (tr_connection_id t) (env_rand_announce env2) ih], 0)"
    using udp_announce_answered [OF conn2 _ assms(5,8,9), of h] assms(4,6) by simp
  moreover have "tracker_announce_udp env1 t h = Inr (?t1, h, [connect_dgram (env_rand_connect env1)], - 1)"
    using conn by (simp add: tracker_announce_udp_def)
  ultimately show "\<exists>t1 t2 h2. tracker_announce_udp env1 t h = Inr (t1, h, [connect_dgram (env_rand_connect env1)], - 1) \<and>
      tr_sock_fd t1 = env_socket env1 \<and>
      tracker_announce_udp env2 t1 h = Inr (t2, h2, [announce_dgram (tr_connection_id t) (env_rand_announce env2) ih], 0)"
    by (intro exI [of _ ?t1] exI [of _ h2]) simp
next
  fix d
  assume "env_connect_resp env1 = None \<or> env_connect_resp env1 = Some d \<and> length d < 16"
  from udp_connect_unanswered [OF assms(1-3) this] show "tracker_announce_udp env1 t h = Inl UninitRead"
    by (simp add: tracker_announce_udp_def)
qed

theorem tracker_refused_connection_witness:
  "\<exists>t1 t2 h2. tracker_announce_udp (example_env\<lparr>env_rand_connect := 1\<rparr>) example_tracker (example_client, (\<lambda>_. 16), 0) =
       Inr (t1, (example_client, (\<lambda>_. 16), 0), [connect_dgram 1], - 1) \<and>
     tracker_announce_udp example_env t1 (example_client, (\<lambda>_. 16), 0) =
       Inr (t2, h2, [announce_dgram 0 8 (replicate 20 1)], 0)"
proof -
  have "handle_ok (example_client, (\<lambda>_. 16), 0)"
    using example_client_ok by (auto simp: handle_ok_def client_ok_def)
  moreover have "udp_reachable (example_env\<lparr>env_rand_connect := 1\<rparr>) (lit ''udp://t:80'')"
    using example_reachable by (simp add: udp_reachable_def)
  ultimately show ?thesis
    using tracker_refused_connection [of example_tracker "lit ''udp://t:80''" "example_env\<lparr>env_rand_connect := 1\<rparr>"
        "replicate 20 1" "(example_client, (\<lambda>_. 16), 0)" example_env 1 8 0 0 0 "[\<lparr>up_ip = 3, up_port = 6881\<rparr>]"]
    by (force simp: example_defs)
qed

text \<open>C17: The update thread of a tracker that has just been started, with a server that answers at every
  tick. For every poll frequency above 0, the thread that reads \<open>stopped\<close> as set in round \<open>n\<close>
  returns, and what it has sent is this: at tick 0 the connection request and an announcement, and
  one announcement at each other tick below \<open>n\<close> that is a multiple of the frequency, all with
  the torrent's info hash, under the connection id received at tick 0; that is
  \<open>\<lceil>n / freq\<rceil>\<close> announcements. Until it reads \<open>stopped\<close> as set it goes on. A frequency of 0
  divides by zero in the first round.\<close>

theorem tracker_update_schedule:
  assumes "poll_inv (env, t, h, [])" and "int n \<le> INT_MAX" and "tr_sock_fd t = - 1"
    and "t_info_hash (tr_torrent t) = Some ih"
    and "env_connect_resp (env 0) = Some (be32 a @ be32 (env_rand_connect (env 0)) @ be64 cid @ crest)"
  shows "(0 < tr_poll_freq t \<longrightarrow>
      (\<exists>t' h' sent. tracker_update_routine env (replicate n False @ True # rest) t h = Inr (env, t', h', sent) \<and>
         sent = map (\<lambda>k. UdpAnnounce ((if k = 0 then [connect_dgram (env_rand_connect (env 0))] else []) @
             [announce_dgram cid (env_rand_announce (env k)) ih]) 0)
           (filter (\<lambda>k. tr_poll_freq t dvd k) [0..int n - 1]) \<and>
         int (length sent) = (int n + tr_poll_freq t - 1) div tr_poll_freq t \<and> poll_inv (env, t', h', sent)) \<and>
      tracker_update_routine env (replicate n False) t h = Inl NoFuel) \<and>
    (tr_poll_freq t = 0 \<longrightarrow> tracker_update_routine env (False # rest) t h = Inl DivByZero)"
proof (intro conjI impI)
  assume f: "0 < tr_poll_freq t"
  let ?freq = "tr_poll_freq t"
  let ?msg = "\<lambda>k. UdpAnnounce ((if k = 0 then [connect_dgram (env_rand_connect (env 0))] else []) @
      [announce_dgram cid (env_rand_announce (env k)) ih]) 0"
  have run: "tracker_update_routine env (replicate n False @ True # rest) t h =
      rfold announce_at (filter (\<lambda>k. ?freq dvd k) [0..int n - 1]) (env, t, h, [])"
    using update_thread.poll_loop_runs [OF assms(1) f, of 0 n rest] assms(2)
    by (simp add: tracker_update_routine_def)
  have "\<exists>t' h'. rfold announce_at (filter (\<lambda>k. ?freq dvd k) [0..int n - 1]) (env, t, h, []) =
      Inr (env, t', h', map ?msg (filter (\<lambda>k. ?freq dvd k) [0..int n - 1])) \<and> (\<forall>log. poll_inv (env, t', h', log))"
  proof (cases "n = 0")
    case True
    then show ?thesis using assms(1) by (auto simp: poll_inv_def)
  next
    case False
    obtain url where url: "tr_url t = Some url" "env_answers (env 0) url" using assms(1) by (auto simp: poll_inv_def)
    then have reach: "udp_reachable (env 0) url" by (simp add: env_answers_def)
    obtain addr where conn: "udp_connect (env 0) t =
        Inr (t\<lparr>tr_sock_fd := env_socket (env 0), tr_addr := addr, tr_connection_id := cid\<rparr>,
          [connect_dgram (env_rand_connect (env 0))], None)"
      using udp_connect_answered [OF assms(3) url(1) reach assms(5)] by (auto simp: Let_def)
    let ?t = "t\<lparr>tr_sock_fd := env_socket (env 0), tr_addr := addr, tr_connection_id := cid\<rparr>"
    obtain h1 where h1: "announce_at 0 (env, t, h, []) = Inr (env, ?t, h1, [?msg 0])" "poll_inv (env, ?t, h1, [?msg 0])"
      using announce_at_sends [OF assms(1) conn assms(4)] by auto
    have fd: "tr_sock_fd ?t \<noteq> - 1" using reach by (simp add: udp_reachable_def)
    have ticks: "[0..int n - 1] = 0 # [1..int n - 1]" using False by (subst upto_rec1) simp_all
    have later: "map ?msg (filter (\<lambda>k. ?freq dvd k) [1..int n - 1]) =
        map (\<lambda>k. UdpAnnounce [announce_dgram cid (env_rand_announce (env k)) ih] 0) (filter (\<lambda>k. ?freq dvd k) [1..int n - 1])"
      by (rule map_cong) auto
    from announcements_connected [OF h1(2) fd, of ih "filter (\<lambda>k. ?freq dvd k) [1..int n - 1]"] assms(4)
    obtain h2 where "rfold announce_at (filter (\<lambda>k. ?freq dvd k) [1..int n - 1]) (env, ?t, h1, [?msg 0]) =
        Inr (env, ?t, h2, [?msg 0] @ map ?msg (filter (\<lambda>k. ?freq dvd k) [1..int n - 1]))"
        "\<forall>log. poll_inv (env, ?t, h2, log)"
      unfolding later by auto
    then show ?thesis unfolding ticks using h1(1) by (intro exI [of _ ?t] exI [of _ h2]) simp
  qed
  then show "\<exists>t' h' sent. tracker_update_routine env (replicate n False @ True # rest) t h = Inr (env, t', h', sent) \<and>
      sent = map ?msg (filter (\<lambda>k. ?freq dvd k) [0..int n - 1]) \<and>
      int (length sent) = (int n + ?freq - 1) div ?freq \<and> poll_inv (env, t', h', sent)"
    unfolding run using count_multiples [OF f, of n] by auto
  show "tracker_update_routine env (replicate n False) t h = Inl NoFuel"
    using update_thread.poll_loop_continues [OF assms(1) f, of 0 n] assms(2) by (simp add: tracker_update_routine_def)
qed (simp add: tracker_update_routine_def)

theorem tracker_update_schedule_witness:
  "\<exists>t' h'. tracker_update_routine (\<lambda>_. example_env) (replicate 61 False @ [True]) example_tracker
     (example_client, (\<lambda>_. 16), 0) = Inr ((\<lambda>_. example_env), t', h',
       [UdpAnnounce [connect_dgram 7, announce_dgram 99 8 (replicate 20 1)] 0,
        UdpAnnounce [announce_dgram 99 8 (replicate 20 1)] 0, UdpAnnounce [announce_dgram 99 8 (replicate 20 1)] 0])"
proof -
  have f: "tr_poll_freq example_tracker = 30" "tr_sock_fd example_tracker = - 1"
      "t_info_hash (tr_torrent example_tracker) = Some (replicate 20 1)"
      "env_connect_resp example_env = Some (be32 0 @ be32 (env_rand_connect example_env) @ be64 99 @ [])"
      "env_rand_connect example_env = 7" "env_rand_announce example_env = 8"
    by (simp_all add: example_defs)
  have "filter (\<lambda>k. (30 :: int) dvd k) [0..int 61 - 1] = [0, 30, 60]" by code_simp
  then show ?thesis
    using tracker_update_schedule [OF example_poll_inv [of "\<lambda>_. 16" 0] _ f(2-4), of 61 "[]"]
    unfolding f(1,5,6) by auto
qed

text \<open>C18: Whatever the order in which a tracker is started, stopped (gracefully or by force) and
  its threads run, there is at most one update thread for it; it exists exactly when a thread
  handle is stored, it has ended or been cancelled only if the tracker was stopped, and a
  tracker that was ever started cannot be started again.\<close>

theorem tracker_lifecycle:
  assumes "sys_reach parse s"
  shows "dom (sys_threads s) = (case tr_update_thread (sys_tracker s) of None \<Rightarrow> {} | Some a \<Rightarrow> {a}) \<and>
    (\<forall>a. sys_threads s a \<in> {Some Finished, Some Cancelled} \<longrightarrow> tr_stopped (sys_tracker s)) \<and>
    (\<forall>a. dom (sys_threads s) \<noteq> {} \<longrightarrow> (\<exists>t. tracker_start parse a (sys_tracker s) = Inr (t, False)))"
  using sys_reach_inv [OF assms]
  by (auto simp: sys_inv_def tracker_start_def Let_def split: option.splits)

theorem tracker_lifecycle_witness:
  "\<exists>s :: (unit, unit) tracker_sys. sys_reach (env_parse example_env) s \<and> sys_threads s 3 = Some (Checking 0) \<and>
     dom (sys_threads s) = {3}"
proof -
  let ?t = "new_tracker (\<lambda>_. Inr) example_client (Some []) :: (unit, unit) tracker_t"
  let ?s = "\<lparr>sys_tracker = ?t, sys_handle = (), sys_threads = Map.empty\<rparr>"
  obtain t where t: "tracker_start (env_parse example_env) 3 ?t = Inr (t, True)" "tr_update_thread t = Some 3"
    by (simp add: tracker_start_def new_tracker_def)
  let ?s' = "?s\<lparr>sys_tracker := t, sys_threads := [3 \<mapsto> Checking 0]\<rparr>"
  have r: "sys_reach (env_parse example_env) ?s'"
    using sys_reach.main [OF sys_reach.fresh main_step.start] t(1) by fastforce
  show ?thesis using tracker_lifecycle [OF r] r t(2) by (intro exI [of _ ?s']) simp
qed

text \<open>C19: Stopping a tracker ends its thread: from a reachable state in which the tracker is
  stopped, the update thread makes at most three more steps and never starts another
  announcement; a thread at the test of its loop can leave it at once.\<close>

theorem tracker_stop_ends:
  assumes "sys_reach parse s" and "tr_stopped (sys_tracker s)" and "(thread_step ^^ n) s s'"
  shows "n \<le> 3 \<and> tr_stopped (sys_tracker s') \<and>
    (\<forall>s'' a k. thread_step s' s'' \<longrightarrow> sys_threads s'' a = Some (Announcing k) \<longrightarrow> sys_threads s' a = Some (Announcing k)) \<and>
    (\<forall>a k. sys_threads s' a = Some (Checking k) \<longrightarrow>
       thread_step s' (s'\<lparr>sys_threads := (sys_threads s')(a \<mapsto> Finished)\<rparr>))"
proof -
  have s': "tr_stopped (sys_tracker s')" "n + sys_rank s' \<le> 3"
    using stopped_steps [OF assms(3) sys_reach_inv [OF assms(1)] assms(2)] sys_rank_le [of s] by auto
  moreover have "sys_threads s' a = Some (Announcing k)"
    if "thread_step s' s''" "sys_threads s'' a = Some (Announcing k)" for s'' a k
    using that s'(1) by (cases rule: thread_step.cases) (auto split: if_splits)
  ultimately show ?thesis by (auto intro: thread_step.leave)
qed

theorem tracker_stop_ends_witness:
  "\<exists>s s' :: (unit, unit) tracker_sys. sys_reach (env_parse example_env) s \<and> (thread_step ^^ 1) s s' \<and>
     sys_threads s 3 = Some (Checking 0) \<and> sys_threads s' 3 = Some Finished \<and> tr_stopped (sys_tracker s') \<and> 1 \<le> (3 :: nat)"
proof -
  let ?t = "new_tracker (\<lambda>_. Inr) example_client (Some []) :: (unit, unit) tracker_t"
  let ?s = "\<lparr>sys_tracker = ?t, sys_handle = (), sys_threads = Map.empty\<rparr>"
  obtain t where t: "tracker_start (env_parse example_env) 3 ?t = Inr (t, True)" "tr_stopped t = False"
    by (simp add: tracker_start_def new_tracker_def)
  let ?s1 = "?s\<lparr>sys_tracker := t, sys_threads := [3 \<mapsto> Checking 0]\<rparr>"
  let ?s2 = "?s1\<lparr>sys_tracker := t\<lparr>tr_stopped := True\<rparr>\<rparr>" and ?f = "[3 \<mapsto> Finished]"
  have r1: "sys_reach (env_parse example_env) ?s1"
    using sys_reach.main [OF sys_reach.fresh main_step.start] t(1) by fastforce
  have "main_step (env_parse example_env) ?s1 ?s2"
    using main_step.stop [of False ?s1 "t\<lparr>tr_stopped := True\<rparr>" True None] t(2) by (simp add: tracker_stop_def)
  then have r2: "sys_reach (env_parse example_env) ?s2" using r1 sys_reach.main by blast
  have st: "(thread_step ^^ 1) ?s2 (?s2\<lparr>sys_threads := ?f\<rparr>)"
    using thread_step.leave [of ?s2 3 0] by (simp add: eq_OO)
  have "1 \<le> (3 :: nat) \<and> tr_stopped (sys_tracker (?s2\<lparr>sys_threads := ?f\<rparr>))"
    using tracker_stop_ends [OF r2 _ st] by simp
  with r2 st show ?thesis by (intro exI [of _ ?s2] exI [of _ "?s2\<lparr>sys_threads := ?f\<rparr>"]) simp
qed

text \<open>C31: The trackers of a client. For a torrent with \<open>n > 0\<close> tracker URLs, the client gets one
  tracker per URL in order; starting them gives each a thread of its own, a parsed URL and no
  socket, and stopping them marks all as stopped. With no URL the head of the list is never
  set, and starting the trackers follows an indeterminate pointer.\<close>

theorem client_trackers_run:
  assumes "t_tracker_urls (c_torrent c) = map Some us @ rest" and "t_tracker_count (c_torrent c) = int (length us)"
  shows "(us \<noteq> [] \<longrightarrow> (\<exists>ts1 ts2.
      client_init_trackers f c trackers = Inr ts1 \<and> client_start_trackers parse thread ts1 = Inr (Some ts2) \<and>
      ts2 = map (\<lambda>(i, u). started_tracker parse f c (thread i) u) (enumerate 0 us) \<and>
      client_stop_trackers force (Some ts2) = Inr (Some (map (\<lambda>t. t\<lparr>tr_stopped := True\<rparr>) ts2)))) \<and>
    (us = [] \<longrightarrow> client_init_trackers f c None = Inr None \<and>
      client_start_trackers parse thread (None :: ('u, 'c) tracker_t list option) = Inl UninitRead)"
proof (intro conjI impI)
  assume ne: "us \<noteq> []"
  note phases = client_trackers_phases [OF assms ne refl]
  show "\<exists>ts1 ts2. client_init_trackers f c trackers = Inr ts1 \<and> client_start_trackers parse thread ts1 = Inr (Some ts2) \<and>
      ts2 = map (\<lambda>(i, u). started_tracker parse f c (thread i) u) (enumerate 0 us) \<and>
      client_stop_trackers force (Some ts2) = Inr (Some (map (\<lambda>t. t\<lparr>tr_stopped := True\<rparr>) ts2))"
    using phases by blast
qed (use assms in \<open>simp_all add: client_init_trackers_def client_start_trackers_def\<close>)

theorem client_trackers_run_witness:
  "\<exists>ts. client_start_trackers (env_parse example_env) (\<lambda>i. i)
     (Some [new_tracker find_peer_fn example_client (Some (lit ''udp://t:80''))]) = Inr (Some [example_tracker]) \<and>
     client_init_trackers find_peer_fn example_client None = Inr ts"
  using client_trackers_run [of example_client "[lit ''udp://t:80'']" "[]" find_peer_fn None "env_parse example_env" "\<lambda>i. i" False]
  by (auto simp: client_init_trackers_def example_defs rd_def Let_def)

text \<open>C38: An announcement over HTTP does not send the info hash. The hash is handed to the escaping
  function as a C string, which it is not: one without a zero byte is sent with the 20
  characters of the peer id appended, and one with a zero byte only up to that byte.\<close>

theorem http_announce_hash_wrong:
  assumes "tracker_announce_http env t = Inr (x, r)" and "t_info_hash (tr_torrent t) = Some ih" and "length ih = 20"
    and "escape_ok esc" and "esc = lib_uriEscapeA (env_http env)"
  shows "hd (hx_query x) =
    (lit ''info_hash'', esc (if 0 \<in> set ih then cstr ih else ih @ CLIENT_PEER_ID)) \<and> r = 0"
proof -
  let ?req = "http_announce_req ih"
  have pid: "0 \<notin> set CLIENT_PEER_ID" "list_all alnum CLIENT_PEER_ID" "length CLIENT_PEER_ID = 20"
    by (simp_all add: CLIENT_PEER_ID_def lit_def alnum_def)
  have image: "c_string_at (http_req_image ?req) 0 = Inr (if 0 \<in> set ih then cstr ih else ih @ CLIENT_PEER_ID)"
    "c_string_at (http_req_image ?req) 20 = Inr CLIENT_PEER_ID"
    using req_image_strings [of ?req] pid(1) assms(3) by (simp_all add: http_announce_req_def)
  have "length (cstr ih) \<le> 20" using length_takeWhile_le [of "\<lambda>b. b \<noteq> 0" ih] assms(3) by (simp add: cstr_def)
  moreover note escape_ok_length [OF assms(4), of "cstr ih"]
  moreover have "length (esc ih) \<le> 60" using escape_ok_length [OF assms(4), of ih] assms(3) by simp
  ultimately have fits: "length (esc (if 0 \<in> set ih then cstr ih else ih @ CLIENT_PEER_ID)) < 120"
    "length (esc CLIENT_PEER_ID) < 120"
    using pid by (simp_all add: escape_ok_append [OF assms(4)] escape_ok_alnum [OF assms(4)])
  obtain h n where b: "build_query esc ?req = Inr ((h, n), 0)" "query_items n h (Some 0) =
      Inr (request_items ?req (esc (if 0 \<in> set ih then cstr ih else ih @ CLIENT_PEER_ID)) (esc CLIENT_PEER_ID))"
    using build_query_items [OF escape_field_fits [OF assms(4) image(1) fits(1)] escape_field_fits [OF assms(4) image(2) fits(2)]]
    by blast
  have "rds ih 0 20 = Inr ih" using assms(3) by (simp add: rds_def)
  then obtain uri r' where req: "http_tracker_request (env_http env) uri ?req = Inr (r', x)" "r = 0"
    using assms(1,2)
    by (auto simp: tracker_announce_http_def rbind_eq_Inr split: option.splits prod.splits)
  show ?thesis
    using http_request_items [OF req(1) b(1) [unfolded assms(5)] b(2) [unfolded assms(5)]] req(2)
    by (simp add: request_items_def assms(5))
qed

theorem http_announce_hash_wrong_witness:
  "\<exists>x. tracker_announce_http example_env (example_tracker\<lparr>tr_uri := Some example_udp_uri\<rparr>) = Inr (x, 0) \<and>
     hd (hx_query x) = (lit ''info_hash'', percent_escape (replicate 20 1 @ CLIENT_PEER_ID))"
proof -
  let ?t = "example_tracker\<lparr>tr_uri := Some example_udp_uri\<rparr>"
  obtain x r where x: "tracker_announce_http example_env ?t = Inr (x, r)"
    using example_request_returns [of example_udp_uri]
    by (auto simp: tracker_announce_http_def example_defs rds_def http_announce_req_def CLIENT_PEER_ID_def
        example_http_request_def)
  then show ?thesis
    using http_announce_hash_wrong [OF x, of "replicate 20 1" percent_escape] percent_escape_ok
    by (auto simp: example_defs example_http_lib_def)
qed

end
