(* ===== verification/Flood_Lock.thy ===== *)
theory Flood_Lock
  imports Flood_Prelude
begin

section \<open>Threads and a mutex\<close>

text \<open>
  The contract of a system of threads that share one mutex, and what follows from it. A step is
  made by one thread and leaves the others where they are; a thread that comes inside found the
  mutex free and takes it, one that goes out releases it, and a step that does neither leaves it as it was.
  The contract may rest on a property \<open>good\<close> of the states that the steps keep.
\<close>

locale lock_protocol =
  fixes step :: "'i \<Rightarrow> 's \<Rightarrow> 's \<Rightarrow> bool"
    and inside :: "'s \<Rightarrow> 'i \<Rightarrow> bool"
    and locked :: "'s \<Rightarrow> bool"
    and good :: "'s \<Rightarrow> bool"
  assumes good_step: "good s \<Longrightarrow> step i s s' \<Longrightarrow> good s'"
    and others_stay: "good s \<Longrightarrow> step i s s' \<Longrightarrow> j \<noteq> i \<Longrightarrow> inside s' j = inside s j"
    and enters: "good s \<Longrightarrow> step i s s' \<Longrightarrow> \<not> inside s i \<Longrightarrow> inside s' i \<Longrightarrow> \<not> locked s \<and> locked s'"
    and leaves: "good s \<Longrightarrow> step i s s' \<Longrightarrow> inside s i \<Longrightarrow> \<not> inside s' i \<Longrightarrow> \<not> locked s'"
    and stays: "good s \<Longrightarrow> step i s s' \<Longrightarrow> inside s' i = inside s i \<Longrightarrow> locked s' = locked s"
begin

definition excl :: "'s \<Rightarrow> bool" where
  "excl s \<longleftrightarrow> (if locked s then \<exists>i. inside s i \<and> (\<forall>j. inside s j \<longrightarrow> j = i) else \<forall>j. \<not> inside s j)"

lemma excl_unique: "excl s \<Longrightarrow> inside s i \<Longrightarrow> inside s j \<Longrightarrow> i = j"
  by (metis excl_def)

lemma excl_locked: "excl s \<Longrightarrow> locked s \<longleftrightarrow> (\<exists>i. inside s i)"
  by (metis excl_def)

lemma excl_free: "(\<And>i. \<not> inside s i) \<Longrightarrow> \<not> locked s \<Longrightarrow> excl s"
  by (simp add: excl_def)

lemma step_excl:
  assumes "good s" "excl s" "step i s s'"
  shows "excl s'"
proof (cases "inside s i \<longleftrightarrow> inside s' i")
  case True
  then have "inside s' = inside s" using others_stay [OF assms(1,3)] by fastforce
  then show ?thesis using stays [OF assms(1,3)] assms(2) by (simp add: excl_def)
next
  case change: False
  show ?thesis
  proof (cases "inside s i")
    case True
    then have "\<not> inside s j" if "j \<noteq> i" for j using excl_unique [OF assms(2)] that by blast
    then have "\<not> inside s' j" for j using others_stay [OF assms(1,3), of j] change True by (cases "j = i") simp_all
    moreover have "\<not> locked s'" using leaves [OF assms(1,3) True] change True by blast
    ultimately show ?thesis by (rule excl_free)
  next
    case False
    then have l: "\<not> locked s" "locked s'" using enters [OF assms(1,3)] change by auto
    then have "\<not> inside s j" for j using excl_locked [OF assms(2)] by blast
    then have "\<forall>j. inside s' j \<longrightarrow> j = i" using others_stay [OF assms(1,3)] by blast
    moreover have "inside s' i" using change False by simp
    ultimately show ?thesis using l(2) unfolding excl_def by (simp only: if_True) blast
  qed
qed

lemma run_excl:
  assumes "good s \<and> excl s" "(\<lambda>s s'. \<exists>i. step i s s')\<^sup>*\<^sup>* s s'"
  shows "good s' \<and> excl s'"
  using assms(2,1) by (induction rule: rtranclp_induct) (auto intro: good_step step_excl)

end

end
