(* ===== verification/Flood_Threads.thy ===== *)
theory Flood_Threads
  imports Flood_Tracker Flood_Lock
begin

section \<open>The threads and the peer list they share (src/client.c, src/main.c)\<close>

text \<open>
  The peer threads run \<open>peer_thread_routine\<close> on one client, the threads of the trackers call
  \<open>client_find_peer\<close>, and the main thread counts peers every two seconds. \<open>swarm_step n\<close> is the
  interleaving of \<open>n\<close> peer threads, any number of tracker threads and the main thread; each step
  is labelled with the thread that makes it. A peer thread is at one of the places of its loop
  (\<open>peer_pc\<close>), the main thread at one of its own (\<open>main_pc\<close>). The three loops over the list (the search
  for a new peer, \<open>calculate_total_availability\<close>, the count of the main thread) go one element at
  a time, under the mutex of the list; the mark of the selected peer is a step of its own after
  the mutex was released, as in the source. A call of \<open>client_find_peer\<close> is two steps, because
  it releases the mutex between its search and its append; the search, which reads nothing but the
  locked list, is one step. \<open>peer_update_bitfield\<close> is two steps, with the mutex not involved:
  the old bitfield is freed, then the new pointer, contents and length are there; in between
  (\<open>torn\<close>) another thread that reads the bitfield may read anything, for which the
  model takes any value.
  A step that asks for a held mutex cannot happen until it is free. The status of a new peer is
  not initialised in the source: a test of it may come out either way.
\<close>

subsection \<open>States and steps\<close>

text \<open>\<open>Counting m\<close>: in \<open>calculate_total_availability\<close>, with the master bitfield so far;
  \<open>Replacing p len bf\<close>: in \<open>peer_update_bitfield\<close>, after the \<open>free\<close>.\<close>

datatype peer_pc =
    AtTop
  | AtLock
  | Scanning
  | Selected ptr
  | Connecting ptr
  | Messaging ptr
  | Replacing ptr "32 word" obuf
  | Reporting
  | Counting "bytes option"

text \<open>\<open>MainScan u\<close>: the main thread is in its loop over the list and has counted \<open>u\<close>.\<close>

datatype main_pc = MainSleep | MainScan int | MainReport int

record swarm =
  sw_client :: client_t
  sw_pcs :: "nat \<Rightarrow> peer_pc"
  sw_found :: "nat \<Rightarrow> discovered_peer_t option"
  sw_main :: main_pc
  sw_reports :: "(int \<times> int) list"

datatype thread_id = Peer nat | Finder nat | MainThread

definition start_swarm :: "client_t \<Rightarrow> swarm" where
  "start_swarm c = \<lparr>sw_client = c, sw_pcs = (\<lambda>_. AtTop), sw_found = (\<lambda>_. None), sw_main = MainSleep,
     sw_reports = []\<rparr>"

abbreviation sw_list :: "swarm \<Rightarrow> ptr lst" where
  "sw_list s \<equiv> c_peers (sw_client s)"

definition set_pc :: "nat \<Rightarrow> peer_pc \<Rightarrow> swarm \<Rightarrow> swarm" where
  "set_pc i pc s = s\<lparr>sw_pcs := (sw_pcs s)(i := pc)\<rparr>"

definition set_list :: "ptr lst \<Rightarrow> swarm \<Rightarrow> swarm" where
  "set_list st s = s\<lparr>sw_client := (sw_client s)\<lparr>c_peers := st\<rparr>\<rparr>"

definition set_peer :: "ptr \<Rightarrow> peer_t \<Rightarrow> swarm \<Rightarrow> swarm" where
  "set_peer p peer s = s\<lparr>sw_client := (sw_client s)\<lparr>c_mem := (c_mem (sw_client s))(p \<mapsto> peer)\<rparr>\<rparr>"

text \<open>The outcome \<open>b\<close> of the test \<open>p->status == PEER_STATUS_NEW\<close> is possible.\<close>

definition may_be_new :: "client_t \<Rightarrow> ptr \<Rightarrow> bool \<Rightarrow> bool" where
  "may_be_new c p b \<longleftrightarrow> is_new c p = Inr b \<or> is_new c p = Inl UninitRead"

text \<open>Some thread is replacing the bitfield of this peer.\<close>

definition torn :: "swarm \<Rightarrow> ptr \<Rightarrow> bool" where
  "torn s p \<longleftrightarrow> (\<exists>j len bf. sw_pcs s j = Replacing p len bf)"

text \<open>The loop of \<open>peer_thread_routine\<close> up to the report.\<close>

inductive peer_step :: "nat \<Rightarrow> swarm \<Rightarrow> swarm \<Rightarrow> bool" for i where
  top_empty: "sw_pcs s i = AtTop \<Longrightarrow> list_len (snd (sw_list s)) = 0 \<Longrightarrow> peer_step i s s"
| top_go: "sw_pcs s i = AtTop \<Longrightarrow> list_len (snd (sw_list s)) \<noteq> 0 \<Longrightarrow> peer_step i s (set_pc i AtLock s)"
| lock: "sw_pcs s i = AtLock \<Longrightarrow> list_iter_start_safe (sw_list s) = Inr st \<Longrightarrow>
     peer_step i s (set_pc i Scanning (set_list st s))"
| scan_skip: "sw_pcs s i = Scanning \<Longrightarrow> list_iter_has_next (sw_list s) \<Longrightarrow>
     list_iter_next (sw_list s) = Inr (st, Some p) \<Longrightarrow> may_be_new (sw_client s) p False \<Longrightarrow>
     peer_step i s (set_list st s)"
| scan_hit: "sw_pcs s i = Scanning \<Longrightarrow> list_iter_has_next (sw_list s) \<Longrightarrow>
     list_iter_next (sw_list s) = Inr (st, Some p) \<Longrightarrow> may_be_new (sw_client s) p True \<Longrightarrow>
     peer_step i s (set_pc i (Selected p) (set_list (list_iter_stop_safe st) s))"
| scan_end: "sw_pcs s i = Scanning \<Longrightarrow> \<not> list_iter_has_next (sw_list s) \<Longrightarrow>
     peer_step i s (set_pc i Reporting (set_list (list_iter_stop_safe (sw_list s)) s))"
| mark: "sw_pcs s i = Selected p \<Longrightarrow> peer_at (sw_client s) p = Inr peer \<Longrightarrow>
     peer_step i s (set_pc i (Connecting p) (set_peer p (peer\<lparr>peer_status := Some PEER_STATUS_IN_USE\<rparr>) s))"
| refuse: "sw_pcs s i = Connecting p \<Longrightarrow> peer_at (sw_client s) p = Inr peer \<Longrightarrow>
     peer_step i s (set_pc i Reporting (set_peer p (peer\<lparr>peer_status := Some PEER_STATUS_BAD\<rparr>) s))"
| accept: "sw_pcs s i = Connecting p \<Longrightarrow> peer_step i s (set_pc i (Messaging p) s)"
| message: "sw_pcs s i = Messaging p \<Longrightarrow> (\<And>len bf. msg \<noteq> PEER_MSG_BITFIELD len bf) \<Longrightarrow>
     peer_at (sw_client s) p = Inr peer \<Longrightarrow> handle_message msg peer = Inr peer' \<Longrightarrow>
     peer_step i s (set_peer p peer' s)"
| free_bitfield: "sw_pcs s i = Messaging p \<Longrightarrow> delivered (PEER_MSG_BITFIELD len bf) \<Longrightarrow>
     peer_step i s (set_pc i (Replacing p len bf) s)"
| store_bitfield: "sw_pcs s i = Replacing p len bf \<Longrightarrow> peer_at (sw_client s) p = Inr peer \<Longrightarrow>
     handle_message (PEER_MSG_BITFIELD len bf) peer = Inr peer' \<Longrightarrow>
     peer_step i s (set_pc i (Messaging p) (set_peer p peer' s))"

text \<open>The loop of \<open>calculate_total_availability\<close>. The sum over the bits of the master bitfield and
  the line printed come after it and touch nothing that is shared.\<close>

inductive count_step :: "nat \<Rightarrow> swarm \<Rightarrow> swarm \<Rightarrow> bool" for i where
  count_lock: "sw_pcs s i = Reporting \<Longrightarrow> list_iter_start_safe (sw_list s) = Inr st \<Longrightarrow>
     count_step i s (set_pc i (Counting None) (set_list st s))"
| count_next: "sw_pcs s i = Counting m \<Longrightarrow> list_iter_has_next (sw_list s) \<Longrightarrow>
     list_iter_next (sw_list s) = Inr (st, Some p) \<Longrightarrow> or_bitfield (sw_client s) p m = Inr m' \<Longrightarrow>
     count_step i s (set_pc i (Counting m') (set_list st s))"
| count_torn: "sw_pcs s i = Counting m \<Longrightarrow> list_iter_has_next (sw_list s) \<Longrightarrow>
     list_iter_next (sw_list s) = Inr (st, Some p) \<Longrightarrow> torn s p \<Longrightarrow>
     count_step i s (set_pc i (Counting m') (set_list st s))"
| count_end: "sw_pcs s i = Counting m \<Longrightarrow> \<not> list_iter_has_next (sw_list s) \<Longrightarrow>
     count_step i s (set_pc i AtTop (set_list (list_iter_stop_safe (sw_list s)) s))"

text \<open>\<open>client_find_peer\<close>, called by tracker thread \<open>j\<close>; \<open>a\<close> is what \<open>malloc\<close> returns.\<close>

inductive find_step :: "nat \<Rightarrow> swarm \<Rightarrow> swarm \<Rightarrow> bool" for j where
  search: "sw_found s j = None \<Longrightarrow> safe_find (\<lambda>p. Inr (ptr_as_ip p = dp_ip dp)) (sw_list s) = Inr (st, hit) \<Longrightarrow>
     find_step j s (set_list st (s\<lparr>sw_found := (sw_found s)(j := (if hit = None then Some dp else None))\<rparr>))"
| append: "sw_found s j = Some dp \<Longrightarrow> c_mem (sw_client s) a = None \<Longrightarrow> list_len (snd (sw_list s)) < INT_MAX \<Longrightarrow>
     list_append (sw_list s) a = Inr st \<Longrightarrow>
     find_step j s (set_peer a (new_peer_record dp) (set_list st (s\<lparr>sw_found := (sw_found s)(j := None)\<rparr>)))"

text \<open>A round of the main thread; the length it prints is read after the mutex was released.\<close>

inductive round_step :: "swarm \<Rightarrow> swarm \<Rightarrow> bool" where
  main_lock: "sw_main s = MainSleep \<Longrightarrow> list_iter_start_safe (sw_list s) = Inr st \<Longrightarrow>
     round_step s (set_list st (s\<lparr>sw_main := MainScan 0\<rparr>))"
| main_count: "sw_main s = MainScan u \<Longrightarrow> list_iter_has_next (sw_list s) \<Longrightarrow>
     list_iter_next (sw_list s) = Inr (st, Some p) \<Longrightarrow> may_be_new (sw_client s) p b \<Longrightarrow>
     check_int (if b then u + 1 else u) = Inr u' \<Longrightarrow>
     round_step s (set_list st (s\<lparr>sw_main := MainScan u'\<rparr>))"
| main_stop: "sw_main s = MainScan u \<Longrightarrow> \<not> list_iter_has_next (sw_list s) \<Longrightarrow>
     round_step s (set_list (list_iter_stop_safe (sw_list s)) (s\<lparr>sw_main := MainReport u\<rparr>))"
| main_report: "sw_main s = MainReport u \<Longrightarrow>
     round_step s (s\<lparr>sw_main := MainSleep, sw_reports := sw_reports s @ [(list_len (snd (sw_list s)), u)]\<rparr>)"

inductive swarm_step :: "nat \<Rightarrow> thread_id \<Rightarrow> swarm \<Rightarrow> swarm \<Rightarrow> bool" for n where
  peer: "i < n \<Longrightarrow> peer_step i s s' \<Longrightarrow> swarm_step n (Peer i) s s'"
| count: "i < n \<Longrightarrow> count_step i s s' \<Longrightarrow> swarm_step n (Peer i) s s'"
| find: "find_step j s s' \<Longrightarrow> swarm_step n (Finder j) s s'"
| round: "round_step s s' \<Longrightarrow> swarm_step n MainThread s s'"

inductive swarm_reach :: "nat \<Rightarrow> swarm \<Rightarrow> bool" for n where
  init: "swarm_reach n (start_swarm (client_init cfg t))"
| step: "swarm_reach n s \<Longrightarrow> swarm_step n who s s' \<Longrightarrow> swarm_reach n s'"

text \<open>Any number of steps.\<close>

abbreviation swarm_steps :: "nat \<Rightarrow> swarm \<Rightarrow> swarm \<Rightarrow> bool" where
  "swarm_steps n \<equiv> (\<lambda>s s'. \<exists>who. swarm_step n who s s')\<^sup>*\<^sup>*"

inductive_simps swarm_step_simps:
  "swarm_step n (Peer i) s s'" "swarm_step n (Finder j) s s'" "swarm_step n MainThread s s'"

lemma set_simps [simp]:
  "sw_client (set_pc i pc s) = sw_client s" "sw_pcs (set_pc i pc s) = (sw_pcs s)(i := pc)"
  "sw_found (set_pc i pc s) = sw_found s" "sw_main (set_pc i pc s) = sw_main s"
  "sw_reports (set_pc i pc s) = sw_reports s"
  "sw_client (set_list st s) = (sw_client s)\<lparr>c_peers := st\<rparr>" "sw_pcs (set_list st s) = sw_pcs s"
  "sw_found (set_list st s) = sw_found s" "sw_main (set_list st s) = sw_main s"
  "sw_reports (set_list st s) = sw_reports s"
  "sw_client (set_peer p peer s) = (sw_client s)\<lparr>c_mem := (c_mem (sw_client s))(p \<mapsto> peer)\<rparr>"
  "sw_pcs (set_peer p peer s) = sw_pcs s" "sw_found (set_peer p peer s) = sw_found s"
  "sw_main (set_peer p peer s) = sw_main s" "sw_reports (set_peer p peer s) = sw_reports s"
  by (simp_all add: set_pc_def set_list_def set_peer_def)

subsection \<open>The list under the mutex\<close>

text \<open>The list holds \<open>ptrs\<close>, its mutex is held, and the iterator is about to hand out element \<open>k\<close>.\<close>

definition scanning_at :: "ptr lst \<Rightarrow> ptr list \<Rightarrow> nat \<Rightarrow> bool" where
  "scanning_at st ptrs k \<longleftrightarrow> l_mutex (snd st) \<and> k \<le> length ptrs \<and>
     (\<exists>as. list_rep (fst st) (snd st) as ptrs \<and> l_curr_node (snd st) = nth_opt as k)"

lemma scan_start:
  assumes "list_ok st ptrs"
  shows "\<exists>st'. list_iter_start_safe st = Inr st' \<and> scanning_at st' ptrs 0"
  using assms
  by (cases st) (auto simp: list_ok_def scanning_at_def list_iter_start_safe_def mutex_lock_def list_rep_def)

lemma scan_next:
  assumes "scanning_at st ptrs k"
  shows "list_iter_has_next st \<longleftrightarrow> k < length ptrs"
    and "k < length ptrs \<Longrightarrow> \<exists>st'. list_iter_next st = Inr (st', Some (ptrs ! k)) \<and> scanning_at st' ptrs (Suc k)"
proof -
  obtain h l as where st: "st = (h, l)" "l_mutex l" "k \<le> length ptrs" "list_rep h l as ptrs" "l_curr_node l = nth_opt as k"
    using assms by (cases st) (auto simp: scanning_at_def)
  show "list_iter_has_next st \<longleftrightarrow> k < length ptrs"
    using st list_rep_length [OF st(4)] by (simp add: list_iter_has_next_def nth_opt_def)
  assume k: "k < length ptrs"
  then have "list_iter_next st = Inr ((h, l\<lparr>l_curr_node := nth_opt as (Suc k)\<rparr>), Some (ptrs ! k))"
    using st list_rep_cell [OF st(4) k] list_rep_length [OF st(4)]
    by (simp add: list_iter_next_def node_at_Some list_node_of_def)
  moreover have "scanning_at (h, l\<lparr>l_curr_node := nth_opt as (Suc k)\<rparr>) ptrs (Suc k)"
    using st k by (auto simp: scanning_at_def)
  ultimately show "\<exists>st'. list_iter_next st = Inr (st', Some (ptrs ! k)) \<and> scanning_at st' ptrs (Suc k)" by blast
qed

lemma scan_stop: "scanning_at st ptrs k \<Longrightarrow> list_ok (list_iter_stop_safe st) ptrs"
  by (cases st) (auto simp: scanning_at_def list_iter_stop_safe_def mutex_unlock_def list_ok_def list_rep_def)

lemma scanning_len: "scanning_at st ptrs k \<Longrightarrow> k \<le> length ptrs \<and> list_len (snd st) = int (length ptrs)"
  by (auto simp: scanning_at_def list_len_def dest: list_rep_length)

lemma scanning_unique: "scanning_at st ptrs k \<Longrightarrow> scanning_at st qs k' \<Longrightarrow> ptrs = qs"
  by (auto simp: scanning_at_def dest: list_rep_unique)

lemma held_blocks:
  assumes "l_mutex (snd st)"
  shows "list_iter_start_safe st = Inl Blocked" "safe_find P st = Inl Blocked" "list_append st a = Inl Blocked"
  using assms
  by (cases st, simp_all add: list_iter_start_safe_def mutex_lock_def safe_find_def safe_collect_def list_append_def)+

lemma mutex_effects:
  "list_iter_start_safe st = Inr st' \<Longrightarrow> \<not> l_mutex (snd st) \<and> l_mutex (snd st')"
  "list_iter_next st = Inr (st', x) \<Longrightarrow> l_mutex (snd st') = l_mutex (snd st)"
  "\<not> l_mutex (snd (list_iter_stop_safe st))"
  "safe_find P st = Inr (st', hit) \<Longrightarrow> \<not> l_mutex (snd st) \<and> \<not> l_mutex (snd st')"
  "list_append st a = Inr st' \<Longrightarrow> \<not> l_mutex (snd st) \<and> \<not> l_mutex (snd st')"
  by (cases st; auto simp: list_iter_start_safe_def list_iter_next_def list_iter_stop_safe_def safe_find_def
      list_append_def mutex_lock_def mutex_unlock_def rbind_eq_Inr Let_def split: if_splits prod.splits)+

text \<open>The mutex of the list guards the three loops: an instance of the lock protocol.\<close>

fun pc_holds :: "peer_pc \<Rightarrow> bool" where
  "pc_holds Scanning = True"
| "pc_holds (Counting m) = True"
| "pc_holds _ = False"

fun main_holds :: "main_pc \<Rightarrow> bool" where
  "main_holds (MainScan u) = True"
| "main_holds _ = False"

fun holds :: "swarm \<Rightarrow> thread_id \<Rightarrow> bool" where
  "holds s (Peer i) \<longleftrightarrow> pc_holds (sw_pcs s i)"
| "holds s (Finder j) \<longleftrightarrow> False"
| "holds s MainThread \<longleftrightarrow> main_holds (sw_main s)"

abbreviation locked :: "swarm \<Rightarrow> bool" where
  "locked s \<equiv> l_mutex (snd (sw_list s))"

text \<open>What a step of a thread that is inside or outside does to the mutex.\<close>

definition lock_effect :: "thread_id \<Rightarrow> swarm \<Rightarrow> swarm \<Rightarrow> bool" where
  "lock_effect who s s' \<longleftrightarrow> (\<forall>other. other \<noteq> who \<longrightarrow> holds s' other = holds s other) \<and>
     (\<not> holds s who \<and> holds s' who \<longrightarrow> \<not> locked s \<and> locked s') \<and>
     (holds s who \<and> \<not> holds s' who \<longrightarrow> \<not> locked s') \<and>
     (holds s' who = holds s who \<longrightarrow> locked s' = locked s)"

lemma lock_effectI:
  assumes "\<And>j. Peer j \<noteq> who \<Longrightarrow> sw_pcs s' j = sw_pcs s j" "MainThread \<noteq> who \<Longrightarrow> sw_main s' = sw_main s"
    and "\<not> holds s who \<Longrightarrow> holds s' who \<Longrightarrow> \<not> locked s \<and> locked s'"
    and "holds s who \<Longrightarrow> \<not> holds s' who \<Longrightarrow> \<not> locked s'"
    and "holds s' who = holds s who \<Longrightarrow> locked s' = locked s"
  shows "lock_effect who s s'"
proof -
  have "holds s' other = holds s other" if "other \<noteq> who" for other
    using assms(1,2) that by (cases other) auto
  then show ?thesis using assms(3-5) unfolding lock_effect_def by blast
qed

lemma peer_lock_effect: "peer_step i s s' \<Longrightarrow> lock_effect (Peer i) s s'"
  by (induction rule: peer_step.induct; rule lock_effectI) (auto dest: mutex_effects(1,2) simp: mutex_effects(3))

lemma count_lock_effect: "count_step i s s' \<Longrightarrow> lock_effect (Peer i) s s'"
  by (induction rule: count_step.induct; rule lock_effectI) (auto dest: mutex_effects(1,2) simp: mutex_effects(3))

lemma find_lock_effect: "find_step j s s' \<Longrightarrow> lock_effect (Finder j) s s'"
  by (induction rule: find_step.induct; rule lock_effectI) (auto dest: mutex_effects(4,5))

lemma round_lock_effect: "round_step s s' \<Longrightarrow> lock_effect MainThread s s'"
  by (induction rule: round_step.induct; rule lock_effectI) (auto dest: mutex_effects(1,2) simp: mutex_effects(3))

lemma step_lock_effect: "swarm_step n who s s' \<Longrightarrow> lock_effect who s s'"
  by (induction rule: swarm_step.induct)
    (simp_all add: peer_lock_effect count_lock_effect find_lock_effect round_lock_effect)

interpretation swarm_mutex: lock_protocol "swarm_step n" holds locked "\<lambda>_. True" for n
  by unfold_locales (rule TrueI, (use step_lock_effect in \<open>auto simp: lock_effect_def\<close>)+)


subsection \<open>The list during a step\<close>

text \<open>The list holds \<open>ptrs\<close>, under the mutex or not.\<close>

definition list_phase :: "ptr lst \<Rightarrow> ptr list \<Rightarrow> bool" where
  "list_phase st ptrs \<longleftrightarrow> list_ok st ptrs \<or> (\<exists>k. scanning_at st ptrs k)"

lemma phase_held: "list_phase st ptrs \<Longrightarrow> l_mutex (snd st) \<Longrightarrow> \<exists>k. scanning_at st ptrs k"
  by (auto simp: list_phase_def list_ok_def)

lemma phase_free: "list_phase st ptrs \<Longrightarrow> \<not> l_mutex (snd st) \<Longrightarrow> list_ok st ptrs"
  by (auto simp: list_phase_def scanning_at_def)

lemma phase_intros: "list_ok st ptrs \<Longrightarrow> list_phase st ptrs" "scanning_at st ptrs k \<Longrightarrow> list_phase st ptrs"
  by (auto simp: list_phase_def)

lemma phase_len: "list_phase st ptrs \<Longrightarrow> list_len (snd st) = int (length ptrs)"
  by (cases st) (auto simp: list_phase_def list_ok_def scanning_at_def list_len_def dest: list_rep_length)

lemma phase_start:
  assumes "list_phase st ptrs" "list_iter_start_safe st = Inr st'"
  shows "scanning_at st' ptrs 0"
proof -
  have "list_ok st ptrs" using phase_free [OF assms(1)] mutex_effects(1) [OF assms(2)] by blast
  from scan_start [OF this] assms(2) show ?thesis by auto
qed

lemma phase_next:
  "scanning_at st ptrs k \<Longrightarrow> list_iter_has_next st \<Longrightarrow> list_iter_next st = Inr (st', Some p) \<Longrightarrow>
     k < length ptrs \<and> p = ptrs ! k \<and> scanning_at st' ptrs (Suc k)"
  using scan_next [of st ptrs k] by auto

lemma phase_find:
  assumes "list_phase st ptrs" "safe_find (\<lambda>p. Inr (P p)) st = Inr (st', hit)"
  shows "list_ok st' ptrs"
proof -
  have "list_ok st ptrs" using phase_free [OF assms(1)] mutex_effects(4) [OF assms(2)] by blast
  from safe_find_ok(2) [OF this find_seq_total, of P] assms(2) show ?thesis by auto
qed

lemma phase_append:
  assumes "list_phase st ptrs" "list_append st a = Inr st'"
  shows "list_ok st' (ptrs @ [a])"
proof -
  have "list_ok st ptrs" using phase_free [OF assms(1)] mutex_effects(5) [OF assms(2)] by blast
  from clist.ok_append [OF this, of a] assms(2) show ?thesis by auto
qed

text \<open>While the mutex is held, only its holder changes the list.\<close>

lemma locked_list:
  "swarm_step n who s s' \<Longrightarrow> locked s \<Longrightarrow> \<not> holds s who \<Longrightarrow> sw_list s' = sw_list s"
proof (induction rule: swarm_step.induct)
  case (peer i s s')
  from peer(2-4) show ?case by (induction rule: peer_step.induct) (auto dest: mutex_effects(1))
next
  case (count i s s')
  from count(2-4) show ?case by (induction rule: count_step.induct) (auto dest: mutex_effects(1))
next
  case (find j s s')
  from find(1-3) show ?case by (induction rule: find_step.induct) (auto dest: mutex_effects(4,5))
next
  case (round s s')
  from round(1-3) show ?case by (induction rule: round_step.induct) (auto dest: mutex_effects(1))
qed

subsection \<open>The invariant\<close>

text \<open>A thread works on a pointer of the list, and the bitfield it is about to store was delivered.\<close>

fun pc_ok :: "ptr list \<Rightarrow> peer_pc \<Rightarrow> bool" where
  "pc_ok ptrs (Selected p) \<longleftrightarrow> p \<in> set ptrs"
| "pc_ok ptrs (Connecting p) \<longleftrightarrow> p \<in> set ptrs"
| "pc_ok ptrs (Messaging p) \<longleftrightarrow> p \<in> set ptrs"
| "pc_ok ptrs (Replacing p len bf) \<longleftrightarrow> p \<in> set ptrs \<and> delivered (PEER_MSG_BITFIELD len bf)"
| "pc_ok ptrs _ \<longleftrightarrow> True"

text \<open>The main thread has counted no more peers than it has seen.\<close>

fun main_ok :: "ptr lst \<Rightarrow> ptr list \<Rightarrow> main_pc \<Rightarrow> bool" where
  "main_ok st ptrs MainSleep \<longleftrightarrow> True"
| "main_ok st ptrs (MainScan u) \<longleftrightarrow> (\<exists>k. scanning_at st ptrs k \<and> 0 \<le> u \<and> u \<le> int k)"
| "main_ok st ptrs (MainReport u) \<longleftrightarrow> 0 \<le> u \<and> u \<le> int (length ptrs)"

definition reports_ok :: "(int \<times> int) list \<Rightarrow> int \<Rightarrow> bool" where
  "reports_ok rs len \<longleftrightarrow> sorted (map fst rs) \<and> (\<forall>(l, m) \<in> set rs. 0 \<le> m \<and> m \<le> l \<and> l \<le> len)"

definition live_sound :: "swarm \<Rightarrow> ptr \<Rightarrow> bool" where
  "live_sound s p \<longleftrightarrow> (\<exists>peer. c_mem (sw_client s) p = Some peer \<and> peer_sound peer)"

definition swarm_inv :: "nat \<Rightarrow> swarm \<Rightarrow> ptr list \<Rightarrow> bool" where
  "swarm_inv n s ptrs \<longleftrightarrow>
     distinct ptrs \<and> int (length ptrs) \<le> INT_MAX \<and> (\<forall>p \<in> set ptrs. live_sound s p) \<and>
     (\<forall>i. pc_ok ptrs (sw_pcs s i) \<and> (sw_pcs s i \<noteq> AtTop \<longrightarrow> i < n)) \<and> swarm_mutex.excl s \<and>
     list_phase (sw_list s) ptrs \<and> main_ok (sw_list s) ptrs (sw_main s) \<and>
     reports_ok (sw_reports s) (int (length ptrs))"

lemma inv_simps:
  assumes "swarm_inv n s ptrs"
  shows "distinct ptrs" "p \<in> set ptrs \<Longrightarrow> live_sound s p" "pc_ok ptrs (sw_pcs s i)"
    "sw_pcs s i \<noteq> AtTop \<Longrightarrow> i < n" "swarm_mutex.excl s" "list_phase (sw_list s) ptrs"
    "main_ok (sw_list s) ptrs (sw_main s)" "reports_ok (sw_reports s) (int (length ptrs))"
    "int (length ptrs) \<le> INT_MAX"
  using assms by (simp_all add: swarm_inv_def)

lemma inv_mutex: "swarm_inv n s ptrs \<Longrightarrow> locked s \<longleftrightarrow> (\<exists>who. holds s who)"
  using swarm_mutex.excl_locked inv_simps(5) by blast

lemma inv_unique: "swarm_inv n s ptrs \<Longrightarrow> holds s who \<Longrightarrow> holds s other \<Longrightarrow> who = other"
  using swarm_mutex.excl_unique inv_simps(5) by blast

lemma inv_holder: "swarm_inv n s ptrs \<Longrightarrow> holds s who \<Longrightarrow> \<exists>k. scanning_at (sw_list s) ptrs k"
  using inv_mutex phase_held inv_simps(6) by blast

lemma inv_holder_pc:
  "swarm_inv n s ptrs \<Longrightarrow> sw_pcs s i = Scanning \<Longrightarrow> \<exists>k. scanning_at (sw_list s) ptrs k"
  "swarm_inv n s ptrs \<Longrightarrow> sw_pcs s i = Counting m \<Longrightarrow> \<exists>k. scanning_at (sw_list s) ptrs k"
  using inv_holder [of n s ptrs "Peer i"] by simp_all

lemma handle_message_status: "handle_message msg peer = Inr peer' \<Longrightarrow> peer_status peer' = peer_status peer"
  by (cases msg) (auto simp: peer_update_bitfield_def peer_update_bitfield_index_def res_simps Let_def
      split: if_splits option.splits)

text \<open>Peers stay live and sound.\<close>

lemma sound_status: "peer_sound (peer\<lparr>peer_status := st\<rparr>) = peer_sound peer"
  by (simp add: peer_sound_def peer_ok_def split: option.split)

lemma sound_new: "peer_sound (new_peer_record dp)"
  by (simp add: peer_sound_def peer_ok_def new_peer_record_def)

lemma sound_step:
  "swarm_step n who s s' \<Longrightarrow> \<forall>i. pc_ok ptrs (sw_pcs s i) \<Longrightarrow> live_sound s p \<Longrightarrow> live_sound s' p"
proof (induction rule: swarm_step.induct)
  case (peer i s s')
  from peer(2-4) show ?case
  proof (induction rule: peer_step.induct)
    case (message s q msg peer peer')
    then have "delivered msg" by (auto simp: delivered_def)
    then show ?case
      using message handle_message_sound [of peer msg] by (auto simp: live_sound_def peer_at_def split: option.splits)
  next
    case (store_bitfield s q len bf peer peer')
    then have "delivered (PEER_MSG_BITFIELD len bf)" by (metis pc_ok.simps(4))
    then show ?case
      using store_bitfield handle_message_sound [of peer "PEER_MSG_BITFIELD len bf"]
      by (auto simp: live_sound_def peer_at_def split: option.splits)
  qed (auto simp: live_sound_def peer_at_def sound_status split: option.splits)
next
  case (count i s s')
  from count(2-4) show ?case by (induction rule: count_step.induct) (auto simp: live_sound_def)
next
  case (find j s s')
  from find show ?case by (induction rule: find_step.induct) (auto simp: live_sound_def sound_new)
next
  case (round s s')
  from round show ?case by (induction rule: round_step.induct) (auto simp: live_sound_def)
qed

text \<open>The places of the threads.\<close>

lemma pc_step:
  "swarm_step n who s s' \<Longrightarrow> swarm_inv n s ptrs \<Longrightarrow>
     pc_ok ptrs (sw_pcs s' i) \<and> (sw_pcs s' i \<noteq> AtTop \<longrightarrow> i < n)"
proof (induction rule: swarm_step.induct)
  case (peer j s s')
  have pcs: "\<And>i. pc_ok ptrs (sw_pcs s i)" "\<And>i. sw_pcs s i \<noteq> AtTop \<Longrightarrow> i < n"
    using inv_simps(3,4) [OF peer(3)] by auto
  from peer(2,1,3) pcs show ?case
  proof (induction rule: peer_step.induct)
    case (scan_hit s st p)
    obtain k where "scanning_at (sw_list s) ptrs k" using inv_holder_pc(1) [OF scan_hit(6,1)] by blast
    then have "p \<in> set ptrs" using phase_next scan_hit(2,3) by fastforce
    then show ?case using scan_hit(5,7,8) by simp
  next
    case (mark s p peer)
    then show ?case using mark(5) [of j] by auto
  next
    case (accept s p)
    then show ?case using accept(4) [of j] by auto
  next
    case (free_bitfield s p len bf)
    then show ?case using free_bitfield(5) [of j] by auto
  next
    case (store_bitfield s p len bf peer peer')
    then show ?case using store_bitfield(6) [of j] by auto
  qed auto
next
  case (count j s s')
  have pcs: "\<And>i. pc_ok ptrs (sw_pcs s i)" "\<And>i. sw_pcs s i \<noteq> AtTop \<Longrightarrow> i < n"
    using inv_simps(3,4) [OF count(3)] by auto
  from count(2,1) pcs show ?case by (induction rule: count_step.induct) auto
next
  case (find j s s')
  then show ?case using inv_simps(3,4) [OF find(2)] by (induction rule: find_step.induct) auto
next
  case (round s s')
  then show ?case using inv_simps(3,4) [OF round(2)] by (induction rule: round_step.induct) auto
qed

text \<open>The list: the same pointers, or a new one at its end.\<close>

lemma phase_step:
  assumes "swarm_step n who s s'" "swarm_inv n s ptrs"
  shows "list_phase (sw_list s') ptrs \<or>
    (\<exists>a. c_mem (sw_client s) a = None \<and> live_sound s' a \<and> int (length ptrs) < INT_MAX \<and>
       list_phase (sw_list s') (ptrs @ [a]))"
  using assms
proof (induction rule: swarm_step.induct)
  case (peer i s s')
  have ph: "list_phase (sw_list s) ptrs" using inv_simps(6) [OF peer(3)] .
  from peer(2,3) ph have "list_phase (sw_list s') ptrs"
  proof (induction rule: peer_step.induct)
    case (lock s st)
    then show ?case using phase_start [of "sw_list s" ptrs st] phase_intros(2) [of st ptrs 0] by simp
  next
    case (scan_skip s st p)
    then show ?case using phase_next inv_holder_pc(1) phase_intros(2) by simp blast
  next
    case (scan_hit s st p)
    then show ?case using phase_next inv_holder_pc(1) phase_intros(1) scan_stop by simp blast
  next
    case (scan_end s)
    then show ?case using inv_holder_pc(1) phase_intros(1) scan_stop by simp blast
  qed simp_all
  then show ?case ..
next
  case (count i s s')
  have ph: "list_phase (sw_list s) ptrs" using inv_simps(6) [OF count(3)] .
  from count(2,3) ph have "list_phase (sw_list s') ptrs"
  proof (induction rule: count_step.induct)
    case (count_lock s st)
    then show ?case using phase_start [of "sw_list s" ptrs st] phase_intros(2) [of st ptrs 0] by simp
  next
    case (count_next s m st p m')
    then show ?case using phase_next inv_holder_pc(2) phase_intros(2) by simp blast
  next
    case (count_torn s m st p m')
    then show ?case using phase_next inv_holder_pc(2) phase_intros(2) by simp blast
  next
    case (count_end s m)
    then show ?case using inv_holder_pc(2) phase_intros(1) scan_stop by simp blast
  qed
  then show ?case ..
next
  case (find j s s')
  have ph: "list_phase (sw_list s) ptrs" using inv_simps(6) [OF find(2)] .
  from find(1) ph show ?case
  proof (induction rule: find_step.induct)
    case (search s dp st hit)
    then show ?case using phase_find phase_intros(1) by simp
  next
    case (append s dp a st)
    then show ?case
      using phase_append [OF append(5,4)] phase_intros(1) phase_len [OF append(5)]
      by (intro disjI2 exI [of _ a]) (auto simp: live_sound_def sound_new)
  qed
next
  case (round s s')
  have ph: "list_phase (sw_list s) ptrs" using inv_simps(6) [OF round(2)] .
  have h: "\<exists>k. scanning_at (sw_list s) ptrs k" if "sw_main s = MainScan u" for u
    using inv_holder [OF round(2), of MainThread] that by simp
  from round(1) ph h have "list_phase (sw_list s') ptrs"
  proof (induction rule: round_step.induct)
    case (main_lock s st)
    then show ?case using phase_start [of "sw_list s" ptrs st] phase_intros(2) [of st ptrs 0] by simp
  next
    case (main_count s u st p b u')
    then show ?case using phase_next phase_intros(2) by simp blast
  next
    case (main_stop s u)
    then show ?case using phase_intros(1) scan_stop by simp blast
  qed simp_all
  then show ?case ..
qed

text \<open>The count of the main thread and what it has reported.\<close>

lemma reports_ok_snoc:
  "reports_ok rs len \<Longrightarrow> 0 \<le> m \<Longrightarrow> m \<le> len \<Longrightarrow> reports_ok (rs @ [(len, m)]) len"
  by (auto simp: reports_ok_def sorted_append)

lemma reports_ok_mono: "reports_ok rs len \<Longrightarrow> len \<le> len' \<Longrightarrow> reports_ok rs len'"
  by (auto simp: reports_ok_def)

lemma other_main:
  "swarm_step n who s s' \<Longrightarrow> who \<noteq> MainThread \<Longrightarrow> sw_main s' = sw_main s \<and> sw_reports s' = sw_reports s"
proof (induction rule: swarm_step.induct)
  case (peer i s s')
  from peer(2) show ?case by (induction rule: peer_step.induct) simp_all
next
  case (count i s s')
  from count(2) show ?case by (induction rule: count_step.induct) simp_all
next
  case (find j s s')
  from find(1) show ?case by (induction rule: find_step.induct) simp_all
qed simp

lemma main_step_ok:
  assumes "round_step s s'" "swarm_inv n s ptrs"
  shows "main_ok (sw_list s') ptrs (sw_main s') \<and> reports_ok (sw_reports s') (int (length ptrs))"
  using assms(1) inv_simps(6-8) [OF assms(2)]
proof (induction rule: round_step.induct)
  case (main_lock s st)
  then show ?case using phase_start [of "sw_list s" ptrs st] by auto
next
  case (main_count s u st p b u')
  then show ?case using phase_next [of "sw_list s" ptrs] by (fastforce simp: check_int_eq_Inr)
next
  case (main_stop s u)
  then show ?case by (auto dest: scanning_len)
next
  case (main_report s u)
  then show ?case using phase_len [of "sw_list s" ptrs] reports_ok_snoc by auto
qed

lemma swarm_step_inv:
  assumes "swarm_step n who s s'" "swarm_inv n s ptrs"
  shows "\<exists>qs. swarm_inv n s' (ptrs @ qs)"
proof -
  have pcs: "\<And>i. pc_ok ptrs (sw_pcs s' i) \<and> (sw_pcs s' i \<noteq> AtTop \<longrightarrow> i < n)" "swarm_mutex.excl s'"
      "\<And>p. p \<in> set ptrs \<Longrightarrow> live_sound s' p"
    using pc_step [OF assms] swarm_mutex.step_excl [OF TrueI _ assms(1)] sound_step [OF assms(1)] inv_simps(2,3,5) [OF assms(2)]
    by auto
  have main: "reports_ok (sw_reports s') (int (length ptrs))" "main_ok (sw_list s') ptrs (sw_main s') \<or>
      (\<exists>u. sw_main s' = MainReport u \<and> 0 \<le> u \<and> u \<le> int (length ptrs))"
  proof -
    show "reports_ok (sw_reports s') (int (length ptrs))"
    proof (cases "who = MainThread")
      case True
      then show ?thesis using assms main_step_ok by (auto simp: swarm_step_simps)
    next
      case False
      then show ?thesis using other_main [OF assms(1)] inv_simps(8) [OF assms(2)] by simp
    qed
    show "main_ok (sw_list s') ptrs (sw_main s') \<or> (\<exists>u. sw_main s' = MainReport u \<and> 0 \<le> u \<and> u \<le> int (length ptrs))"
    proof (cases "who = MainThread")
      case True
      then show ?thesis using assms main_step_ok by (auto simp: swarm_step_simps)
    next
      case False
      have "sw_list s' = sw_list s" if "sw_main s = MainScan u" for u
      proof (rule locked_list [OF assms(1)])
        show "locked s" using inv_mutex [OF assms(2)] that by (metis holds.simps(3) main_holds.simps(1))
        show "\<not> holds s who"
          using inv_unique [OF assms(2), of who MainThread] that False by auto
      qed
      then show ?thesis
        using other_main [OF assms(1) False] inv_simps(7) [OF assms(2)] by (cases "sw_main s") auto
    qed
  qed
  from phase_step [OF assms] show ?thesis
  proof (elim disjE exE conjE)
    assume "list_phase (sw_list s') ptrs"
    then show ?thesis
      using pcs main inv_simps(1,9) [OF assms(2)] by (intro exI [of _ "[]"]) (auto simp: swarm_inv_def)
  next
    fix a
    assume a: "c_mem (sw_client s) a = None" "live_sound s' a" "int (length ptrs) < INT_MAX"
      "list_phase (sw_list s') (ptrs @ [a])"
    have "a \<notin> set ptrs" using inv_simps(2) [OF assms(2), of a] a(1) by (auto simp: live_sound_def)
    moreover have "pc_ok (ptrs @ [a]) pc" if "pc_ok ptrs pc" for pc using that by (cases pc) auto
    moreover have "\<not> scanning_at (sw_list s') ptrs k" for k
    proof
      assume "scanning_at (sw_list s') ptrs k"
      from scanning_len [OF this] phase_len [OF a(4)] show False by simp
    qed
    moreover from this main(2) have "main_ok (sw_list s') (ptrs @ [a]) (sw_main s')"
      by (cases "sw_main s'") auto
    ultimately show ?thesis
      using pcs main(1) a inv_simps(1) [OF assms(2)] reports_ok_mono
      by (intro exI [of _ "[a]"]) (auto simp: swarm_inv_def)
  qed
qed

lemma start_inv: "list_ok (c_peers c) [] \<Longrightarrow> swarm_inv n (start_swarm c) []"
proof -
  assume ok: "list_ok (c_peers c) []"
  have "swarm_mutex.excl (start_swarm c)"
    by (rule swarm_mutex.excl_free)
      (use ok in \<open>auto simp: start_swarm_def list_ok_def elim: holds.elims\<close>)
  then show ?thesis using ok by (simp add: swarm_inv_def start_swarm_def list_phase_def reports_ok_def)
qed

lemma swarm_reach_inv: "swarm_reach n s \<Longrightarrow> \<exists>ptrs. swarm_inv n s ptrs"
proof (induction rule: swarm_reach.induct)
  case (init cfg t)
  have "list_ok (c_peers (client_init cfg t)) []" using client_init_ok by (simp add: client_ok_def)
  then show ?case using start_inv by blast
qed (blast dest: swarm_step_inv)

subsection \<open>Progress\<close>

text \<open>A thread that waits for the mutex of the list.\<close>

fun waits :: "swarm \<Rightarrow> thread_id \<Rightarrow> bool" where
  "waits s (Peer i) \<longleftrightarrow> sw_pcs s i \<in> {AtLock, Reporting}"
| "waits s (Finder j) \<longleftrightarrow> True"
| "waits s MainThread \<longleftrightarrow> sw_main s = MainSleep"

lemma live_may_be_new: "live_sound s p \<Longrightarrow> \<exists>b. may_be_new (sw_client s) p b"
  by (auto simp: live_sound_def may_be_new_def is_new_def peer_at_def split: option.split)

lemma or_bitfield_total:
  assumes "live_sound s p"
  shows "\<exists>m'. or_bitfield (sw_client s) p m = Inr m'"
proof -
  obtain peer where "c_mem (sw_client s) p = Some peer" "peer_sound peer" using assms by (auto simp: live_sound_def)
  then show ?thesis
    by (cases "peer_bitfield peer")
      (auto simp: or_bitfield_def peer_at_def peer_sound_def peer_ok_def Let_def oget_whole)
qed

lemma holder_steps:
  assumes "swarm_inv n s ptrs" "holds s who"
  shows "\<exists>s'. swarm_step n who s s'"
proof -
  obtain k where k: "scanning_at (sw_list s) ptrs k" using inv_holder [OF assms] by blast
  have nxt: "\<exists>st. list_iter_next (sw_list s) = Inr (st, Some (ptrs ! k))" if "k < length ptrs"
    using scan_next(2) [OF k that] by blast
  have live: "live_sound s (ptrs ! k)" if "k < length ptrs" using inv_simps(2) [OF assms(1)] that by simp
  note has = scan_next(1) [OF k]
  show ?thesis
  proof (cases who)
    case (Peer i)
    have i: "i < n" using inv_simps(4) [OF assms(1), of i] assms(2) Peer by (cases "sw_pcs s i") auto
    show ?thesis
    proof (cases "sw_pcs s i")
      case Scanning
      then have "\<exists>s'. peer_step i s s'"
      proof (cases "k < length ptrs")
        case True
        obtain st where st: "list_iter_next (sw_list s) = Inr (st, Some (ptrs ! k))" using nxt [OF True] by blast
        obtain b where "may_be_new (sw_client s) (ptrs ! k) b" using live_may_be_new [OF live [OF True]] by blast
        then show ?thesis
          using peer_step.scan_skip [OF Scanning _ st] peer_step.scan_hit [OF Scanning _ st] True has by (cases b) auto
      qed (use peer_step.scan_end [OF Scanning] has in blast)
      then show ?thesis using swarm_step.peer [OF i] Peer by blast
    next
      case (Counting m)
      then have "\<exists>s'. count_step i s s'"
      proof (cases "k < length ptrs")
        case True
        obtain st where st: "list_iter_next (sw_list s) = Inr (st, Some (ptrs ! k))" using nxt [OF True] by blast
        obtain m' where "or_bitfield (sw_client s) (ptrs ! k) m = Inr m'" using or_bitfield_total [OF live [OF True]] by blast
        then show ?thesis using count_step.count_next [OF Counting _ st] True has by blast
      qed (use count_step.count_end [OF Counting] has in blast)
      then show ?thesis using swarm_step.count [OF i] Peer by blast
    qed (use assms(2) Peer in auto)
  next
    case MainThread
    then obtain u where u: "sw_main s = MainScan u" using assms(2) by (cases "sw_main s") auto
    then obtain k' where k': "scanning_at (sw_list s) ptrs k'" "0 \<le> u" "u \<le> int k'"
      using inv_simps(7) [OF assms(1)] by auto
    have "\<exists>s'. round_step s s'"
    proof (cases "k' < length ptrs")
      case True
      obtain st where st: "list_iter_next (sw_list s) = Inr (st, Some (ptrs ! k'))" using scan_next(2) [OF k'(1) True] by blast
      have "ptrs ! k' \<in> set ptrs" using True by simp
      then obtain b where "may_be_new (sw_client s) (ptrs ! k') b"
        using live_may_be_new [OF inv_simps(2) [OF assms(1)]] by blast
      moreover have "check_int (if b then u + 1 else u) = Inr (if b then u + 1 else u)"
        using k'(2,3) True inv_simps(9) [OF assms(1)] by (intro check_int_ok) auto
      ultimately show ?thesis using round_step.main_count [OF u _ st] True scan_next(1) [OF k'(1)] by blast
    qed (use round_step.main_stop [OF u] scan_next(1) [OF k'(1)] in blast)
    then show ?thesis using swarm_step.round MainThread by blast
  qed (use assms(2) in simp)
qed

lemma thread_progress:
  assumes "swarm_inv n s ptrs" "who = MainThread \<or> (\<exists>i < n. who = Peer i)" "waits s who \<Longrightarrow> \<not> locked s"
  shows "\<exists>s'. swarm_step n who s s'"
proof -
  have start: "\<exists>st. list_iter_start_safe (sw_list s) = Inr st" if "waits s who"
    using phase_free [OF inv_simps(6) [OF assms(1)]] assms(3) [OF that] scan_start by blast
  have live: "\<exists>peer. peer_at (sw_client s) p = Inr peer \<and> peer_sound peer" if "p \<in> set ptrs" for p
    using inv_simps(2) [OF assms(1) that] by (auto simp: live_sound_def peer_at_def)
  show ?thesis
    using assms(2)
  proof (elim disjE exE conjE)
    assume m: "who = MainThread"
    show ?thesis
    proof (cases "sw_main s")
      case MainSleep
      then show ?thesis using start m round_step.main_lock swarm_step.round by (metis waits.simps(3))
    next
      case (MainScan u)
      then show ?thesis using holder_steps [OF assms(1), of MainThread] m by simp
    next
      case (MainReport u)
      then show ?thesis using round_step.main_report swarm_step.round m by blast
    qed
  next
    fix i assume i: "i < n" "who = Peer i"
    note peer = swarm_step.peer [OF i(1)] and pc = inv_simps(3) [OF assms(1), of i]
    show ?thesis unfolding i(2)
    proof (cases "sw_pcs s i")
      case AtTop
      then show "\<exists>s'. swarm_step n (Peer i) s s'" using peer peer_step.top_empty peer_step.top_go by blast
    next
      case AtLock
      then obtain st where "list_iter_start_safe (sw_list s) = Inr st" using start i(2) by auto
      then show "\<exists>s'. swarm_step n (Peer i) s s'" using peer [OF peer_step.lock [OF AtLock]] by blast
    next
      case Scanning
      then show "\<exists>s'. swarm_step n (Peer i) s s'" using holder_steps [OF assms(1), of "Peer i"] by simp
    next
      case (Selected p)
      then show "\<exists>s'. swarm_step n (Peer i) s s'" using live [of p] pc peer peer_step.mark by fastforce
    next
      case (Connecting p)
      then show "\<exists>s'. swarm_step n (Peer i) s s'" using peer peer_step.accept by blast
    next
      case (Messaging p)
      have "handle_message PEER_MSG_CHOKE x = Inr (x\<lparr>peer_choking := True\<rparr>)" for x by simp
      then show "\<exists>s'. swarm_step n (Peer i) s s'"
        using live [of p] pc Messaging peer peer_step.message [OF Messaging, of PEER_MSG_CHOKE] by fastforce
    next
      case (Replacing p len bf)
      then have "p \<in> set ptrs" "delivered (PEER_MSG_BITFIELD len bf)" using pc by simp_all
      then show "\<exists>s'. swarm_step n (Peer i) s s'"
        using live [of p] handle_message_sound peer peer_step.store_bitfield [OF Replacing] by blast
    next
      case Reporting
      then obtain st where "list_iter_start_safe (sw_list s) = Inr st" using start i(2) by auto
      then show "\<exists>s'. swarm_step n (Peer i) s s'"
        using swarm_step.count [OF i(1) count_step.count_lock [OF Reporting]] by blast
    next
      case (Counting m)
      then show "\<exists>s'. swarm_step n (Peer i) s s'" using holder_steps [OF assms(1), of "Peer i"] by simp
    qed
  qed
qed

text \<open>\<open>holding n j m s s'\<close>: a run from \<open>s\<close> to \<open>s'\<close> during which thread \<open>j\<close> holds the mutex, with \<open>m\<close>
  steps of that thread.\<close>

inductive holding :: "nat \<Rightarrow> thread_id \<Rightarrow> nat \<Rightarrow> swarm \<Rightarrow> swarm \<Rightarrow> bool" for n j where
  here: "holds s j \<Longrightarrow> holding n j 0 s s"
| more: "holding n j m s s' \<Longrightarrow> swarm_step n who s' s'' \<Longrightarrow> holds s'' j \<Longrightarrow>
     holding n j (if who = j then Suc m else m) s s''"

text \<open>A step of the holder that keeps the mutex takes the iterator one element further.\<close>

lemma holder_advances:
  "swarm_step n who s s' \<Longrightarrow> scanning_at (sw_list s) ptrs k \<Longrightarrow> holds s who \<Longrightarrow> holds s' who \<Longrightarrow>
     scanning_at (sw_list s') ptrs (Suc k)"
proof (induction rule: swarm_step.induct)
  case (peer i s s')
  from peer(2-5) show ?case
    by (induction rule: peer_step.induct) (use phase_next in \<open>auto\<close>)
next
  case (count i s s')
  from count(2-5) show ?case
    by (induction rule: count_step.induct) (use phase_next in \<open>auto\<close>)
next
  case (find j s s')
  then show ?case by simp
next
  case (round s s')
  from round show ?case
    by (induction rule: round_step.induct) (use phase_next in \<open>auto\<close>)
qed

lemma holding_bound:
  assumes "holding n j m s s'" "swarm_inv n s ptrs" "scanning_at (sw_list s) ptrs k"
  shows "swarm_inv n s' ptrs \<and> scanning_at (sw_list s') ptrs (k + m) \<and> holds s' j"
  using assms
proof (induction rule: holding.induct)
  case (here s)
  then show ?case by simp
next
  case (more m s s' who s'')
  then have s': "swarm_inv n s' ptrs" "scanning_at (sw_list s') ptrs (k + m)" "holds s' j" by blast+
  have s'': "scanning_at (sw_list s'') ptrs (k + (if who = j then Suc m else m))"
  proof (cases "who = j")
    case True
    then show ?thesis using holder_advances [OF more.hyps(2) s'(2)] s'(3) more.hyps(3) by simp
  next
    case False
    then have "\<not> holds s' who" using inv_unique [OF s'(1) _ s'(3)] by blast
    moreover have "locked s'" using s'(2) by (simp add: scanning_at_def)
    ultimately show ?thesis using locked_list [OF more.hyps(2)] s'(2) False by simp
  qed
  obtain qs where inv: "swarm_inv n s'' (ptrs @ qs)" using swarm_step_inv [OF more.hyps(2) s'(1)] by blast
  moreover have "ptrs @ qs = ptrs"
    using inv_holder [OF inv more.hyps(3)] s'' scanning_unique by blast
  ultimately show ?case using s'' more.hyps(3) by simp
qed

subsection \<open>Runs\<close>

lemma steps_step: "swarm_steps n s s' \<Longrightarrow> swarm_step n who s' s'' \<Longrightarrow> swarm_steps n s s''"
  by (rule rtranclp.rtrancl_into_rtrancl) blast+

lemma reach_peer: "swarm_reach n s \<Longrightarrow> i < n \<Longrightarrow> peer_step i s s' \<Longrightarrow> swarm_reach n s'"
  by (rule swarm_reach.step [OF _ swarm_step.peer])

lemma select_run:
  assumes "swarm_reach n s" "i < n" "sw_pcs s i = AtTop" "list_ok (sw_list s) (p # ps)"
    and new: "may_be_new (sw_client s) p True"
  shows "\<exists>s'. swarm_reach n s' \<and> sw_pcs s' = (sw_pcs s)(i := Selected p) \<and> sw_main s' = sw_main s \<and>
    sw_reports s' = sw_reports s \<and> c_mem (sw_client s') = c_mem (sw_client s) \<and> list_ok (sw_list s') (p # ps)"
proof -
  have "list_len (snd (sw_list s)) \<noteq> 0"
    using assms(4) by (auto simp: list_ok_def list_len_def dest: list_rep_length)
  then have s1: "swarm_reach n (set_pc i AtLock s)"
    by (intro reach_peer [OF assms(1,2)] peer_step.top_go [OF assms(3)])
  obtain st where st: "list_iter_start_safe (sw_list s) = Inr st" "scanning_at st (p # ps) 0"
    using scan_start [OF assms(4)] by blast
  let ?s2 = "set_pc i Scanning (set_list st (set_pc i AtLock s))"
  have s2: "swarm_reach n ?s2"
    by (rule reach_peer [OF s1 assms(2) peer_step.lock]) (simp_all add: st(1))
  obtain st' where st': "list_iter_next st = Inr (st', Some p)" "scanning_at st' (p # ps) 1"
    using scan_next(2) [OF st(2)] by auto
  have "may_be_new (sw_client ?s2) p True" using new by (simp add: may_be_new_def is_new_def peer_at_def)
  then have "swarm_reach n (set_pc i (Selected p) (set_list (list_iter_stop_safe st') ?s2))"
    using reach_peer [OF s2 assms(2) peer_step.scan_hit] st' scan_next(1) [OF st(2)] by simp
  then show ?thesis using scan_stop [OF st'(2)] by (fastforce simp: fun_upd_def)
qed

text \<open>A client with one new peer, found by a tracker thread.\<close>

lemma one_peer_run:
  assumes "list_ok (c_peers c) []" "c_mem c a = None"
  shows "\<exists>s. swarm_steps n (start_swarm c) s \<and> sw_pcs s = (\<lambda>_. AtTop) \<and> sw_main s = MainSleep \<and> sw_reports s = [] \<and>
    list_ok (sw_list s) [a] \<and> c_mem (sw_client s) = (c_mem c)(a \<mapsto> new_peer_record \<lparr>dp_ip = 1, dp_port = 1\<rparr>)"
proof -
  let ?s = "start_swarm c" and ?dp = "\<lparr>dp_ip = 1, dp_port = 1\<rparr>"
  have ok: "list_ok (sw_list ?s) []" using assms(1) by (simp add: start_swarm_def)
  obtain st where st: "safe_find (\<lambda>p. Inr (ptr_as_ip p = dp_ip ?dp)) (sw_list ?s) = Inr (st, None)" "list_ok st []"
    using safe_find_ok(2) [OF ok find_seq_total, of "\<lambda>p. ptr_as_ip p = dp_ip ?dp"] by auto
  let ?s1 = "set_list st (?s\<lparr>sw_found := (sw_found ?s)(0 := Some ?dp)\<rparr>)"
  have s1: "swarm_step n (Finder 0) ?s ?s1"
    using swarm_step.find [OF find_step.search [of ?s 0 ?dp st None]] st(1) by (simp add: start_swarm_def)
  obtain st' where st': "list_append st a = Inr st'" "list_ok st' [a]"
    using clist.ok_append [OF st(2), of a] by auto
  have "list_len (snd st) = 0" using st(2) by (auto simp: list_ok_def list_len_def dest: list_rep_length)
  then have s2: "swarm_step n (Finder 0) ?s1 (set_peer a (new_peer_record ?dp)
      (set_list st' (?s1\<lparr>sw_found := (sw_found ?s1)(0 := None)\<rparr>)))" (is "swarm_step n _ _ ?s2")
    using assms(2) st'(1) by (intro swarm_step.find find_step.append) (simp_all add: start_swarm_def)
  have "swarm_steps n ?s ?s2" by (rule steps_step [OF steps_step [OF rtranclp.rtrancl_refl s1] s2])
  then show ?thesis
    using st'(2) by (intro exI [of _ ?s2]) (simp add: start_swarm_def)
qed

lemma steps_reach: "swarm_steps n s s' \<Longrightarrow> swarm_reach n s \<Longrightarrow> swarm_reach n s'"
  by (induction rule: rtranclp_induct) (auto intro: swarm_reach.step)

lemma one_peer_reach:
  "\<exists>s. swarm_reach n s \<and> sw_pcs s = (\<lambda>_. AtTop) \<and> list_ok (sw_list s) [a] \<and> may_be_new (sw_client s) a True \<and>
    c_mem (sw_client s) a = Some (new_peer_record \<lparr>dp_ip = 1, dp_port = 1\<rparr>)"
proof -
  obtain cfg :: client_config_t where True by blast
  have "list_ok (c_peers (client_init cfg blank_torrent)) []" using client_init_ok by (simp add: client_ok_def)
  from one_peer_run [OF this, of a n] obtain s where s: "swarm_steps n (start_swarm (client_init cfg blank_torrent)) s"
      "sw_pcs s = (\<lambda>_. AtTop)" "list_ok (sw_list s) [a]"
      "c_mem (sw_client s) a = Some (new_peer_record \<lparr>dp_ip = 1, dp_port = 1\<rparr>)"
    by (auto simp: client_init_def)
  moreover have "may_be_new (sw_client s) a True"
    by (simp add: may_be_new_def is_new_def peer_at_def s(4) new_peer_record_def)
  ultimately show ?thesis using steps_reach swarm_reach.init by blast
qed

definition taken :: "swarm \<Rightarrow> ptr \<Rightarrow> bool" where
  "taken s p \<longleftrightarrow> (\<exists>peer st. c_mem (sw_client s) p = Some peer \<and> peer_status peer = Some st \<and> st \<noteq> PEER_STATUS_NEW)"

lemma taken_step: "swarm_step n who s s' \<Longrightarrow> taken s p \<Longrightarrow> taken s' p"
proof (induction rule: swarm_step.induct)
  case (peer i s s')
  from peer(2,3) show ?case
  proof (induction rule: peer_step.induct)
    case (message s q msg peer peer')
    then show ?case
      using handle_message_status [OF message.hyps(4)] by (auto simp: taken_def peer_at_def split: option.splits)
  next
    case (store_bitfield s q len bf peer peer')
    then show ?case
      using handle_message_status [OF store_bitfield.hyps(3)] by (auto simp: taken_def peer_at_def split: option.splits)
  qed (auto simp: taken_def)
next
  case (count i s s')
  from count(2,3) show ?case by (induction rule: count_step.induct) (auto simp: taken_def)
next
  case (find j s s')
  then show ?case by (induction rule: find_step.induct) (auto simp: taken_def)
next
  case (round s s')
  then show ?case by (induction rule: round_step.induct) (auto simp: taken_def)
qed

lemma taken_steps: "swarm_steps n s s' \<Longrightarrow> taken s p \<Longrightarrow> taken s' p"
  by (induction rule: rtranclp_induct) (auto dest: taken_step)

lemma taken_not_new: "taken s p \<Longrightarrow> may_be_new (sw_client s) p b \<Longrightarrow> \<not> b"
  by (auto simp: taken_def may_be_new_def is_new_def peer_at_def)

lemma taken_not_selected:
  "swarm_step n who s s' \<Longrightarrow> taken s p \<Longrightarrow> sw_pcs s' i = Selected p \<Longrightarrow> sw_pcs s i = Selected p"
proof (induction rule: swarm_step.induct)
  case (peer j s s')
  from peer(2-4) show ?case
    by (induction rule: peer_step.induct) (auto dest: taken_not_new split: if_splits)
next
  case (count j s s')
  from count(2-4) show ?case by (induction rule: count_step.induct) (auto split: if_splits)
next
  case (find j s s')
  then show ?case by (induction rule: find_step.induct) auto
next
  case (round s s')
  then show ?case by (induction rule: round_step.induct) auto
qed

text \<open>A thread that finds no new peer among one goes on to count the availability.\<close>

lemma count_run:
  assumes "swarm_reach n s" "i < n" "sw_pcs s i = AtTop" "list_ok (sw_list s) [a]"
    and old: "may_be_new (sw_client s) a False"
  shows "\<exists>s'. swarm_reach n s' \<and> sw_pcs s' = (sw_pcs s)(i := Counting None) \<and>
    c_mem (sw_client s') = c_mem (sw_client s) \<and> scanning_at (sw_list s') [a] 0"
proof -
  have "list_len (snd (sw_list s)) \<noteq> 0"
    using assms(4) by (auto simp: list_ok_def list_len_def dest: list_rep_length)
  then have s1: "swarm_reach n (set_pc i AtLock s)"
    by (intro reach_peer [OF assms(1,2)] peer_step.top_go [OF assms(3)])
  obtain st where st: "list_iter_start_safe (sw_list s) = Inr st" "scanning_at st [a] 0"
    using scan_start [OF assms(4)] by blast
  let ?s2 = "set_pc i Scanning (set_list st (set_pc i AtLock s))"
  have s2: "swarm_reach n ?s2"
    by (rule reach_peer [OF s1 assms(2) peer_step.lock]) (simp_all add: st(1))
  obtain st' where st': "list_iter_next st = Inr (st', Some a)" "scanning_at st' [a] 1"
    using scan_next(2) [OF st(2)] by auto
  have "may_be_new (sw_client ?s2) a False" using old by (simp add: may_be_new_def is_new_def peer_at_def)
  then have s3: "swarm_reach n (set_list st' ?s2)"
    using reach_peer [OF s2 assms(2) peer_step.scan_skip] st' scan_next(1) [OF st(2)] by simp
  let ?s4 = "set_pc i Reporting (set_list (list_iter_stop_safe st') (set_list st' ?s2))"
  have s4: "swarm_reach n ?s4"
    using reach_peer [OF s3 assms(2) peer_step.scan_end] scan_next(1) [OF st'(2)] by simp
  obtain st'' where st'': "list_iter_start_safe (list_iter_stop_safe st') = Inr st''" "scanning_at st'' [a] 0"
    using scan_start [OF scan_stop [OF st'(2)]] by blast
  have "swarm_reach n (set_pc i (Counting None) (set_list st'' ?s4))"
    using swarm_reach.step [OF s4 swarm_step.count [OF assms(2) count_step.count_lock]] st''(1) by simp
  then show ?thesis using st''(2) by (fastforce simp: fun_upd_def)
qed

text \<open>The bitfield of a peer can be freed under a thread that is about to read it:
  \<open>peer_update_bitfield\<close> does not take the mutex. In the run below, thread 0 has received a bitfield
  of one byte and then a second one, and has freed the first; thread 1 is in
  \<open>calculate_total_availability\<close>, holds the mutex, and will read that bitfield next.\<close>

lemma bitfield_use_after_free:
  "\<exists>s len bf old. swarm_reach (Suc (Suc m)) s \<and> sw_pcs s 0 = Replacing a len bf \<and> torn s a \<and>
     map_option peer_bitfield (c_mem (sw_client s) a) = Some (Some [old]) \<and>
     sw_pcs s 1 = Counting None \<and> locked s \<and> (\<exists>st. list_iter_next (sw_list s) = Inr (st, Some a))"
proof -
  let ?n = "Suc (Suc m)" and ?bf = "[Some 0] :: obuf"
  have d: "delivered (PEER_MSG_BITFIELD 1 ?bf)" by (simp add: delivered_def)
  obtain s0 where s0: "swarm_reach ?n s0" "sw_pcs s0 = (\<lambda>_. AtTop)" "list_ok (sw_list s0) [a]"
      "may_be_new (sw_client s0) a True" "c_mem (sw_client s0) a = Some (new_peer_record \<lparr>dp_ip = 1, dp_port = 1\<rparr>)"
    using one_peer_reach [of ?n a] by blast
  obtain s1 where s1: "swarm_reach ?n s1" "sw_pcs s1 = (sw_pcs s0)(0 := Selected a)" "list_ok (sw_list s1) [a]"
      "c_mem (sw_client s1) = c_mem (sw_client s0)"
    using select_run [OF s0(1) _ _ s0(3,4), of 0] s0(2) by auto
  define peer where "peer = new_peer_record \<lparr>dp_ip = 1, dp_port = 1\<rparr>"
  define used where "used = peer\<lparr>peer_status := Some PEER_STATUS_IN_USE\<rparr>"
  have at1: "peer_at (sw_client s1) a = Inr peer" by (simp add: peer_at_def s0(5) s1(4) peer_def)
  let ?s2 = "set_pc 0 (Connecting a) (set_peer a used s1)"
  have s2: "swarm_reach ?n ?s2"
    unfolding used_def by (rule reach_peer [OF s1(1) _ peer_step.mark [OF _ at1]]) (simp_all add: s1(2))
  let ?s3 = "set_pc 0 (Messaging a) ?s2"
  have s3: "swarm_reach ?n ?s3" by (rule reach_peer [OF s2 _ peer_step.accept]) simp_all
  let ?s4 = "set_pc 0 (Replacing a 1 ?bf) ?s3"
  have s4: "swarm_reach ?n ?s4" by (rule reach_peer [OF s3 _ peer_step.free_bitfield [OF _ d]]) simp_all
  define full where "full = used\<lparr>peer_bitfield := Some ?bf, peer_bitfield_length := 1\<rparr>"
  let ?s5 = "set_pc 0 (Messaging a) (set_peer a full ?s4)"
  have s5: "swarm_reach ?n ?s5"
    by (rule reach_peer [OF s4 _ peer_step.store_bitfield [where len = 1 and bf = ?bf and peer = used]])
      (simp_all add: peer_at_def full_def peer_update_bitfield_def rds_def)
  have "may_be_new (sw_client ?s5) a False"
    by (simp add: may_be_new_def is_new_def peer_at_def full_def used_def)
  moreover have "list_ok (sw_list ?s5) [a]" "sw_pcs ?s5 1 = AtTop" "1 < ?n" using s1(2,3) s0(2) by simp_all
  ultimately obtain s6 where s6: "swarm_reach ?n s6" "sw_pcs s6 = (sw_pcs ?s5)(1 := Counting None)"
      "c_mem (sw_client s6) = c_mem (sw_client ?s5)" "scanning_at (sw_list s6) [a] 0"
    using count_run [OF s5, of 1 a] by blast
  let ?s7 = "set_pc 0 (Replacing a 1 ?bf) s6"
  have "swarm_reach ?n ?s7" by (rule reach_peer [OF s6(1) _ peer_step.free_bitfield [OF _ d]]) (simp_all add: s6(2))
  moreover have "torn ?s7 a" by (auto simp: torn_def intro!: exI [of _ 0])
  moreover have "locked ?s7" using s6(4) by (simp add: scanning_at_def)
  moreover have "\<exists>st. list_iter_next (sw_list ?s7) = Inr (st, Some a)" using scan_next(2) [OF s6(4)] by auto
  ultimately show ?thesis
    by (intro exI [of _ ?s7] exI [of _ 1] exI [of _ ?bf] exI [of _ "Some 0"]) (simp add: s6(2,3) full_def)
qed

subsection \<open>Properties\<close>



text \<open>C16: No deadlock. In every reachable state the main thread and each peer thread can make a step,
  unless it waits for the mutex of the list; then another thread holds the mutex, and that one can make a
  step. A thread that holds the mutex does so for at most as many of its own steps as the list is
  long, whatever the other threads do, before the step that releases it, which it can make.\<close>

theorem peer_threads_progress:
  assumes "swarm_reach n s" and "who = MainThread \<or> (\<exists>i < n. who = Peer i)"
  shows "((\<exists>s'. swarm_step n who s s') \<or>
      (waits s who \<and> (\<exists>other s'. other \<noteq> who \<and> holds s other \<and> swarm_step n other s s'))) \<and>
    (\<forall>m s'. holding n who m s s' \<longrightarrow> int m \<le> list_len (snd (sw_list s)) \<and> (\<exists>s''. swarm_step n who s' s''))"
proof (intro conjI allI impI)
  obtain ptrs where inv: "swarm_inv n s ptrs" using swarm_reach_inv [OF assms(1)] by blast
  show "(\<exists>s'. swarm_step n who s s') \<or>
      (waits s who \<and> (\<exists>other s'. other \<noteq> who \<and> holds s other \<and> swarm_step n other s s'))"
  proof (cases "locked s \<and> waits s who")
    case True
    then obtain other where other: "holds s other" using inv_mutex [OF inv] by blast
    have "\<not> holds s who" using True assms(2) by auto
    then have "other \<noteq> who" using other by blast
    then show ?thesis using holder_steps [OF inv other] other True by blast
  next
    case False
    then show ?thesis using thread_progress [OF inv assms(2)] by blast
  qed
  fix m s'
  assume h: "holding n who m s s'"
  then have "holds s who" by (induction rule: holding.induct)
  then obtain k where k: "scanning_at (sw_list s) ptrs k" using inv_holder [OF inv] by blast
  note b = holding_bound [OF h inv k]
  then have "k + m \<le> length ptrs" using scanning_len by blast
  then show "int m \<le> list_len (snd (sw_list s))" using scanning_len [OF k] by simp
  show "\<exists>s''. swarm_step n who s' s''" using b holder_steps by blast
qed

theorem peer_threads_progress_witness:
  "\<exists>s len bf. swarm_reach 2 s \<and> sw_pcs s 0 = Replacing 16 len bf \<and> holds s (Peer 1) \<and>
     (\<exists>s'. swarm_step 2 (Peer 0) s s') \<and> (\<exists>s'. swarm_step 2 (Peer 1) s s')"
proof -
  obtain s len bf where s: "swarm_reach 2 s" "sw_pcs s 0 = Replacing 16 len bf" "sw_pcs s 1 = Counting None"
    using bitfield_use_after_free [of 0 16] by (auto simp: numeral_2_eq_2)
  then have h: "holds s (Peer 1)" and w: "\<not> waits s (Peer 0)" "\<not> waits s (Peer 1)" by simp_all
  have "\<exists>s'. swarm_step 2 (Peer 0) s s'" using peer_threads_progress [OF s(1), of "Peer 0"] w(1) by auto
  moreover have "\<exists>s'. swarm_step 2 (Peer 1) s s'" using peer_threads_progress [OF s(1), of "Peer 1"] w(2) by auto
  ultimately show ?thesis using s h by blast
qed

text \<open>C35: Two threads can take the same peer. The status is set after the mutex was released, so
  for any two or more peer threads there is a run in which two of them select the same peer and
  both go on to connect to it.\<close>

theorem peer_selected_twice:
  "\<exists>s. swarm_reach (Suc (Suc m)) s \<and> sw_pcs s 0 = Connecting a \<and> sw_pcs s 1 = Connecting a \<and> taken s a"
proof -
  let ?n = "Suc (Suc m)"
  obtain s0 where s0: "swarm_reach ?n s0" "sw_pcs s0 = (\<lambda>_. AtTop)" "list_ok (sw_list s0) [a]"
      "may_be_new (sw_client s0) a True" "c_mem (sw_client s0) a = Some (new_peer_record \<lparr>dp_ip = 1, dp_port = 1\<rparr>)"
    using one_peer_reach [of ?n a] by blast
  obtain s1 where s1: "swarm_reach ?n s1" "sw_pcs s1 = (sw_pcs s0)(0 := Selected a)" "list_ok (sw_list s1) [a]"
      "c_mem (sw_client s1) = c_mem (sw_client s0)"
    using select_run [OF s0(1) _ _ s0(3,4), of 0] s0(2) by auto
  have "may_be_new (sw_client s1) a True" using s0(4) s1(4) by (simp add: may_be_new_def is_new_def peer_at_def)
  then obtain s2 where s2: "swarm_reach ?n s2" "sw_pcs s2 = (sw_pcs s1)(1 := Selected a)"
      "c_mem (sw_client s2) = c_mem (sw_client s1)"
    using select_run [OF s1(1) _ _ s1(3), of 1] s0(2) s1(2) by auto
  have pcs: "sw_pcs s2 0 = Selected a" "sw_pcs s2 1 = Selected a" using s1(2) s2(2) by simp_all
  let ?peer = "new_peer_record \<lparr>dp_ip = 1, dp_port = 1\<rparr>" and ?use = "\<lambda>p. p\<lparr>peer_status := Some PEER_STATUS_IN_USE\<rparr>"
  have at2: "peer_at (sw_client s2) a = Inr ?peer" using s0(5) s1(4) s2(3) by (simp add: peer_at_def)
  let ?s3 = "set_pc 0 (Connecting a) (set_peer a (?use ?peer) s2)"
  have s3: "swarm_reach ?n ?s3" by (rule reach_peer [OF s2(1) _ peer_step.mark [OF pcs(1) at2]]) simp
  have p3: "sw_pcs ?s3 1 = Selected a" "peer_at (sw_client ?s3) a = Inr (?use ?peer)"
    using pcs(2) by (simp_all add: peer_at_def)
  have "swarm_reach ?n (set_pc 1 (Connecting a) (set_peer a (?use (?use ?peer)) ?s3))"
    by (rule reach_peer [OF s3 _ peer_step.mark [OF p3]]) simp
  then show ?thesis
    by (intro exI [of _ "set_pc 1 (Connecting a) (set_peer a (?use (?use ?peer)) ?s3)"] conjI) (simp_all add: taken_def)
qed

text \<open>C32: A peer that was once taken (in use or bad) is never new again, and no scan selects it
  any more, in any run from any state.\<close>

theorem taken_peer_never_reselected:
  assumes "swarm_steps n s s'" and "taken s p"
  shows "taken s' p \<and>
    (\<forall>who s'' i. swarm_step n who s' s'' \<longrightarrow> sw_pcs s'' i = Selected p \<longrightarrow> sw_pcs s' i = Selected p)"
  using taken_steps [OF assms] taken_not_selected by blast

theorem taken_peer_never_reselected_witness:
  "\<exists>s. swarm_reach 2 s \<and> taken s 16 \<and> (\<forall>s'. swarm_steps 2 s s' \<longrightarrow> taken s' 16)"
proof -
  obtain s0 where s0: "swarm_reach 2 s0" "sw_pcs s0 = (\<lambda>_. AtTop)" "list_ok (sw_list s0) [16]"
      "may_be_new (sw_client s0) 16 True" "c_mem (sw_client s0) 16 = Some (new_peer_record \<lparr>dp_ip = 1, dp_port = 1\<rparr>)"
    using one_peer_reach [of 2 16] by blast
  obtain s1 where s1: "swarm_reach 2 s1" "sw_pcs s1 0 = Selected 16" "c_mem (sw_client s1) = c_mem (sw_client s0)"
    using select_run [OF s0(1) _ _ s0(3,4), of 0] s0(2) by auto
  let ?peer = "new_peer_record \<lparr>dp_ip = 1, dp_port = 1\<rparr>"
  have p: "peer_at (sw_client s1) 16 = Inr ?peer" using s0(5) s1(3) by (simp add: peer_at_def)
  let ?s = "set_pc 0 (Connecting 16) (set_peer 16 (?peer\<lparr>peer_status := Some PEER_STATUS_IN_USE\<rparr>) s1)"
  have "swarm_reach 2 ?s" by (rule reach_peer [OF s1(1) _ peer_step.mark [OF s1(2) p]]) simp
  moreover have "taken ?s 16" by (simp add: taken_def)
  ultimately show ?thesis using taken_peer_never_reselected by blast
qed

end
