(* ===== verification/Flood_Main.thy ===== *)
theory Flood_Main
  imports Flood_Threads
begin

section \<open>The program (src/main.c)\<close>

text \<open>
  Option parsing, the summary that is printed for a loaded torrent, and the sequence of \<open>main\<close>. The C
  library's argument parser hands the options to \<open>parse_opt\<close> one by one and then the key
  \<open>ARGP_KEY_END\<close>; it ends the program when the function calls \<open>argp_usage\<close>, or does not know
  a positional argument (\<open>None\<close> below). \<open>main_begin\<close> is \<open>main\<close> up to its loop; it takes what it
  meets from outside as arguments: the files (\<open>fopen\<close>), SHA-1, the URI parser, the addresses of
  the thread handles. The loop is the thread \<open>MainThread\<close> of \<open>swarm_step\<close>, which runs beside the
  peer and tracker threads from \<open>start_swarm\<close> of the client. \<open>main_end\<close> is what follows when the
  interrupt has cleared \<open>continueRunning\<close>, with the trackers and the shared state as the threads
  have left them. The texts are what the thread of \<open>main\<close> prints; what the other threads
  print can stand between them.
\<close>

subsection \<open>Options\<close>

datatype arguments_mode = UNKNOWN_MODE | TORRENT_FILE_MODE | MAGNET_LINK_MODE

text \<open>The union of the two strings is one pointer.\<close>

record arguments =
  arg_mode :: arguments_mode
  arg_string :: "bytes option"

datatype opt_key = Key_t bytes | Key_m bytes | ARGP_KEY_END | Key_other

datatype opt_result = Opt_ok | ARGP_ERR_UNKNOWN

text \<open>\<open>None\<close>: \<open>argp_usage\<close> was called, which prints the usage and exits.\<close>

definition parse_opt :: "opt_key \<Rightarrow> arguments \<Rightarrow> (arguments \<times> opt_result) option" where
  "parse_opt key args =
     (case key of
        Key_t arg \<Rightarrow>
          if arg_mode args \<noteq> UNKNOWN_MODE then None
          else Some (args\<lparr>arg_mode := TORRENT_FILE_MODE, arg_string := Some arg\<rparr>, Opt_ok)
      | Key_m arg \<Rightarrow>
          if arg_mode args \<noteq> UNKNOWN_MODE then None
          else Some (args\<lparr>arg_mode := MAGNET_LINK_MODE, arg_string := Some arg\<rparr>, Opt_ok)
      | ARGP_KEY_END \<Rightarrow>
          if arg_mode args = UNKNOWN_MODE then None else Some (args, ARGP_ERR_UNKNOWN)
      | Key_other \<Rightarrow> Some (args, ARGP_ERR_UNKNOWN))"

datatype cmd_arg = Opt_t bytes | Opt_m bytes | Positional bytes

text \<open>The calls \<open>argp_parse\<close> makes; for a positional argument that the function does not know it
  prints the usage and exits, while the special key at the end may be unknown.\<close>

fun parse_args :: "cmd_arg list \<Rightarrow> arguments \<Rightarrow> arguments option" where
  "parse_args [] args = map_option fst (parse_opt ARGP_KEY_END args)"
| "parse_args (Opt_t arg # rest) args =
     (case parse_opt (Key_t arg) args of None \<Rightarrow> None | Some (args, _) \<Rightarrow> parse_args rest args)"
| "parse_args (Opt_m arg # rest) args =
     (case parse_opt (Key_m arg) args of None \<Rightarrow> None | Some (args, _) \<Rightarrow> parse_args rest args)"
| "parse_args (Positional arg # rest) args =
     (case parse_opt Key_other args of None \<Rightarrow> None
      | Some (args, r) \<Rightarrow> if r = ARGP_ERR_UNKNOWN then None else parse_args rest args)"

definition initial_arguments :: arguments where
  "initial_arguments = \<lparr>arg_mode = UNKNOWN_MODE, arg_string = None\<rparr>"

subsection \<open>The summary of a torrent\<close>

text \<open>\<open>%s\<close> of the C library has no meaning for a null pointer.\<close>

definition c_text :: "bytes option \<Rightarrow> bytes res" where
  "c_text s = (case s of None \<Rightarrow> Inl NullDeref | Some s \<Rightarrow> Inr s)"

fun path_text :: "bytes list \<Rightarrow> bytes" where
  "path_text [] = []"
| "path_text [seg] = seg"
| "path_text (seg # segs) = seg @ lit ''/'' @ path_text segs"

definition file_line :: "file_info_t \<Rightarrow> bytes res" where
  "file_line f = (case fi_path f of None \<Rightarrow> Inl UninitRead
     | Some path \<Rightarrow> Inr (lit '' * '' @ path_text path @ [10]))"

definition torrent_summary :: "torrent_t \<Rightarrow> bytes res" where
  "torrent_summary torrent =
     rbind (rmaps (\<lambda>i. rbind (rd (t_tracker_urls torrent) (int i)) (\<lambda>url. rmap (\<lambda>u. u @ [10]) (c_text url)))
       [0..<min 10 (nat (t_tracker_count torrent))]) (\<lambda>urls.
     rbind (c_text (info_file_name (t_info torrent))) (\<lambda>name.
     rbind (case info_mode (t_info torrent) of
         FilesUnset \<Rightarrow> Inl UninitRead
       | SingleFile _ \<Rightarrow> Inr []
       | MultiFile files \<Rightarrow>
           rbind (rmaps file_line files) (\<lambda>ls.
           Inr (lit ''Files ('' @ show_int (int (length files)) @ lit ''):'' @ [10] @ concat ls))) (\<lambda>files.
     Inr (lit ''Torrent trackers ('' @ show_int (t_tracker_count torrent) @ lit ''):'' @ [10] @ concat urls @
          lit ''File name: '' @ name @ [10] @ files))))"

subsection \<open>Start, loop and end\<close>

definition default_config :: client_config_t where
  "default_config =
     \<lparr>cfg_tracker_poll_frequency = 30, cfg_peer_threads = 20, cfg_peer_timeout = 3,
      cfg_peer_id = lit ''CUSTOMCLIENT12345678''\<rparr>"

text \<open>The number of threads that \<open>client_start_peer_threads\<close> creates.\<close>

definition client_start_peer_threads :: "client_t \<Rightarrow> nat" where
  "client_start_peer_threads c = nat (cfg_peer_threads (c_config c))"

text \<open>The program when it enters its loop: what has been printed, the client, the trackers with
  their threads, and the number of peer threads.\<close>

record 'u program_start =
  ps_output :: bytes
  ps_client :: client_t
  ps_trackers :: "('u, client_handle) tracker_t list option"
  ps_threads :: nat

definition main_start ::
  "(bytes \<Rightarrow> 'u uri_t \<times> int) \<Rightarrow> (nat \<Rightarrow> nat) \<Rightarrow> torrent_t \<Rightarrow> 'u program_start res" where
  "main_start parse thread torrent =
     rbind (torrent_summary torrent) (\<lambda>out.
     let client = client_init default_config torrent in
     rbind (client_init_trackers find_peer_fn client None) (\<lambda>trackers.
     rbind (client_start_trackers parse thread trackers) (\<lambda>trackers.
     Inr \<lparr>ps_output = out, ps_client = client, ps_trackers = trackers,
       ps_threads = client_start_peer_threads client\<rparr>)))"

datatype 'u program_phase = Usage_exit | Aborted int bytes | Running "'u program_start"

text \<open>\<open>junk\<close> is the uninitialised \<open>torrent\<close> structure; with a magnet link nothing fills it
  before it is read.\<close>

definition main_begin ::
  "(bytes \<Rightarrow> bytes) \<Rightarrow> (bytes \<Rightarrow> cfile option) \<Rightarrow> (bytes \<Rightarrow> 'u uri_t \<times> int) \<Rightarrow> (nat \<Rightarrow> nat) \<Rightarrow>
     torrent_t \<Rightarrow> cmd_arg list \<Rightarrow> 'u program_phase res" where
  "main_begin sha fopen parse thread junk cmdline =
     (case parse_args cmdline initial_arguments of None \<Rightarrow> Inr Usage_exit
      | Some args \<Rightarrow>
          (case (arg_mode args, arg_string args) of
             (TORRENT_FILE_MODE, Some torrent_file) \<Rightarrow>
               rbind (torrent_init_from_file sha (fopen torrent_file) junk) (\<lambda>(torrent, status).
               rbind (load_text (fopen torrent_file)) (\<lambda>dbg.
               if status \<noteq> 0 then Inr (Aborted status (dbg @ lit ''Aborting due to errors'' @ [10]))
               else rmap (\<lambda>start. Running (start\<lparr>ps_output := dbg @ ps_output start\<rparr>)) (main_start parse thread torrent)))
           | _ \<Rightarrow> Inl UninitRead))"

definition report_line :: "int \<times> int \<Rightarrow> bytes" where
  "report_line r = show_int (fst r) @ lit '' peers, '' @ show_int (snd r) @ lit '' unchecked'' @ [10]"

text \<open>What a run leaves behind: the return value, what \<open>main\<close> has printed, the trackers, and the
  numbers reported in each round.\<close>

record 'u program_run =
  run_status :: int
  run_output :: bytes
  run_trackers :: "('u, client_handle) tracker_t list option"
  run_reports :: "(int \<times> int) list"

definition main_end ::
  "'u program_start \<Rightarrow> ('u, client_handle) tracker_t list option \<Rightarrow> swarm \<Rightarrow> 'u program_run res" where
  "main_end start trackers s =
     rbind (client_stop_trackers False trackers) (\<lambda>trackers.
     Inr \<lparr>run_status = 0,
       run_output = ps_output start @ concat (map report_line (sw_reports s)) @
         lit ''Stopping!'' @ [10] @ lit ''Goodbye'' @ [10],
       run_trackers = trackers, run_reports = sw_reports s\<rparr>)"

text \<open>What the thread of a tracker can make of it.\<close>

definition tracker_left :: "('u, 'c) tracker_t \<Rightarrow> ('u, 'c) tracker_t \<Rightarrow> bool" where
  "tracker_left t t' \<longleftrightarrow> (\<exists>h h' th th'. thread_step\<^sup>*\<^sup>*
     \<lparr>sys_tracker = t, sys_handle = h, sys_threads = th\<rparr> \<lparr>sys_tracker = t', sys_handle = h', sys_threads = th'\<rparr>)"

text \<open>The states of the loop: the main thread sleeps, and any steps were made since the start.\<close>

definition main_awake :: "'u program_start \<Rightarrow> swarm \<Rightarrow> bool" where
  "main_awake start s \<longleftrightarrow>
     swarm_steps (ps_threads start) (start_swarm (ps_client start)) s \<and> sw_main s = MainSleep"

subsection \<open>The trackers and the reports at the end\<close>

lemma left_frame:
  assumes "tracker_left t t'"
  shows "tr_url t' = tr_url t \<and> tr_update_thread t' = tr_update_thread t \<and> tr_stopped t' = tr_stopped t"
proof -
  have step: "thread_step s s' \<Longrightarrow> tr_url (sys_tracker s') = tr_url (sys_tracker s) \<and>
      tr_update_thread (sys_tracker s') = tr_update_thread (sys_tracker s) \<and>
      tr_stopped (sys_tracker s') = tr_stopped (sys_tracker s)" for s s' :: "('u, 'c) tracker_sys"
    by (induction rule: thread_step.induct) (auto dest: announce_frame)
  have "thread_step\<^sup>*\<^sup>* s s' \<Longrightarrow> tr_url (sys_tracker s') = tr_url (sys_tracker s) \<and>
      tr_update_thread (sys_tracker s') = tr_update_thread (sys_tracker s) \<and>
      tr_stopped (sys_tracker s') = tr_stopped (sys_tracker s)" for s s' :: "('a, 'b) tracker_sys"
    by (induction rule: rtranclp_induct) (auto dest: step)
  then show ?thesis using assms unfolding tracker_left_def by fastforce
qed

lemma left_refl: "tracker_left t t"
  unfolding tracker_left_def by blast

lemma stop_all:
  assumes "\<And>t. t \<in> set ts \<Longrightarrow> \<not> tr_stopped t"
  shows "client_stop_trackers False (Some ts) = Inr (Some (map (\<lambda>t. t\<lparr>tr_stopped := True\<rparr>) ts))"
proof -
  have "rmaps (\<lambda>t. rmap fst (tracker_stop False t)) ts = Inr (map (\<lambda>t. t\<lparr>tr_stopped := True\<rparr>) ts)"
    by (rule rmaps_map) (simp add: tracker_stop_def assms)
  then show ?thesis by (simp add: client_stop_trackers_def)
qed

lemma main_end_exact:
  assumes "list_all2 tracker_left ts ts'" "\<And>t. t \<in> set ts \<Longrightarrow> \<not> tr_stopped t"
  shows "main_end start (Some ts') s = Inr \<lparr>run_status = 0,
    run_output = ps_output start @ concat (map report_line (sw_reports s)) @
      lit ''Stopping!'' @ [10] @ lit ''Goodbye'' @ [10],
    run_trackers = Some (map (\<lambda>t. t\<lparr>tr_stopped := True\<rparr>) ts'), run_reports = sw_reports s\<rparr>"
proof -
  have "\<not> tr_stopped t'" if t: "t' \<in> set ts'" for t'
  proof -
    obtain i where "i < length ts'" "t' = ts' ! i" using t by (auto simp: in_set_conv_nth)
    moreover from this have "tracker_left (ts ! i) (ts' ! i)" "ts ! i \<in> set ts"
      using assms(1) by (simp_all add: list_all2_conv_all_nth)
    ultimately show ?thesis using left_frame [of "ts ! i" "ts' ! i"] assms(2) [of "ts ! i"] by simp
  qed
  then show ?thesis by (simp add: main_end_def stop_all)
qed

text \<open>The reports of the main thread, whatever the other threads do.\<close>

lemma main_reports:
  assumes "main_awake start s" "ps_client start = client_init cfg t"
  shows "sorted (map fst (sw_reports s)) \<and>
    (\<forall>(len, unchecked) \<in> set (sw_reports s). 0 \<le> unchecked \<and> unchecked \<le> len \<and> len \<le> list_len (snd (sw_list s)))"
proof -
  have "swarm_reach (ps_threads start) s"
    using assms steps_reach swarm_reach.init unfolding main_awake_def by metis
  then obtain ptrs where inv: "swarm_inv (ps_threads start) s ptrs" using swarm_reach_inv by blast
  then show ?thesis
    using inv_simps(8) [OF inv] phase_len [OF inv_simps(6) [OF inv]] by (simp add: reports_ok_def)
qed

text \<open>A round of the main thread over a list of one peer that may be new.\<close>

lemma round_run:
  assumes "sw_main s = MainSleep" "list_ok (sw_list s) [a]" "may_be_new (sw_client s) a True"
  shows "\<exists>s'. swarm_steps n s s' \<and> sw_main s' = MainSleep \<and> sw_reports s' = sw_reports s @ [(1, 1)]"
proof -
  obtain st where st: "list_iter_start_safe (sw_list s) = Inr st" "scanning_at st [a] 0"
    using scan_start [OF assms(2)] by blast
  obtain st' where st': "list_iter_next st = Inr (st', Some a)" "scanning_at st' [a] 1"
    using scan_next(2) [OF st(2)] by auto
  let ?s1 = "set_list st (s\<lparr>sw_main := MainScan 0\<rparr>)"
  let ?s2 = "set_list st' (?s1\<lparr>sw_main := MainScan 1\<rparr>)"
  let ?s3 = "set_list (list_iter_stop_safe st') (?s2\<lparr>sw_main := MainReport 1\<rparr>)"
  let ?s4 = "?s3\<lparr>sw_main := MainSleep, sw_reports := sw_reports ?s3 @ [(list_len (snd (sw_list ?s3)), 1)]\<rparr>"
  have "swarm_step n MainThread s ?s1" by (rule swarm_step.round [OF round_step.main_lock [OF assms(1) st(1)]])
  moreover have "may_be_new (sw_client ?s1) a True"
    using assms(3) by (simp add: may_be_new_def is_new_def peer_at_def)
  then have "swarm_step n MainThread ?s1 ?s2"
    using swarm_step.round [OF round_step.main_count [of ?s1 0 st' a True 1]] st'(1) scan_next(1) [OF st(2)] by simp
  moreover have "swarm_step n MainThread ?s2 ?s3"
    using swarm_step.round [OF round_step.main_stop [of ?s2 1]] scan_next(1) [OF st'(2)] by simp
  moreover have "swarm_step n MainThread ?s3 ?s4"
    using swarm_step.round [OF round_step.main_report [of ?s3 1]] by simp
  ultimately have "swarm_steps n s ?s4"
    by (intro steps_step [OF steps_step [OF steps_step [OF steps_step [OF rtranclp.rtrancl_refl]]]])
  moreover have "list_len (snd (list_iter_stop_safe st')) = 1"
    using phase_len [OF phase_intros(1) [OF scan_stop [OF st'(2)]]] by simp
  ultimately show ?thesis by (intro exI [of _ ?s4]) simp
qed

subsection \<open>Starting with a torrent\<close>

lemma main_start_exact:
  assumes "torrent_summary t = Inr out" "t_tracker_urls t = map Some us @ rest" "t_tracker_count t = int (length us)"
    and "us \<noteq> []"
  shows "main_start parse thread t =
    Inr \<lparr>ps_output = out, ps_client = client_init default_config t,
      ps_trackers = Some (map (\<lambda>(i, u). started_tracker parse find_peer_fn (client_init default_config t) (thread i) u)
        (enumerate 0 us)),
      ps_threads = 20\<rparr>"
proof -
  let ?c = "client_init default_config t"
  have c: "t_tracker_urls (c_torrent ?c) = map Some us @ rest" "t_tracker_count (c_torrent ?c) = int (length us)"
    using assms(2,3) by (simp_all add: client_init_def)
  note phases = client_trackers_phases [OF c assms(4) refl]
  have "client_start_peer_threads ?c = 20"
    by (simp add: client_start_peer_threads_def client_init_def default_config_def)
  then show ?thesis
    unfolding main_start_def assms(1) rbind_simps Let_def phases by simp
qed

lemma started_tracker_fields:
  assumes "t \<in> set (map (\<lambda>(i, u). started_tracker parse f c (thread i) u) (enumerate 0 us))"
  shows "\<not> tr_stopped t \<and> tr_update_thread t \<noteq> None"
  using assms by (auto simp: started_tracker_def new_tracker_def)

lemma started_trackers:
  defines "ts \<equiv> \<lambda>parse f c thread us. map (\<lambda>(i, u). started_tracker parse f c (thread i) u) (enumerate 0 us)"
  shows "map tr_url (ts parse f c thread us) = map Some us"
    and "map tr_update_thread (ts parse f c thread us) = map (\<lambda>i. Some (thread i)) [0..<length us]"
  by (rule nth_equalityI; simp add: ts_def started_tracker_def new_tracker_def nth_enumerate_eq)+

lemma begin_client:
  assumes "main_begin sha fopen parse thread junk cmdline = Inr (Running start)"
  shows "\<exists>cfg t. ps_client start = client_init cfg t"
proof -
  have mapped: "\<exists>y. m = Inr y \<and> f y = z" if "rmap f m = Inr z" for f m and z :: "'a program_phase"
    using that by (cases m) simp_all
  have "ps_client st = client_init default_config t" if "main_start parse thread t = Inr st" for st t
    using that by (auto simp: main_start_def rbind_eq_Inr Let_def)
  then have "\<exists>cfg t. ps_client st = client_init cfg t" if "main_start parse thread t = Inr st" for st t
    using that by blast
  then show ?thesis
    using assms
    by (fastforce simp: main_begin_def rbind_eq_Inr split: option.splits arguments_mode.splits if_splits dest!: mapped)
qed

lemma rmaps_total: "(\<And>x. x \<in> set xs \<Longrightarrow> \<exists>y. f x = Inr y) \<Longrightarrow> \<exists>ys. rmaps f xs = Inr ys"
proof (induction xs)
  case (Cons x xs)
  then obtain y ys where "f x = Inr y" "rmaps f xs = Inr ys" by fastforce
  then show ?case by simp
qed simp

lemma summary_urls:
  assumes "t_tracker_urls t = map Some us @ rest" "t_tracker_count t = int (length us)"
  shows "\<exists>urls. rmaps (\<lambda>i. rbind (rd (t_tracker_urls t) (int i)) (\<lambda>url. rmap (\<lambda>u. u @ [10]) (c_text url)))
      [0..<min 10 (nat (t_tracker_count t))] = Inr urls"
  by (rule rmaps_total) (use assms in \<open>auto simp: rd_def c_text_def nth_append\<close>)

lemma typed_summary:
  assumes "t_tracker_urls t = map Some us @ rest" "t_tracker_count t = int (length us)"
    and "info_mode (t_info t) \<noteq> FilesUnset" "info_file_name (t_info t) = Some nm"
    and "\<And>files f. info_mode (t_info t) = MultiFile files \<Longrightarrow> f \<in> set files \<Longrightarrow> fi_path f \<noteq> None"
  shows "\<exists>out. torrent_summary t = Inr out"
proof -
  obtain urls where urls: "rmaps (\<lambda>i. rbind (rd (t_tracker_urls t) (int i)) (\<lambda>url. rmap (\<lambda>u. u @ [10]) (c_text url)))
      [0..<min 10 (nat (t_tracker_count t))] = Inr urls"
    using summary_urls [OF assms(1,2)] by blast
  show ?thesis
  proof (cases "info_mode (t_info t)")
    case (MultiFile files)
    then obtain ls where "rmaps file_line files = Inr ls"
      using rmaps_total [of files file_line] assms(5) by (fastforce simp: file_line_def)
    then show ?thesis using urls MultiFile assms(4) by (simp add: torrent_summary_def c_text_def)
  qed (use assms(3,4) urls in \<open>simp_all add: torrent_summary_def c_text_def\<close>)
qed

lemma unnamed_summary:
  assumes "t_tracker_urls t = map Some us @ rest" "t_tracker_count t = int (length us)"
    and "info_file_name (t_info t) = None"
  shows "torrent_summary t = Inl NullDeref"
  using summary_urls [OF assms(1,2)] assms(3) by (auto simp: torrent_summary_def c_text_def)

lemma single_file_summary:
  assumes "info_mode (t_info t) = SingleFile l" "t_tracker_count t = 1" "t_tracker_urls t = [Some u]"
    and "info_file_name (t_info t) = Some nm"
  shows "torrent_summary t = Inr (lit ''Torrent trackers (1):'' @ [10] @ u @ [10] @ lit ''File name: '' @ nm @ [10])"
  using assms by (simp add: torrent_summary_def rd_def c_text_def show_int_def dec_nat.simps lit_def)

subsection \<open>Properties\<close>

text \<open>The command line. The program goes past option parsing exactly when it is given one
  torrent file or one magnet link and nothing else; every other command line ends in the usage
  message.\<close>

lemma parse_args_exact:
  "parse_args cmdline initial_arguments = Some args \<longleftrightarrow>
     (\<exists>f. cmdline = [Opt_t f] \<and> args = \<lparr>arg_mode = TORRENT_FILE_MODE, arg_string = Some f\<rparr>) \<or>
     (\<exists>l. cmdline = [Opt_m l] \<and> args = \<lparr>arg_mode = MAGNET_LINK_MODE, arg_string = Some l\<rparr>)"
proof -
  have later: "parse_args cmds a = Some b \<longleftrightarrow> cmds = [] \<and> b = a" if "arg_mode a \<noteq> UNKNOWN_MODE" for cmds a b
    using that by (cases "(cmds, a)" rule: parse_args.cases) (auto simp: parse_opt_def)
  show ?thesis
    by (cases "(cmdline, initial_arguments)" rule: parse_args.cases)
      (auto simp: parse_opt_def later initial_arguments_def)
qed

end
