(* ===== verification/Flood_File_Manager.thy ===== *)
theory Flood_File_Manager
  imports Flood_Torrent
begin

section \<open>The file manager (src/file_manager.c)\<close>

text \<open>
  The file manager is unfinished: \<open>file_manager_write_piece\<close> decides for each file of the torrent
  whether a piece overlaps it, and then writes nothing. The model makes these decisions visible:
  the result is, for each file, the offsets that were computed for it and the decision. Sums and
  products are checked for overflow.
  Shown: the test is that of two closed intervals, so a file that only touches the piece counts
  as overlapping; and since the offset is not advanced past a file that does not overlap, the files
  behind it are looked for at the wrong place.
\<close>

subsection \<open>Operations\<close>

record file_manager_t =
  fm_torrent :: torrent_t
  fm_basepath :: bytes
  fm_nfiles :: int
  fm_descriptors :: "int list"

definition file_manager_init :: "torrent_t \<Rightarrow> bytes \<Rightarrow> file_manager_t res" where
  "file_manager_init t basepath =
     rbind (case info_mode (t_info t) of
         FilesUnset \<Rightarrow> Inl UninitRead
       | SingleFile _ \<Rightarrow> Inr 1
       | MultiFile files \<Rightarrow> Inr (int (length files))) (\<lambda>nfiles.
     Inr \<lparr>fm_torrent = t, fm_basepath = basepath, fm_nfiles = nfiles, fm_descriptors = replicate (nat nfiles) (- 1)\<rparr>)"

text \<open>\<open>_write_piece\<close> reads the descriptor of the file and does nothing with it.\<close>

definition fm_write_piece :: "file_manager_t \<Rightarrow> int \<Rightarrow> file_manager_t res" where
  "fm_write_piece fm fidx = rbind (rd (fm_descriptors fm) fidx) (\<lambda>fd. Inr fm)"

definition overlap :: "int \<Rightarrow> int \<Rightarrow> int \<Rightarrow> int \<Rightarrow> bool" where
  "overlap f_start f_end startbyte endbyte \<longleftrightarrow>
     (f_start \<ge> startbyte \<and> f_start \<le> endbyte) \<or>
     (f_end \<ge> startbyte \<and> f_end \<le> endbyte) \<or>
     (f_start < startbyte \<and> f_end > endbyte)"

text \<open>The loop over the files, by their indexes; \<open>continue\<close> skips the update of the offset.\<close>

fun overlap_loop ::
  "file_info_t list \<Rightarrow> int \<Rightarrow> int \<Rightarrow> nat list \<Rightarrow> int \<Rightarrow> (int \<times> int \<times> bool) list res" where
  "overlap_loop files startbyte endbyte [] offset = Inr []"
| "overlap_loop files startbyte endbyte (i # is) offset =
     rbind (rd files (int i)) (\<lambda>f.
     case fi_length f of None \<Rightarrow> Inl UninitRead
     | Some f_len \<Rightarrow>
         rbind (check_int (offset + f_len)) (\<lambda>f_end.
         let hit = overlap offset f_end startbyte endbyte in
         rmap ((#) (offset, f_end, hit))
           (overlap_loop files startbyte endbyte is (if hit then f_end else offset))))"

definition file_manager_write_piece :: "file_manager_t \<Rightarrow> int \<Rightarrow> int \<Rightarrow> (int \<times> int \<times> bool) list res" where
  "file_manager_write_piece fm piece piecelen =
     rbind (check_int (piece * piecelen)) (\<lambda>startbyte.
     rbind (check_int (piece + 1)) (\<lambda>next_piece.
     rbind (check_int (next_piece * piecelen)) (\<lambda>endbyte.
     case info_mode (t_info (fm_torrent fm)) of
       FilesUnset \<Rightarrow> Inl UninitRead
     | SingleFile _ \<Rightarrow> Inr []
     | MultiFile files \<Rightarrow> overlap_loop files startbyte endbyte [0..<nat (fm_nfiles fm)] 0)))"

subsection \<open>Decisions on the lengths\<close>

text \<open>What the loop computes from the lengths of the files alone.\<close>

fun decisions :: "int \<Rightarrow> int \<Rightarrow> int list \<Rightarrow> int \<Rightarrow> (int \<times> int \<times> bool) list" where
  "decisions startbyte endbyte [] offset = []"
| "decisions startbyte endbyte (l # ls) offset =
     (let hit = overlap offset (offset + l) startbyte endbyte in
      (offset, offset + l, hit) # decisions startbyte endbyte ls (if hit then offset + l else offset))"

text \<open>The files a piece really has bytes of: half-open intervals at the running sum.\<close>

fun wanted :: "int \<Rightarrow> int \<Rightarrow> int list \<Rightarrow> int \<Rightarrow> bool list" where
  "wanted startbyte endbyte [] offset = []"
| "wanted startbyte endbyte (l # ls) offset =
     (max offset startbyte < min (offset + l) endbyte) # wanted startbyte endbyte ls (offset + l)"

lemma overlap_closed:
  assumes "f_start \<le> f_end" "startbyte \<le> endbyte"
  shows "overlap f_start f_end startbyte endbyte \<longleftrightarrow> {f_start..f_end} \<inter> {startbyte..endbyte} \<noteq> {}"
proof -
  have "overlap f_start f_end startbyte endbyte \<longleftrightarrow> f_start \<le> endbyte \<and> startbyte \<le> f_end"
    using assms unfolding overlap_def by linarith
  then show ?thesis using assms by (auto simp: not_le)
qed

lemma overlap_loop_decisions:
  assumes "map fi_length files = map Some ls" and "\<forall>l \<in> set ls. 0 \<le> l" and "0 \<le> offset"
    and "offset + sum_list (drop k ls) \<le> INT_MAX" and "k \<le> length ls"
  shows "overlap_loop files a b [k..<length ls] offset = Inr (decisions a b (drop k ls) offset)"
  using assms(3-5)
proof (induction "length ls - k" arbitrary: k offset)
  case 0
  then show ?case by simp
next
  case (Suc m)
  then have k: "k < length ls" by simp
  have "length files = length ls" using arg_cong [OF assms(1), of length] by simp
  then have f: "rd files (int k) = Inr (files ! k)" "fi_length (files ! k) = Some (ls ! k)"
    using k arg_cong [OF assms(1), of "\<lambda>xs. xs ! k"] by simp_all
  have drop: "drop k ls = ls ! k # drop (Suc k) ls" using k by (simp add: Cons_nth_drop_Suc)
  have "0 \<le> ls ! k" "0 \<le> sum_list (drop (Suc k) ls)"
    using assms(2) k by (auto intro!: sum_list_nonneg dest: in_set_dropD)
  then have chk: "check_int (offset + ls ! k) = Inr (offset + ls ! k)"
    and next1: "offset + ls ! k + sum_list (drop (Suc k) ls) \<le> INT_MAX" "offset + sum_list (drop (Suc k) ls) \<le> INT_MAX"
    using Suc.prems(1,2) unfolding drop by (auto intro!: check_int_ok)
  have "overlap_loop files a b [Suc k..<length ls] off = Inr (decisions a b (drop (Suc k) ls) off)"
    if "off \<in> {offset, offset + ls ! k}" for off
    using that Suc.hyps(2) Suc.prems(1) next1 k \<open>0 \<le> ls ! k\<close> by (intro Suc.hyps(1)) auto
  moreover have "[k..<length ls] = k # [Suc k..<length ls]" using k by (simp add: upt_conv_Cons)
  ultimately show ?case unfolding drop by (simp add: f chk Let_def)
qed

lemma write_piece_decisions:
  assumes "info_mode (t_info t) = MultiFile files" "map fi_length files = map Some ls" "\<forall>l \<in> set ls. 0 \<le> l"
    and "sum_list ls \<le> INT_MAX" "0 \<le> piece" "0 \<le> piecelen" "(piece + 1) * piecelen \<le> INT_MAX" "piece < INT_MAX"
    and "file_manager_init t path = Inr fm"
  shows "file_manager_write_piece fm piece piecelen = Inr (decisions (piece * piecelen) ((piece + 1) * piecelen) ls 0)"
proof -
  have fm: "fm_torrent fm = t" "fm_nfiles fm = int (length files)"
    using assms(1,9) by (auto simp: file_manager_init_def)
  have len: "length files = length ls" using arg_cong [OF assms(2), of length] by simp
  have "0 \<le> piece * piecelen" "piece * piecelen \<le> (piece + 1) * piecelen"
    using assms(5,6) by (simp_all add: algebra_simps)
  then have "check_int (piece * piecelen) = Inr (piece * piecelen)"
    "check_int ((piece + 1) * piecelen) = Inr ((piece + 1) * piecelen)"
    using assms(7) by (auto intro!: check_int_ok)
  then show ?thesis
    using overlap_loop_decisions [OF assms(2,3), of 0 0] assms(1,4-8) fm len
    by (simp add: file_manager_write_piece_def)
qed

lemma decisions_stuck:
  assumes "\<forall>l \<in> set ls. 0 \<le> l \<and> l < startbyte" "startbyte \<le> endbyte"
  shows "decisions startbyte endbyte ls 0 = map (\<lambda>l. (0, l, False)) ls"
  using assms(1)
proof (induction ls)
  case (Cons l ls)
  then have "\<not> overlap 0 l startbyte endbyte" using assms(2) by (auto simp: overlap_def)
  then show ?case using Cons by simp
qed simp

subsection \<open>Properties\<close>

text \<open>C36: Which files a piece belongs to. The test for one file is whether the closed intervals of
  the file and the piece meet. But a file that fails it does not move the offset, so when
  each file is shorter than the start of the piece, every file is looked for at offset 0 and none is found, even where the files
  together cover the piece.\<close>

theorem write_piece_misses_files:
  assumes "info_mode (t_info t) = MultiFile files" and "map fi_length files = map Some ls"
    and "\<forall>l \<in> set ls. 0 \<le> l \<and> l < piece * piecelen" and "sum_list ls \<le> INT_MAX" and "0 \<le> piece" and "0 \<le> piecelen"
    and "(piece + 1) * piecelen \<le> INT_MAX" and "piece < INT_MAX" and "file_manager_init t path = Inr fm"
  shows "file_manager_write_piece fm piece piecelen = Inr (map (\<lambda>l. (0, l, False)) ls) \<and>
    (\<forall>a b. a \<le> b \<longrightarrow> overlap a b (piece * piecelen) ((piece + 1) * piecelen) =
       ({a..b} \<inter> {piece * piecelen..(piece + 1) * piecelen} \<noteq> {}))"
proof -
  have le: "piece * piecelen \<le> (piece + 1) * piecelen" using assms(6) by (simp add: algebra_simps)
  moreover have "\<forall>l \<in> set ls. 0 \<le> l" using assms(3) by blast
  ultimately show ?thesis
    using write_piece_decisions [OF assms(1,2) _ assms(4-9)] decisions_stuck [OF assms(3) le] overlap_closed [OF _ le]
    by auto
qed

theorem write_piece_misses_files_witness:
  "\<exists>t fm. file_manager_init t [] = Inr fm \<and>
     file_manager_write_piece fm 2 8 = Inr [(0, 10, False), (0, 10, False), (0, 10, False)] \<and>
     wanted 16 24 [10, 10, 10] 0 = [False, True, True]"
proof -
  let ?f = "\<lparr>fi_length = Some 10, fi_path = None\<rparr>"
  let ?t = "blank_torrent\<lparr>t_info := (t_info blank_torrent)\<lparr>info_mode := MultiFile [?f, ?f, ?f]\<rparr>\<rparr>"
  obtain fm where fm: "file_manager_init ?t [] = Inr fm" by (simp add: file_manager_init_def)
  have "file_manager_write_piece fm 2 8 = Inr (map (\<lambda>l. (0, l, False)) [10, 10, 10])"
    using write_piece_misses_files [of ?t "[?f, ?f, ?f]" "[10, 10, 10]" 2 8 "[]" fm] fm by simp
  with fm show ?thesis by (intro exI [of _ ?t] exI [of _ fm]) simp
qed

end
