(* ===== verification/Flood_Print.thy ===== *)
theory Flood_Print
  imports Flood_Lock
begin

section \<open>Locked printing and the own address (src/util/util.c, src/util/discover_ip.c)\<close>

text \<open>
  The three functions of \<open>util.c\<close> that serialise output with one mutex, which the first caller
  initialises, and the two of \<open>discover_ip.c\<close>. The printing functions are given twice: as
  functions on the two static variables and the output, and as a step relation in which
  the reads and writes of several threads interleave. A call run without interruption does in the
  second what it does in the first. \<open>pthread_mutex_init\<close> writes an unlocked mutex. The text that
  \<open>vprintf\<close> makes of its arguments is a parameter.
\<close>

subsection \<open>The functions\<close>

record printer =
  pr_init_mutex :: bool
  pr_locked :: bool
  pr_out :: bytes

text \<open>The static variables as the program starts.\<close>

definition fresh_printer :: printer where
  "fresh_printer = \<lparr>pr_init_mutex = True, pr_locked = False, pr_out = []\<rparr>"

definition ensure_mutex :: "printer \<Rightarrow> printer" where
  "ensure_mutex p = (if pr_init_mutex p then p\<lparr>pr_locked := False, pr_init_mutex := False\<rparr> else p)"

definition print_lock :: "printer \<Rightarrow> printer res" where
  "print_lock p = (if pr_locked p then Inl Blocked else Inr (p\<lparr>pr_locked := True\<rparr>))"

definition vprintf :: "bytes \<Rightarrow> printer \<Rightarrow> printer" where
  "vprintf out p = p\<lparr>pr_out := pr_out p @ out\<rparr>"

definition printf_lock :: "printer \<Rightarrow> printer res" where
  "printf_lock p = print_lock (ensure_mutex p)"

definition printf_unlock :: "printer \<Rightarrow> printer" where
  "printf_unlock p = p\<lparr>pr_locked := False\<rparr>"

definition printf_safe :: "bytes \<Rightarrow> printer \<Rightarrow> (printer \<times> int) res" where
  "printf_safe out p =
     rbind (print_lock (ensure_mutex p)) (\<lambda>p.
     let p = vprintf out p; ret = int (length out) in
     Inr (p\<lparr>pr_locked := False\<rparr>, ret))"

subsection \<open>Threads that print\<close>

text \<open>A thread is outside, has seen that the mutex is to be initialised, has initialised it, waits
  for it, or is between lock and unlock. \<open>put\<close> is the \<open>vprintf\<close> of \<open>printf_safe\<close>, or what a caller of
  \<open>printf_lock\<close> prints.\<close>

datatype print_pc = Outside | SawUninit | Initialised | AtMutex | Inside

record print_sys =
  ps_printer :: printer
  ps_pcs :: "nat \<Rightarrow> print_pc"

definition set_print :: "nat \<Rightarrow> print_pc \<Rightarrow> printer \<Rightarrow> print_sys \<Rightarrow> print_sys" where
  "set_print i pc p s = s\<lparr>ps_printer := p, ps_pcs := (ps_pcs s)(i := pc)\<rparr>"

lemma set_print_simps [simp]:
  "ps_printer (set_print i pc p s) = p"
  "ps_pcs (set_print i pc p s) = (ps_pcs s)(i := pc)"
  "set_print i pc p (set_print i pc' p' s) = set_print i pc p s"
  by (simp_all add: set_print_def)

inductive print_step :: "nat \<Rightarrow> print_sys \<Rightarrow> print_sys \<Rightarrow> bool" for i where
  test_first: "ps_pcs s i = Outside \<Longrightarrow> pr_init_mutex (ps_printer s) \<Longrightarrow>
     print_step i s (set_print i SawUninit (ps_printer s) s)"
| test_later: "ps_pcs s i = Outside \<Longrightarrow> \<not> pr_init_mutex (ps_printer s) \<Longrightarrow>
     print_step i s (set_print i AtMutex (ps_printer s) s)"
| init: "ps_pcs s i = SawUninit \<Longrightarrow>
     print_step i s (set_print i Initialised ((ps_printer s)\<lparr>pr_locked := False\<rparr>) s)"
| flag: "ps_pcs s i = Initialised \<Longrightarrow>
     print_step i s (set_print i AtMutex ((ps_printer s)\<lparr>pr_init_mutex := False\<rparr>) s)"
| lock: "ps_pcs s i = AtMutex \<Longrightarrow> print_lock (ps_printer s) = Inr p \<Longrightarrow>
     print_step i s (set_print i Inside p s)"
| put: "ps_pcs s i = Inside \<Longrightarrow>
     print_step i s (set_print i Inside (vprintf out (ps_printer s)) s)"
| unlock: "ps_pcs s i = Inside \<Longrightarrow>
     print_step i s (set_print i Outside (printf_unlock (ps_printer s)) s)"

definition print_system :: "nat \<Rightarrow> print_sys \<Rightarrow> print_sys \<Rightarrow> bool" where
  "print_system n s s' \<longleftrightarrow> (\<exists>i < n. print_step i s s')"

definition starting :: "printer \<Rightarrow> print_sys" where
  "starting p = \<lparr>ps_printer = p, ps_pcs = (\<lambda>_. Outside)\<rparr>"

subsection \<open>Calls that are not interrupted\<close>

lemma ensure_mutex_run:
  assumes "ps_pcs s i = Outside"
  shows "(print_step i)\<^sup>*\<^sup>* s (set_print i AtMutex (ensure_mutex (ps_printer s)) s)"
proof (cases "pr_init_mutex (ps_printer s)")
  case True
  let ?s1 = "set_print i SawUninit (ps_printer s) s"
  let ?s2 = "set_print i Initialised ((ps_printer s)\<lparr>pr_locked := False\<rparr>) ?s1"
  have "print_step i s ?s1" using assms True by (rule print_step.test_first)
  moreover have "print_step i ?s1 ?s2" using print_step.init [of ?s1 i] by simp
  moreover have "print_step i ?s2 (set_print i AtMutex (ensure_mutex (ps_printer s)) s)"
    using print_step.flag [of ?s2 i] True by (simp add: ensure_mutex_def)
  ultimately show ?thesis by (meson converse_rtranclp_into_rtranclp rtranclp.rtrancl_refl)
next
  case False
  then show ?thesis using print_step.test_later [OF assms] by (auto simp: ensure_mutex_def)
qed

lemma printf_lock_run:
  assumes "ps_pcs s i = Outside" and "printf_lock (ps_printer s) = Inr p"
  shows "(print_step i)\<^sup>*\<^sup>* s (set_print i Inside p s)"
  using ensure_mutex_run [OF assms(1)]
    print_step.lock [of "set_print i AtMutex (ensure_mutex (ps_printer s)) s" i p] assms(2)
  by (auto simp: printf_lock_def intro: rtranclp.rtrancl_into_rtrancl)

lemma printf_safe_run:
  assumes "ps_pcs s i = Outside" and "printf_safe out (ps_printer s) = Inr (p, ret)"
  shows "(print_step i)\<^sup>*\<^sup>* s (set_print i Outside p s) \<and> ret = int (length out)"
proof -
  obtain q where q: "printf_lock (ps_printer s) = Inr q" "p = (vprintf out q)\<lparr>pr_locked := False\<rparr>" "ret = int (length out)"
    using assms(2) by (auto simp: printf_safe_def printf_lock_def Let_def rbind_eq_Inr)
  let ?s1 = "set_print i Inside q s"
  let ?s2 = "set_print i Inside (vprintf out q) s"
  have "print_step i ?s1 ?s2" using print_step.put [of ?s1 i out] by simp
  moreover have "print_step i ?s2 (set_print i Outside p s)"
    using print_step.unlock [of ?s2 i] q(2) by (simp add: printf_unlock_def)
  ultimately show ?thesis using printf_lock_run [OF assms(1) q(1)] q(3) by (auto intro: rtranclp.rtrancl_into_rtrancl)
qed

text \<open>Calls of \<open>printf_safe\<close> one after the other print their texts in order; one made by a thread that holds the lock
  blocks.\<close>

lemma printf_safe_sequence:
  assumes "\<not> pr_locked p \<or> pr_init_mutex p"
  shows "\<exists>p'. rfold (\<lambda>out p. rmap fst (printf_safe out p)) outs p = Inr p' \<and>
    pr_out p' = pr_out p @ concat outs \<and> (\<not> pr_locked p' \<or> pr_init_mutex p')"
  using assms
proof (induction outs arbitrary: p)
  case (Cons out outs)
  have "\<not> pr_locked (ensure_mutex p)" "pr_out (ensure_mutex p) = pr_out p" using Cons.prems by (auto simp: ensure_mutex_def)
  then obtain p1 r where p1: "printf_safe out p = Inr (p1, r)" "pr_out p1 = pr_out p @ out" "\<not> pr_locked p1"
    by (simp add: printf_safe_def print_lock_def vprintf_def Let_def)
  then show ?case using Cons.IH [of p1] by auto
qed simp

lemma printf_safe_under_lock:
  assumes "printf_lock p = Inr q"
  shows "printf_safe out q = Inl Blocked"
  using assms by (auto simp: printf_lock_def printf_safe_def print_lock_def ensure_mutex_def split: if_splits)

subsection \<open>Mutual exclusion\<close>

text \<open>The states in which the mutex is initialised and no thread is about to initialise it again.\<close>

definition mutex_ready :: "print_sys \<Rightarrow> bool" where
  "mutex_ready s \<longleftrightarrow> \<not> pr_init_mutex (ps_printer s) \<and> (\<forall>i. ps_pcs s i \<in> {Outside, AtMutex, Inside})"

lemma ready_pc: "mutex_ready s \<Longrightarrow> ps_pcs s i \<in> {Outside, AtMutex, Inside}"
  unfolding mutex_ready_def by blast

lemma ready_step:
  assumes "print_step i s s'" and "mutex_ready s"
  shows "mutex_ready s'"
  using assms ready_pc [OF assms(2), of i]
  by (cases rule: print_step.cases) (auto simp: mutex_ready_def print_lock_def vprintf_def printf_unlock_def split: if_splits)

lemma ready_effect:
  assumes "print_step i s s'" and "mutex_ready s"
  shows "j \<noteq> i \<Longrightarrow> ps_pcs s' j = ps_pcs s j"
    and "ps_pcs s i \<noteq> Inside \<Longrightarrow> ps_pcs s' i = Inside \<Longrightarrow> \<not> pr_locked (ps_printer s) \<and> pr_locked (ps_printer s')"
    and "ps_pcs s i = Inside \<Longrightarrow> ps_pcs s' i \<noteq> Inside \<Longrightarrow> \<not> pr_locked (ps_printer s')"
    and "(ps_pcs s' i = Inside) = (ps_pcs s i = Inside) \<Longrightarrow> pr_locked (ps_printer s') = pr_locked (ps_printer s)"
  using assms(1) ready_pc [OF assms(2), of i]
  by (cases rule: print_step.cases; auto simp: print_lock_def vprintf_def printf_unlock_def split: if_splits)+

interpretation print_mutex: lock_protocol print_step "\<lambda>s i. ps_pcs s i = Inside" "\<lambda>s. pr_locked (ps_printer s)" mutex_ready
  by unfold_locales (use ready_step in blast, simp add: ready_effect(1), (use ready_effect in blast)+)

lemma steps_of_thread:
  assumes "(print_step i)\<^sup>*\<^sup>* s s'" and "i < n"
  shows "(print_system n)\<^sup>*\<^sup>* s s'"
  using mono_rtranclp [of "print_step i" "print_system n"] assms by (auto simp: print_system_def)

text \<open>Two first calls at once.\<close>

lemma two_inside:
  assumes "2 \<le> n"
  shows "\<exists>s. (print_system n)\<^sup>*\<^sup>* (starting fresh_printer) s \<and> ps_pcs s 0 = Inside \<and> ps_pcs s 1 = Inside"
proof -
  let ?s0 = "starting fresh_printer"
  let ?s1 = "set_print 0 SawUninit fresh_printer ?s0"
  have s1: "(print_system n)\<^sup>*\<^sup>* ?s0 ?s1"
    using print_step.test_first [of ?s0 0] assms
    by (intro steps_of_thread [of 0] r_into_rtranclp) (simp_all add: starting_def fresh_printer_def)
  obtain p where p: "printf_lock fresh_printer = Inr p" "\<not> pr_init_mutex p"
    by (simp add: printf_lock_def print_lock_def ensure_mutex_def fresh_printer_def)
  let ?s2 = "set_print 1 Inside p ?s1"
  have s2: "(print_system n)\<^sup>*\<^sup>* ?s1 ?s2"
    using printf_lock_run [of ?s1 1 p] p assms by (intro steps_of_thread [of 1]) (simp_all add: starting_def)
  let ?q = "p\<lparr>pr_locked := False\<rparr>"
  let ?s3 = "set_print 0 Initialised ?q ?s2"
  let ?s4 = "set_print 0 AtMutex (?q\<lparr>pr_init_mutex := False\<rparr>) ?s3"
  let ?s5 = "set_print 0 Inside (?q\<lparr>pr_init_mutex := False, pr_locked := True\<rparr>) ?s4"
  have "print_step 0 ?s2 ?s3" using print_step.init [of ?s2 0] by simp
  moreover have "print_step 0 ?s3 ?s4" using print_step.flag [of ?s3 0] by simp
  moreover have "print_step 0 ?s4 ?s5" by (rule print_step.lock) (simp_all add: print_lock_def)
  ultimately have "(print_step 0)\<^sup>*\<^sup>* ?s2 ?s5" by (meson converse_rtranclp_into_rtranclp rtranclp.rtrancl_refl)
  then have "(print_system n)\<^sup>*\<^sup>* ?s0 ?s5" using s1 s2 steps_of_thread [of 0 ?s2 ?s5 n] assms by simp
  then show ?thesis by (intro exI [of _ ?s5]) simp
qed

subsection \<open>The own address\<close>

text \<open>Memory as libcurl hands it to a callback: an address, and the bytes there while the
  callback runs. \<open>write_fn\<close> stores the address in the caller's variable; nothing is copied. After
  \<open>curl_easy_perform\<close> the buffer is no longer the program's to read.\<close>

definition write_fn :: "nat \<times> bytes \<Rightarrow> nat option \<Rightarrow> nat option \<times> int" where
  "write_fn chunk data = (Some (fst chunk), int (length (snd chunk)))"

definition discover_ip_str :: "(bytes \<Rightarrow> (nat \<times> bytes) list \<times> int) \<Rightarrow> nat option \<Rightarrow> nat option \<times> int" where
  "discover_ip_str perform data =
     (let (chunks, code) = perform (lit ''http://api.ipify.org/'') in
      (fold (\<lambda>chunk data. fst (write_fn chunk data)) chunks data, code))"

definition discover_ip ::
  "(bytes \<Rightarrow> (nat \<times> bytes) list \<times> int) \<Rightarrow> (nat \<Rightarrow> bytes option) \<Rightarrow> (bytes \<Rightarrow> 32 word option) \<Rightarrow> (32 word option \<times> int) res" where
  "discover_ip perform mem inet_aton =
     (let (data, code) = discover_ip_str perform None in
      if code \<noteq> 0 then Inr (None, code)
      else case data of
        None \<Rightarrow> Inl UninitRead
      | Some a \<Rightarrow> (case mem a of
          None \<Rightarrow> Inl UseAfterFree
        | Some bytes \<Rightarrow> Inr (inet_aton bytes, if inet_aton bytes = None then 1 else 0)))"

lemma fold_last_address:
  "fold (\<lambda>chunk data. fst (write_fn chunk data)) chunks data =
     (if chunks = [] then data else Some (fst (last chunks)))"
  by (induction chunks arbitrary: data) (simp_all add: write_fn_def)

text \<open>The address is read where the last chunk was: only that chunk is looked at, and where libcurl has
  released its buffer the read is a use after free. With an empty body an indeterminate pointer
  is followed.\<close>

lemma discover_ip_cases:
  assumes "perform (lit ''http://api.ipify.org/'') = (chunks, code)"
  shows "code \<noteq> 0 \<Longrightarrow> discover_ip perform mem aton = Inr (None, code)"
    "code = 0 \<Longrightarrow> chunks = [] \<Longrightarrow> discover_ip perform mem aton = Inl UninitRead"
    "code = 0 \<Longrightarrow> chunks \<noteq> [] \<Longrightarrow> mem (fst (last chunks)) = None \<Longrightarrow> discover_ip perform mem aton = Inl UseAfterFree"
    "code = 0 \<Longrightarrow> chunks \<noteq> [] \<Longrightarrow> mem (fst (last chunks)) = Some bs \<Longrightarrow> aton bs = Some ip \<Longrightarrow>
       discover_ip perform mem aton = Inr (Some ip, 0)"
  using assms by (simp_all add: discover_ip_def discover_ip_str_def fold_last_address)

subsection \<open>Properties\<close>

text \<open>C33: The mutex of the locked printing functions. Once one call has initialised it, no two of
  any number of threads are ever between lock and unlock together, and it is locked exactly while one is. The
  initialisation itself is not protected: from the start of the program, two threads whose
  first calls meet can both be inside, because the second initialises the mutex the first holds.\<close>

theorem print_mutual_exclusion:
  assumes "printf_safe out fresh_printer = Inr (p, ret)" and "2 \<le> n"
  shows "(\<forall>s i j. (print_system n)\<^sup>*\<^sup>* (starting p) s \<longrightarrow>
      (pr_locked (ps_printer s) \<longleftrightarrow> (\<exists>i. ps_pcs s i = Inside)) \<and>
      (ps_pcs s i = Inside \<longrightarrow> ps_pcs s j = Inside \<longrightarrow> i = j)) \<and>
    (\<exists>s. (print_system n)\<^sup>*\<^sup>* (starting fresh_printer) s \<and> ps_pcs s 0 = Inside \<and> ps_pcs s 1 = Inside)"
proof -
  have "\<not> pr_init_mutex p" "\<not> pr_locked p"
    using assms(1)
    by (auto simp: printf_safe_def print_lock_def ensure_mutex_def fresh_printer_def vprintf_def Let_def)
  then have start: "mutex_ready (starting p) \<and> print_mutex.excl (starting p)"
    by (auto simp: mutex_ready_def starting_def intro!: print_mutex.excl_free)
  have "print_mutex.excl s" if "(print_system n)\<^sup>*\<^sup>* (starting p) s" for s
    using print_mutex.run_excl [OF start, of s] mono_rtranclp [of "print_system n" "\<lambda>s s'. \<exists>i. print_step i s s'"] that
    by (auto simp: print_system_def)
  then show ?thesis using two_inside [OF assms(2)] print_mutex.excl_unique print_mutex.excl_locked by blast
qed

theorem print_mutual_exclusion_witness:
  "\<exists>p. printf_safe (lit ''START'') fresh_printer = Inr (p, 5) \<and>
     (\<forall>s. (print_system 3)\<^sup>*\<^sup>* (starting p) s \<longrightarrow> ps_pcs s 0 = Inside \<longrightarrow> ps_pcs s 1 \<noteq> Inside)"
proof -
  obtain p where p: "printf_safe (lit ''START'') fresh_printer = Inr (p, 5)"
    by (simp add: printf_safe_def print_lock_def ensure_mutex_def fresh_printer_def lit_def Let_def)
  then show ?thesis using print_mutual_exclusion [OF p, of 3] by fastforce
qed

end
