(* ===== verification/Spec2Isabelle.thy ===== *)
theory Spec2Isabelle
  imports Flood_Main Flood_File_Manager Flood_Print
begin

text \<open>
  \<^bold>\<open>Verification of flood, a BitTorrent client in C.\<close>

  \<^bold>\<open>The program.\<close> \<open>main.c\<close> reads the options and builds a client for one torrent file.
  \<open>torrent.c\<close> reads the file, decodes it with \<open>util/bencode.c\<close> (whose dictionaries are the
  tables of \<open>util/hashtable.c\<close> and whose lists are those of \<open>util/list.c\<close>), hashes its info
  section and collects the tracker URLs and the files. One thread per tracker (\<open>tracker.c\<close>)
  announces the torrent over UDP (\<open>udp_protocol.c\<close>, with the byte order conversions of
  \<open>util/net.h\<close>) or HTTP (\<open>http_protocol.c\<close>) and reports the peers of the response to the
  client. \<open>client.c\<close> keeps the peers in a \<open>list_t\<close>; a number of peer threads pick a peer each,
  exchange handshakes and messages with it (\<open>peer_protocol.c\<close>), keep the bitfield it announces
  (\<open>peer.c\<close>) and print what \<open>util/util.c\<close> makes of its peer id.

  \<^bold>\<open>How C is read\<close> (\<open>Flood_Prelude\<close>). A C function is a total HOL function over explicit
  state. Its result is \<open>Inr\<close> of what the function returns, or \<open>Inl\<close> of an outcome of type \<open>ub\<close>
  for an access outside an object, a null or dangling pointer, an uninitialised read, a signed
  overflow, a read of the wrong union member, a division by zero, or a request for a mutex that
  is held. An error code of the program is a value, not an \<open>ub\<close>. So a statement that a result is
  \<open>Inr\<close> is at the same time a statement of memory safety and of termination. Two kinds of indeterminate
  values do not end a run: bytes that a short \<open>recv\<close> leaves unset in a local variable have an arbitrary
  value (the field \<open>stale\<close> of a socket), and the test of the status that \<open>client_find_peer\<close> leaves unset
  in a new peer may come out either way. In both cases the results hold for every value.

  \<^bold>\<open>The theories.\<close>
  \<^item> \<open>Flood_List\<close>, for \<open>src/util/list.c\<close>: nodes on a heap of addresses, the list structure
    with head, tail, length and mutex. \<open>list_rep\<close> says which sequence a structure represents;
    every operation is shown to refine its operation on sequences. The locale
    \<open>sequence_adt\<close> is the contract the clients use, interpreted on the C functions.
  \<^item> \<open>Flood_Hashtable\<close>, for \<open>src/util/hashtable.c\<close>: chains, growth, iterators, all hash and
    comparison functions; the counter and the capacity are \<open>int\<close> and may overflow. The locale \<open>key_ops\<close> states what a table needs from its two function
    pointers and proves the table correct once; it is interpreted for strings and for the eight
    integer types, and is a \<open>sublocale\<close> of the abstract \<open>finite_map_adt\<close>. Shown: any sequence
    of calls answers as a finite map does or overflows, which takes more than \<open>PUT_LIMIT\<close> puts and
    removes; growth keeps the map, iteration visits each entry
    once, the load stays bounded, and how the size counter drifts from the number of entries.
  \<^item> \<open>Flood_Bencode\<close> and \<open>Flood_Bencode_Print\<close>, for \<open>src/util/bencode.c\<close>: the decoder, the
    encoder, the debug printer. The inductive grammar \<open>benc\<close> is the abstract specification;
    the decoder is sound and complete for it and total, and decoding what was encoded gives
    back the value. The length of an encoding is an \<open>int\<close>, like every position of the decoder.
  \<^item> \<open>Flood_Net\<close>, for \<open>includes/util/net.h\<close> and the parts of the socket interface in use: words in
    little-endian memory, the conversions, partly initialised buffers, datagrams and stream
    sockets that deliver data in pieces, fail, or count differently in \<open>recvfrom\<close> with an address but no
    place for its length. The locale \<open>net_codec\<close> is the contract of one integer
    field, interpreted for 16, 32 and 64 bits.
  \<^item> \<open>Flood_Udp\<close>, for \<open>src/udp_protocol.c\<close>: layout of the requests, decoding of the
    responses for every datagram, the buffer bound.
  \<^item> \<open>Flood_Peer_Protocol\<close>, for \<open>src/peer_protocol.c\<close>: handshakes and the ten kinds of
    messages. The receiver looks at no result of \<open>recv\<close>, so it is total: a cut, failed or missing delivery gives it
    indeterminate bytes. The locale \<open>framed_codec\<close> takes the round trip of one message to streams of
    messages; it is interpreted on the send and receive functions.
  \<^item> \<open>Flood_Peer\<close>, for \<open>src/peer.c\<close>: bitfields and their update.
  \<^item> \<open>Flood_Torrent\<close>, for \<open>src/torrent.c\<close>: loading a torrent. Shown: the info hash is taken over
    exactly the encoding of the info value, well-shaped files load with the right trackers,
    name and files, and what the negated test of the piece length does.
  \<^item> \<open>Flood_Util\<close>, for the peer ids of \<open>src/util/util.c\<close>, and \<open>Flood_Print\<close>, for its locked printing
    functions, as functions and as interleaved threads, and for \<open>src/util/discover_ip.c\<close>. Shown: a
    call that is not interrupted does in the steps what the function does; the mutex excludes once it is
    initialised, and two first calls at once break it.
  \<^item> \<open>Flood_Client\<close>, for \<open>src/client.c\<close>: the peer list as a \<open>list_t\<close> of pointers with the memory
    they point to, discovery, selection, the session with one peer, the availability counts.
    Shown: whatever arrives and however it is cut, a session stays inside its buffers; it passes
    the handshake exactly when length byte, protocol and hash agree; the availability counts are exact, and
    two defects of discovery.
  \<^item> \<open>Flood_Uri\<close>, for \<open>src/util/uri_util.c\<close> and \<open>src/util/net.c\<close>: text ranges, ports, query lists on a heap
    of nodes, the creation of a UDP socket.
  \<^item> \<open>Flood_Http\<close>, for \<open>src/http_protocol.c\<close>: the query of a request, the receive buffer that grows
    with each chunk, and the whole exchange.
  \<^item> \<open>Flood_Tracker\<close>, for \<open>src/tracker.c\<close> and the functions of \<open>client.c\<close> that make, start and stop the
    trackers. The locale \<open>polled\<close> is what the polling loop needs from an announcement; it is interpreted
    on \<open>tracker_announce\<close> with a tracker that answers. \<open>main_step\<close>, \<open>thread_step\<close> and \<open>sys_reach\<close> are
    the life of a tracker under any interleaving. Shown: the datagrams sent and the peers
    reported, the announcements made in each round of the loop, that there is at most one update thread, that it
    ends after a stop, and what goes wrong after a refused connection and over HTTP.
  \<^item> \<open>Flood_Threads\<close>, for the threads that share the peer list: \<open>peer_thread_routine\<close> (\<open>peer_step\<close>) with
    \<open>calculate_total_availability\<close> (\<open>count_step\<close>), \<open>client_find_peer\<close> (\<open>find_step\<close>) and the loop of \<open>main\<close>
    (\<open>round_step\<close>), interleaved on the list of \<open>Flood_List\<close> by \<open>swarm_step\<close>. The three loops go one element at a time, and the
    replacement of a bitfield is two steps with a freed bitfield in between. Shown: mutual exclusion and a
    well-formed list of live peers in every reachable state, no deadlock, a bound on the steps under the mutex, that a peer once taken is never
    selected again, that two threads can take the same new peer, and that the count can meet a freed bitfield.
  \<^item> \<open>Flood_Lock\<close> holds the locale \<open>lock_protocol\<close>, the contract of threads that share a mutex, with mutual exclusion
    proved from it once; it is interpreted on the peer threads and on the printing threads.
  \<^item> \<open>Flood_File_Manager\<close>, for \<open>src/file_manager.c\<close>: the loop that looks for the files of a piece.
  \<^item> \<open>Flood_Main\<close>, for \<open>src/main.c\<close>: the options, the summary, \<open>main\<close> up to its loop (\<open>main_begin\<close>) and after it
    (\<open>main_end\<close>). The loop itself is the main thread of \<open>swarm_step\<close>; \<open>main_awake\<close> are the states in which the interrupt
    can end it, \<open>tracker_left\<close> what the thread of a tracker can have made of it by then.
  \<^item> This theory: properties of the composition. From the bytes of a torrent file to the announced hash, the program from
    its start to its end, and what any load promises to both.

  \<^bold>\<open>Bounds.\<close> The recursion of the decoder is bounded by a nesting depth of \<open>len + 1\<close> and by as
  many rounds of a list or dictionary loop as there are bytes left plus one. A value and a round
  each take at least one byte, so the bounds are never reached (\<open>bencode_parse_total\<close>,
  \<open>bencode_parse_accepts_grammar\<close>). The iterator loops are bounded by the number of elements
  plus one, which the results on iteration show to be enough; the walk along a query list by the number of its nodes.
  Three loops of the source run until another thread or a signal ends them. The message loop of a session has no exit;
  its model takes the number of rounds to look at, and the results hold for every number. The loop of
  the update thread takes the values of \<open>stopped\<close> it reads, one per round, and has the outcome
  \<open>NoFuel\<close> while none is true (\<open>tracker_update_schedule\<close>). The loop of \<open>main\<close> and those of the peer threads are step
  relations, with no bound.

  \<^bold>\<open>Parameters\<close> stand for what is not in the repository: the permutation \<open>qsort\<close> makes of the keys
  (assumed to be a permutation), the SHA-1 function of OpenSSL (20 bytes), the values that
  \<open>sendto\<close>, \<open>socket\<close>, \<open>connect\<close>, \<open>getaddrinfo\<close>, \<open>rand\<close> and \<open>malloc\<close> return, the data that arrives on a socket, uriparser
  (its escaping leaves letters and digits, gives at most three bytes per byte, none of them NUL, and works byte by byte)
  and libcurl (it hands the body to the callback in chunks). The calls that argp makes are as its manual says.

  \<^bold>\<open>Taken as the platform has it.\<close> \<open>char\<close> is signed and words are little-endian; \<open>isdigit\<close> of a negative
  \<open>char\<close> is false, as in glibc (ISO C leaves it open). \<open>list_t\<close> counts its nodes in
  an \<open>int\<close> that the model does not let overflow, because, unlike the counter of a table, it is the number of nodes that are allocated at the
  same time; the threads add a peer only while the count is below \<open>INT_MAX\<close>. \<open>tracker_stop\<close> is one step of the main thread. With \<open>force\<close>, which no caller in the program sets,
  the source cancels the thread before it sets \<open>stopped\<close>, and a cancelled thread runs on to its next cancellation
  point; the model ends it in the same step.

  \<^bold>\<open>Not modelled.\<close> Allocation failure and the release of memory other than list nodes and bitfields
  (\<open>hashtable_free\<close>, \<open>uri_free_members\<close>); the seeding and signal set-up of \<open>main.c\<close>; what threads other than the
  main one print, which can stand between the lines of the main thread; torn reads of a field of a peer (a step reads or
  writes a field whole, but for the bitfield); what a use of a freed bitfield does beyond the value it gives (the count goes on with an arbitrary master
  bitfield); the commented-out end of \<open>torrent.c\<close>; the command line test programs.

  \<^bold>\<open>To be added:\<close> the steps of a tracker thread inside an announcement as steps of \<open>swarm_step\<close>, and the heap of table
  entries with its release.
\<close>

section \<open>Properties that span components\<close>

text \<open>C6: From the torrent file to the tracker. For a torrent that was loaded from a file of at
  most \<open>INT_MAX\<close> bytes, and a tracker of the client that can be reached and answers, the first
  announcement sends the connection request and then the announcement of the SHA-1 of a part of the file that is exactly the
  encoding of the value of its \<open>info\<close> key, under the connection id the tracker gave.\<close>

theorem announced_info_hash:
  assumes "torrent_init_from_file sha (Some file) junk = Inr (t, 0)" and "int (length (cf_content file)) \<le> INT_MAX"
    and "\<And>bs. length (sha bs) = 20" and "handle_ok h" and "udp_reachable env url"
    and "env_connect_resp env = Some (be32 a @ be32 (env_rand_connect env) @ be64 cid @ rest)"
    and "env_announce_resp env = Some (announce_bytes b tid iv l sd ps)" and "ps \<noteq> []"
  shows "\<exists>w dict pre part aft info tr' h'.
    benc w (ADict dict) \<and> (\<exists>rest. cf_content file = w @ rest) \<and> dict (lit ''info'') = Some info \<and>
    cf_content file = pre @ part @ aft \<and> benc part info \<and>
    tracker_announce_udp env (started_tracker parse find_peer_fn (client_init default_config t) thread url) h =
      Inr (tr', h', [connect_dgram (env_rand_connect env), announce_dgram cid (env_rand_announce env) (sha part)], 0)"
proof -
  obtain w dict pre part aft info where p: "benc w (ADict dict)" "\<exists>rest. cf_content file = w @ rest"
      "dict (lit ''info'') = Some info" "cf_content file = pre @ part @ aft" "benc part info"
      "t_info_hash t = Some (sha part)"
    using loaded_info_hash [OF assms(1,2)] by blast
  let ?tr = "started_tracker parse find_peer_fn (client_init default_config t) thread url"
  have tr: "tr_sock_fd ?tr = - 1" "tr_url ?tr = Some url" "tr_find_fn ?tr = Some find_peer_fn" "tr_torrent ?tr = t"
    by (simp_all add: started_tracker_def new_tracker_def client_init_def)
  obtain addr where conn: "udp_connect env ?tr =
      Inr (?tr\<lparr>tr_sock_fd := env_socket env, tr_addr := addr, tr_connection_id := cid\<rparr>,
        [connect_dgram (env_rand_connect env)], None)"
    using udp_connect_answered [OF tr(1,2) assms(5,6)] by (auto simp: Let_def)
  obtain h' where "report_peers (Some find_peer_fn) (take 167 ps) h = Inr h'" using report_peers_ok [OF assms(4)] by blast
  then have "\<exists>tr'. tracker_announce_udp env ?tr h = Inr (tr', h',
      [connect_dgram (env_rand_connect env), announce_dgram cid (env_rand_announce env) (sha part)], 0)"
    using udp_announce_answered [OF conn _ assms(3,7,8), where c = h] tr p(6) by simp
  then show ?thesis using p by blast
qed

text \<open>The sample torrent of one file, and a hash function of 20 bytes.\<close>

definition sample_file :: cfile where
  "sample_file = \<lparr>cf_content = sample_torrent, cf_seekable = True\<rparr>"

definition sample_sha :: "bytes \<Rightarrow> bytes" where
  "sample_sha bs = take 20 (bs @ replicate 20 0)"

lemma sample_sha_20: "length (sample_sha bs) = 20"
  by (simp add: sample_sha_def)

lemma sample_loads:
  "\<exists>h. length h = 20 \<and> torrent_init_from_file sample_sha (Some sample_file) junk =
    Inr (junk\<lparr>t_info_hash := Some h, t_tracker_count := 1, t_tracker_urls := [Some (lit ''udp://t'')],
      t_info := (t_info junk)\<lparr>info_file_name := Some (lit ''n''), info_pieces := None,
         info_mode := SingleFile (Some 3)\<rparr>\<rparr>, 0)"
  using load_single_file [where sha = sample_sha and t = junk and f = sample_file,
      OF sample_torrent_benc _ _ sample_facts(1) sample_lookup]
  unfolding sample_facts by (simp add: sample_file_def sample_sha_def)

theorem announced_info_hash_witness:
  "\<exists>t tr' h' part. torrent_init_from_file sample_sha (Some sample_file) blank_torrent = Inr (t, 0) \<and>
     tracker_announce_udp example_env
       (started_tracker (env_parse example_env) find_peer_fn (client_init default_config t) 0 (lit ''udp://t:80''))
       (example_client, (\<lambda>_. 16), 0) = Inr (tr', h', [connect_dgram 7, announce_dgram 99 8 (sample_sha part)], 0)"
proof -
  obtain t where t: "torrent_init_from_file sample_sha (Some sample_file) blank_torrent = Inr (t, 0)"
    using sample_loads [of blank_torrent] by blast
  have "handle_ok (example_client, (\<lambda>_. 16), 0)"
    using example_client_ok by (auto simp: handle_ok_def client_ok_def)
  moreover have "int (length (cf_content sample_file)) \<le> INT_MAX" using sample_facts(1) by (simp add: sample_file_def)
  moreover have "env_connect_resp example_env = Some (be32 0 @ be32 (env_rand_connect example_env) @ be64 99 @ [])"
    "env_announce_resp example_env = Some (announce_bytes 1 8 0 0 0 [\<lparr>up_ip = 3, up_port = 6881\<rparr>])"
    "env_rand_connect example_env = 7" "env_rand_announce example_env = 8" by (simp_all add: example_env_def)
  ultimately show ?thesis
    using announced_info_hash [OF t _ _ _ example_reachable, of "(example_client, (\<lambda>_. 16), 0)" 0 99 "[]" 1 8 0 0 0
        "[\<lparr>up_ip = 3, up_port = 6881\<rparr>]" "env_parse example_env" 0] t
    by (fastforce simp: sample_sha_def)
qed

text \<open>C7: The program from start to end, for one torrent file that begins with a well-shaped torrent of a
  single file. It loads the torrent, prints its contents, tracker and name, and enters its loop
  with one tracker, which has a thread of its own and is not stopped, and with 20 peer threads. From
  there, whatever the peer threads, discoveries and rounds of the main thread do (\<open>main_awake\<close>) and
  whatever the thread of the tracker makes of it (\<open>tracker_left\<close>), after the interrupt the program stops
  that tracker and returns 0, having printed one line per round; the numbers of peers in these lines
  never decrease, and none exceeds the length of the list at the end or is less than the number of
  unchecked ones beside it. A file that cannot be opened makes the program return -1. Given a magnet link instead,
  it reads a torrent structure that nothing has initialised.\<close>

theorem main_single_file:
  assumes "benc w (ADict dict)" and "cf_content f = w @ rest" and "cf_seekable f"
    and "int (length (w @ rest)) \<le> INT_MAX"
    and "dict (lit ''announce-list'') = None" and "dict (lit ''announce'') = Some (AStr u)"
    and "dict (lit ''info'') = Some (ADict info)" and "info (lit ''piece length'') \<noteq> None"
    and "info (lit ''name'') = Some (AStr nm)" and "info (lit ''length'') = Some (AInt n)"
    and "info (lit ''files'') = None" and "\<And>bs. length (sha bs) = 20"
    and "fopen path = Some f" and "fopen bad = None"
  shows "(\<exists>start tr v dbg. main_begin sha fopen parse thread junk [Opt_t path] = Inr (Running start) \<and>
      bencode_parse (w @ rest) (int (length (w @ rest))) = gives v (int (length w)) \<and> bencode_debug v = Inr dbg \<and>
      ps_output start = lit ''INFO SECTION:'' @ [10] @ dbg @ lit ''Torrent trackers (1):'' @ [10] @ cstr u @ [10] @
        lit ''File name: '' @ cstr nm @ [10] \<and>
      ps_threads start = 20 \<and> ps_trackers start = Some [tr] \<and>
      tr_url tr = Some (cstr u) \<and> tr_update_thread tr = Some (thread 0) \<and> \<not> tr_stopped tr \<and>
      (\<forall>s tr'. main_awake start s \<and> tracker_left tr tr' \<longrightarrow>
         main_end start (Some [tr']) s = Inr \<lparr>run_status = 0,
           run_output = ps_output start @ concat (map report_line (sw_reports s)) @
             lit ''Stopping!'' @ [10] @ lit ''Goodbye'' @ [10],
           run_trackers = Some [tr'\<lparr>tr_stopped := True\<rparr>], run_reports = sw_reports s\<rparr> \<and>
         sorted (map fst (sw_reports s)) \<and>
         (\<forall>(len, unchecked) \<in> set (sw_reports s). 0 \<le> unchecked \<and> unchecked \<le> len \<and> len \<le> list_len (snd (sw_list s))))) \<and>
    main_begin sha fopen parse thread junk [Opt_t bad] =
      Inr (Aborted (- 1) (lit ''Aborting due to errors'' @ [10])) \<and>
    (\<forall>link. main_begin sha fopen parse thread junk [Opt_m link] = Inl UninitRead)"
proof -
  have args: "parse_args [Opt_t p] initial_arguments = Some \<lparr>arg_mode = TORRENT_FILE_MODE, arg_string = Some p\<rparr>"
    "parse_args [Opt_m p] initial_arguments = Some \<lparr>arg_mode = MAGNET_LINK_MODE, arg_string = Some p\<rparr>" for p
    by (simp_all add: parse_opt_def initial_arguments_def)
  obtain h where h: "torrent_init_from_file sha (Some f) junk =
      Inr (junk\<lparr>t_info_hash := Some h, t_tracker_count := 1, t_tracker_urls := [Some (cstr u)],
        t_info := (t_info junk)\<lparr>info_file_name := Some (cstr nm), info_pieces := None,
           info_mode := SingleFile (Some (to_int32 n))\<rparr>\<rparr>, 0)" (is "_ = Inr (?t, 0)")
    using load_single_file [of w dict f rest u info nm n sha, OF assms(1-12)] by blast
  have sum: "torrent_summary ?t = Inr (lit ''Torrent trackers (1):'' @ [10] @ cstr u @ [10] @ lit ''File name: '' @ cstr nm @ [10])"
    by (rule single_file_summary) simp_all
  obtain v dbg where printed: "bencode_parse (w @ rest) (int (length (w @ rest))) = gives v (int (length w))"
      "bencode_debug v = Inr dbg" "load_text (Some f) = Inr (lit ''INFO SECTION:'' @ [10] @ dbg)"
    using load_text_parsed [OF assms(1-4)] assms(7) by auto
  let ?c = "client_init default_config ?t"
  let ?tr = "started_tracker parse find_peer_fn ?c (thread 0) (cstr u)"
  let ?start = "\<lparr>ps_output = lit ''INFO SECTION:'' @ [10] @ dbg @ lit ''Torrent trackers (1):'' @ [10] @ cstr u @ [10] @
      lit ''File name: '' @ cstr nm @ [10], ps_client = ?c, ps_trackers = Some [?tr], ps_threads = 20\<rparr>"
  have start: "main_begin sha fopen parse thread junk [Opt_t path] = Inr (Running ?start)"
    using main_start_exact [OF sum, of "[cstr u]" "[]" parse thread] h printed(3) assms(13)
    by (simp add: main_begin_def args del: parse_args.simps)
  have tr: "tr_url ?tr = Some (cstr u)" "tr_update_thread ?tr = Some (thread 0)" "\<not> tr_stopped ?tr"
    by (simp_all add: started_tracker_def new_tracker_def)
  have "main_end ?start (Some [tr']) s = Inr \<lparr>run_status = 0,
      run_output = ps_output ?start @ concat (map report_line (sw_reports s)) @ lit ''Stopping!'' @ [10] @ lit ''Goodbye'' @ [10],
      run_trackers = Some [tr'\<lparr>tr_stopped := True\<rparr>], run_reports = sw_reports s\<rparr>" if "tracker_left ?tr tr'" for s tr'
    using main_end_exact [of "[?tr]" "[tr']" ?start s] that tr(3) by simp
  moreover note main_reports [of ?start _ default_config ?t]
  moreover have "main_begin sha fopen parse thread junk [Opt_t bad] = Inr (Aborted (- 1) (lit ''Aborting due to errors'' @ [10]))"
    using assms(14) by (simp add: main_begin_def args torrent_init_from_file_def load_text_def del: parse_args.simps)
  moreover have "main_begin sha fopen parse thread junk [Opt_m link] = Inl UninitRead" for link
    by (simp add: main_begin_def args del: parse_args.simps)
  ultimately show ?thesis using start printed(1,2) tr by (intro conjI exI [of _ ?start] exI [of _ ?tr] exI [of _ v] exI [of _ dbg]) auto
qed

text \<open>A run in which a tracker thread finds one peer and the main thread makes one round.\<close>

theorem main_single_file_witness:
  "\<exists>start tr s out. main_begin sample_sha (\<lambda>p. if p = lit ''x.torrent'' then Some sample_file else None) (env_parse example_env) id
       blank_torrent [Opt_t (lit ''x.torrent'')] = Inr (Running start) \<and> ps_trackers start = Some [tr] \<and>
     main_awake start s \<and> main_end start (Some [tr]) s = Inr \<lparr>run_status = 0, run_output = out,
       run_trackers = Some [tr\<lparr>tr_stopped := True\<rparr>], run_reports = [(1, 1)]\<rparr>"
proof -
  have "(if [] = lit ''x.torrent'' then Some sample_file else None) = None" by (simp add: lit_def)
  then obtain start tr where start: "main_begin sample_sha (\<lambda>p. if p = lit ''x.torrent'' then Some sample_file else None)
        (env_parse example_env) id blank_torrent [Opt_t (lit ''x.torrent'')] = Inr (Running start)"
      "ps_trackers start = Some [tr]"
      "\<forall>s tr'. main_awake start s \<and> tracker_left tr tr' \<longrightarrow>
         main_end start (Some [tr']) s = Inr \<lparr>run_status = 0,
           run_output = ps_output start @ concat (map report_line (sw_reports s)) @
             lit ''Stopping!'' @ [10] @ lit ''Goodbye'' @ [10],
           run_trackers = Some [tr'\<lparr>tr_stopped := True\<rparr>], run_reports = sw_reports s\<rparr>"
    using main_single_file [where sha = sample_sha and f = sample_file and path = "lit ''x.torrent''" and bad = "[]"
        and fopen = "\<lambda>p. if p = lit ''x.torrent'' then Some sample_file else None"
        and parse = "env_parse example_env" and thread = id and junk = blank_torrent,
        OF sample_torrent_benc _ _ sample_facts(1) sample_lookup]
    by (fastforce simp: sample_file_def sample_sha_def)
  obtain cfg t where c: "ps_client start = client_init cfg t" using begin_client [OF start(1)] by blast
  then have "list_ok (c_peers (ps_client start)) []" "c_mem (ps_client start) 16 = None"
    using client_init_ok [of cfg t] by (simp_all add: client_ok_def client_init_def)
  then obtain s0 where s0: "swarm_steps (ps_threads start) (start_swarm (ps_client start)) s0" "sw_main s0 = MainSleep"
      "sw_reports s0 = []" "list_ok (sw_list s0) [16]"
      "c_mem (sw_client s0) 16 = Some (new_peer_record \<lparr>dp_ip = 1, dp_port = 1\<rparr>)"
    using one_peer_run [of "ps_client start" 16 "ps_threads start"] by auto
  have "may_be_new (sw_client s0) 16 True"
    by (simp add: may_be_new_def is_new_def peer_at_def s0(5) new_peer_record_def)
  then obtain s where s: "swarm_steps (ps_threads start) s0 s" "sw_main s = MainSleep" "sw_reports s = [(1, 1)]"
    using round_run [OF s0(2,4), of "ps_threads start"] s0(3) by auto
  then have "main_awake start s" using s0(1) unfolding main_awake_def by (meson rtranclp_trans)
  then show ?thesis using start s(3) left_refl [of tr] by fastforce
qed

text \<open>C8: What a load promises to the start and the end of the program. Every file that loads with status 0,
  whatever is in it, gives a torrent with a hash of 20 bytes, a tracker count that matches the URLs that
  are set, and a mode. When the torrent has a name and no file without a path: with a tracker, the program prints
  its summary and starts one tracker per URL, in order, each with a thread of its own, and after the
  interrupt it stops all of them and returns 0, whatever the threads did in between; with no
  tracker, starting the trackers follows an indeterminate pointer. Without a name, the summary hands a null
  pointer to \<open>printf\<close>.\<close>

theorem loaded_torrent_typed:
  assumes "torrent_init_from_file sha cf junk = Inr (t, 0)" and "\<And>bs. length (sha bs) = 20"
  shows "torrent_typed t \<and>
    (info_file_name (t_info t) = None \<longrightarrow> main_start parse thread t = Inl NullDeref) \<and>
    (info_file_name (t_info t) \<noteq> None \<and>
     (\<forall>files. info_mode (t_info t) = MultiFile files \<longrightarrow> (\<forall>f \<in> set files. fi_path f \<noteq> None)) \<longrightarrow>
       (0 < t_tracker_count t \<longrightarrow> (\<exists>start us rest ts.
          main_start parse thread t = Inr start \<and> ps_trackers start = Some ts \<and>
          t_tracker_urls t = map Some us @ rest \<and> t_tracker_count t = int (length us) \<and>
          map tr_url ts = map Some us \<and> map tr_update_thread ts = map (\<lambda>i. Some (thread i)) [0..<length us] \<and>
          list_all (\<lambda>tr. \<not> tr_stopped tr) ts \<and>
          (\<forall>s ts'. main_awake start s \<and> list_all2 tracker_left ts ts' \<longrightarrow>
             (\<exists>run. main_end start (Some ts') s = Inr run \<and> run_status run = 0 \<and>
                run_trackers run = Some (map (\<lambda>tr. tr\<lparr>tr_stopped := True\<rparr>) ts'))))) \<and>
       (t_tracker_count t = 0 \<longrightarrow> main_start parse thread t = Inl UninitRead))"
proof -
  have typed: "torrent_typed t" using loaded_typed [OF assms] .
  then obtain us rest where us: "t_tracker_urls t = map Some us @ rest" "t_tracker_count t = int (length us)"
    by (auto simp: torrent_typed_def)
  have none: "main_start parse thread t = Inl NullDeref" if "info_file_name (t_info t) = None"
    using unnamed_summary [OF us that] by (simp add: main_start_def)
  have rest: "(0 < t_tracker_count t \<longrightarrow> (\<exists>start us rest ts.
        main_start parse thread t = Inr start \<and> ps_trackers start = Some ts \<and>
        t_tracker_urls t = map Some us @ rest \<and> t_tracker_count t = int (length us) \<and>
        map tr_url ts = map Some us \<and> map tr_update_thread ts = map (\<lambda>i. Some (thread i)) [0..<length us] \<and>
        list_all (\<lambda>tr. \<not> tr_stopped tr) ts \<and>
        (\<forall>s ts'. main_awake start s \<and> list_all2 tracker_left ts ts' \<longrightarrow>
           (\<exists>run. main_end start (Some ts') s = Inr run \<and> run_status run = 0 \<and>
              run_trackers run = Some (map (\<lambda>tr. tr\<lparr>tr_stopped := True\<rparr>) ts'))))) \<and>
      (t_tracker_count t = 0 \<longrightarrow> main_start parse thread t = Inl UninitRead)"
    if named: "info_file_name (t_info t) \<noteq> None"
      and paths: "\<forall>files. info_mode (t_info t) = MultiFile files \<longrightarrow> (\<forall>f \<in> set files. fi_path f \<noteq> None)"
  proof -
    obtain out where out: "torrent_summary t = Inr out"
      using typed_summary [OF us] typed named paths unfolding torrent_typed_def by blast
    show ?thesis
    proof (cases "us = []")
      case True
      then show ?thesis
        using out us(2) by (simp add: main_start_def client_init_trackers_def client_start_trackers_def client_init_def Let_def)
    next
      case False
      note start = main_start_exact [OF out us False, of parse thread]
      let ?ts = "map (\<lambda>(i, u). started_tracker parse find_peer_fn (client_init default_config t) (thread i) u) (enumerate 0 us)"
      note ts = started_trackers [of parse find_peer_fn "client_init default_config t" thread us]
      show ?thesis
      proof (intro conjI impI exI)
        show "main_start parse thread t = Inr \<lparr>ps_output = out, ps_client = client_init default_config t,
            ps_trackers = Some ?ts, ps_threads = 20\<rparr>" (is "_ = Inr ?start") by (rule start)
        show "t_tracker_urls t = map Some us @ rest" "t_tracker_count t = int (length us)" using us by blast+
        show "map tr_url ?ts = map Some us" "map tr_update_thread ?ts = map (\<lambda>i. Some (thread i)) [0..<length us]"
          by (rule ts)+
        have live: "\<not> tr_stopped tr" if "tr \<in> set ?ts" for tr
          using started_tracker_fields [OF that] by blast
        then show "list_all (\<lambda>tr. \<not> tr_stopped tr) ?ts" unfolding list_all_iff by blast
        show "\<forall>s ts'. main_awake ?start s \<and> list_all2 tracker_left ?ts ts' \<longrightarrow>
            (\<exists>run. main_end ?start (Some ts') s = Inr run \<and> run_status run = 0 \<and>
               run_trackers run = Some (map (\<lambda>tr. tr\<lparr>tr_stopped := True\<rparr>) ts'))"
          using main_end_exact [of ?ts _ ?start] live by fastforce
      qed (use us(2) False in simp_all)
    qed
  qed
  then show ?thesis using typed none by blast
qed

theorem loaded_torrent_typed_witness:
  "\<exists>t start tr. torrent_init_from_file sample_sha (Some sample_file) blank_torrent = Inr (t, 0) \<and> torrent_typed t \<and>
     main_start (env_parse example_env) id t = Inr start \<and> ps_trackers start = Some [tr] \<and>
     tr_url tr = Some (lit ''udp://t'') \<and>
     (\<exists>run. main_end start (Some [tr]) (start_swarm (ps_client start)) = Inr run \<and> run_status run = 0)"
proof -
  obtain t where t: "torrent_init_from_file sample_sha (Some sample_file) blank_torrent = Inr (t, 0)"
      "t_tracker_count t = 1" "t_tracker_urls t = [Some (lit ''udp://t'')]" "info_file_name (t_info t) \<noteq> None"
      "\<forall>files. info_mode (t_info t) \<noteq> MultiFile files"
    using sample_loads [of blank_torrent] by force
  note p = loaded_torrent_typed [OF t(1) sample_sha_20, of "env_parse example_env" id]
  have named: "info_file_name (t_info t) \<noteq> None \<and>
      (\<forall>files. info_mode (t_info t) = MultiFile files \<longrightarrow> (\<forall>f \<in> set files. fi_path f \<noteq> None))"
    using t(4,5) by blast
  obtain start us rest ts where st: "main_start (env_parse example_env) id t = Inr start" "ps_trackers start = Some ts"
      "t_tracker_urls t = map Some us @ rest" "t_tracker_count t = int (length us)" "map tr_url ts = map Some us"
      "\<forall>s ts'. main_awake start s \<and> list_all2 tracker_left ts ts' \<longrightarrow>
         (\<exists>run. main_end start (Some ts') s = Inr run \<and> run_status run = 0 \<and>
            run_trackers run = Some (map (\<lambda>tr. tr\<lparr>tr_stopped := True\<rparr>) ts'))"
    using mp [OF conjunct1 [OF mp [OF p [THEN conjunct2, THEN conjunct2] named]]] t(2) by auto
  have "us = [lit ''udp://t'']" using st(3,4) t(2,3) by (cases us) auto
  then obtain tr where tr: "ts = [tr]" "tr_url tr = Some (lit ''udp://t'')" using st(5) by auto
  have "main_awake start (start_swarm (ps_client start))" by (simp add: main_awake_def start_swarm_def)
  then have "\<exists>run. main_end start (Some [tr]) (start_swarm (ps_client start)) = Inr run \<and> run_status run = 0"
    using st(6) left_refl [of tr] unfolding tr(1) by (metis list_all2_Cons list_all2_Nil)
  moreover have "torrent_typed t" using p by blast
  ultimately show ?thesis using t(1) st(1,2) tr by blast
qed

end
